(* ===== verification/FF_Prelude.thy ===== *)
theory FF_Prelude
  imports "HOL-Library.Word" "HOL-Library.Monad_Syntax"
begin

text \<open>
  Shared vocabulary of the development: the C integer types of \<open>ff.h\<close>, byte buffers with
  checked accesses, and the weakest-precondition calculus of the option monad.

  A buffer is the list of the bytes of one C object (an array, or the part of it behind a
  pointer).  Every access goes through the operations below; an access outside the object
  is undefined behaviour in C and is the value \<open>None\<close> here, as is a loop that does not
  return.  A statement \<open>wp m Q\<close> therefore says at once that \<open>m\<close> makes no access outside
  its objects, that it returns, and that its result satisfies \<open>Q\<close>.
\<close>

unbundle bit_operations_syntax

section \<open>Integer types\<close>

type_synonym BYTE = "8 word"
type_synonym WORD = "16 word"
type_synonym DWORD = "32 word"
type_synonym QWORD = "64 word"
type_synonym UINT = "32 word"
type_synonym LBA_t = "32 word"
type_synonym FSIZE_t = "32 word"

type_synonym buffer = "BYTE list"

section \<open>Checked access to byte buffers\<close>

definition ldb :: "buffer \<Rightarrow> nat \<Rightarrow> BYTE option" where
  "ldb b i = (if i < length b then Some (b ! i) else None)"

definition stb :: "buffer \<Rightarrow> nat \<Rightarrow> BYTE \<Rightarrow> buffer option" where
  "stb b i v = (if i < length b then Some (b[i := v]) else None)"

text \<open>The library calls of \<open>string.h\<close> that the sources use: \<open>memcpy\<close> split into the read of
  the source object and the write of the destination object, \<open>memset\<close>, and \<open>memcmp\<close> as the
  test for equality, which is the only way its result is used.\<close>

definition memread :: "buffer \<Rightarrow> nat \<Rightarrow> nat \<Rightarrow> buffer option" where
  "memread b off n = (if off + n \<le> length b then Some (take n (drop off b)) else None)"

definition memwrite :: "buffer \<Rightarrow> nat \<Rightarrow> buffer \<Rightarrow> buffer option" where
  "memwrite b off src =
     (if off + length src \<le> length b
      then Some (take off b @ src @ drop (off + length src) b) else None)"

definition memset :: "buffer \<Rightarrow> nat \<Rightarrow> BYTE \<Rightarrow> nat \<Rightarrow> buffer option" where
  "memset b off v n = memwrite b off (replicate n v)"

definition memeq :: "buffer \<Rightarrow> nat \<Rightarrow> buffer \<Rightarrow> bool option" where
  "memeq b off pat = do { c \<leftarrow> memread b off (length pat); Some (c = pat) }"

text \<open>The bytes of a string literal.\<close>

definition bytes_of :: "string \<Rightarrow> buffer" where
  "bytes_of cs = map (\<lambda>c. of_nat (of_char c)) cs"

section \<open>Weakest preconditions\<close>

definition wp :: "'a option \<Rightarrow> ('a \<Rightarrow> bool) \<Rightarrow> bool" where
  "wp m Q \<longleftrightarrow> (\<exists>x. m = Some x \<and> Q x)"

named_theorems wp_simps "equations that push wp through the control structure of a program"
named_theorems wp_intros "rules that discharge wp for one operation"

lemma wp_Some [wp_simps, simp]: "wp (Some x) Q \<longleftrightarrow> Q x"
  by (simp add: wp_def)

lemma wp_None [wp_simps, simp]: "\<not> wp None Q"
  by (simp add: wp_def)

lemma wp_bind [wp_simps]: "wp (Option.bind m f) Q \<longleftrightarrow> wp m (\<lambda>x. wp (f x) Q)"
  by (cases m) (simp_all add: wp_def)

lemma wp_if [wp_simps]:
  "wp (if b then m else n) Q \<longleftrightarrow> (b \<longrightarrow> wp m Q) \<and> (\<not> b \<longrightarrow> wp n Q)"
  by simp

lemma wp_case_prod [wp_simps]:
  "wp (case p of (a, b) \<Rightarrow> f a b) Q \<longleftrightarrow> (case p of (a, b) \<Rightarrow> wp (f a b) Q)"
  by (cases p) simp

lemma wp_Let [wp_simps]: "wp (Let x f) Q \<longleftrightarrow> wp (f x) Q"
  by simp

lemma wp_mono: "wp m R \<Longrightarrow> (\<And>x. R x \<Longrightarrow> Q x) \<Longrightarrow> wp m Q"
  by (auto simp: wp_def)

lemma wp_bindI: "wp m R \<Longrightarrow> (\<And>x. R x \<Longrightarrow> wp (f x) Q) \<Longrightarrow> wp (Option.bind m f) Q"
  by (auto simp: wp_def)

lemma wp_conjI: "wp m P \<Longrightarrow> wp m Q \<Longrightarrow> wp m (\<lambda>x. P x \<and> Q x)"
  by (auto simp: wp_def)

lemma wp_not_None: "wp m Q \<Longrightarrow> m \<noteq> None"
  by (auto simp: wp_def)

lemma wpE: "wp m Q \<Longrightarrow> (\<And>x. m = Some x \<Longrightarrow> Q x \<Longrightarrow> P) \<Longrightarrow> P"
  by (auto simp: wp_def)

section \<open>Words and their numbers\<close>

lemma unat_ucast_up:
  "LENGTH('a::len) \<le> LENGTH('b::len) \<Longrightarrow> unat (ucast (x::'a word) :: 'b word) = unat x"
proof -
  assume le: "LENGTH('a) \<le> LENGTH('b)"
  have "unat x < 2 ^ LENGTH('a)" by (rule unsigned_less)
  also have "\<dots> \<le> 2 ^ LENGTH('b)" using le by simp
  finally show ?thesis by (simp add: unsigned_ucast_eq take_bit_nat_eq_self)
qed

lemma unat_ucast_mod:
  "unat (ucast (x::'a::len word) :: 'b::len word) = unat x mod 2 ^ LENGTH('b)"
  by (simp add: unsigned_ucast_eq take_bit_eq_mod)

lemma unat_8_less [simp]: "unat (x::8 word) < 256"
  using unsigned_less [of x] by simp

lemma unat_16_less [simp]: "unat (x::16 word) < 65536"
  using unsigned_less [of x] by simp

lemma unat_32_less [simp]: "unat (x::32 word) < 4294967296"
  using unsigned_less [of x] by simp

section \<open>Rules for buffer accesses\<close>

lemma wp_ldb [wp_simps]: "wp (ldb b i) Q \<longleftrightarrow> i < length b \<and> Q (b ! i)"
  by (simp add: ldb_def wp_def)

lemma wp_stb [wp_simps]: "wp (stb b i v) Q \<longleftrightarrow> i < length b \<and> Q (b[i := v])"
  by (simp add: stb_def wp_def)

lemma wp_memread [wp_simps]:
  "wp (memread b off n) Q \<longleftrightarrow> off + n \<le> length b \<and> Q (take n (drop off b))"
  by (simp add: memread_def wp_def)

lemma wp_memwrite [wp_simps]:
  "wp (memwrite b off src) Q \<longleftrightarrow>
     off + length src \<le> length b \<and> Q (take off b @ src @ drop (off + length src) b)"
  by (simp add: memwrite_def wp_def)

lemma wp_memset [wp_simps]:
  "wp (memset b off v n) Q \<longleftrightarrow>
     off + n \<le> length b \<and> Q (take off b @ replicate n v @ drop (off + n) b)"
  by (simp add: memset_def wp_memwrite)

lemma wp_memeq [wp_simps]:
  "wp (memeq b off pat) Q \<longleftrightarrow>
     off + length pat \<le> length b \<and> Q (take (length pat) (drop off b) = pat)"
  by (auto simp: memeq_def memread_def wp_def)

lemma length_bytes_of [simp]: "length (bytes_of cs) = length cs"
  by (simp add: bytes_of_def)

end
