(* ===== verification/Diskio.thy ===== *)
theory Diskio
  imports FF_Prelude
begin

text \<open>
  The block device: \<open>diskio.h\<close> and the in-memory device of \<open>diskio_fuzz.c\<close>.  The static
  array \<open>disk[DISK_SIZE]\<close> is a function from the byte index; indices from \<open>DISK_SIZE\<close> on
  are outside the array and no operation reads or writes them (an operation that would is
  \<open>None\<close>).  Every function of \<open>diskio_fuzz.c\<close> ignores its argument \<open>pdrv\<close>, which is left
  out.  A buffer argument is the list of bytes from the pointer to the end of its object.
\<close>

section \<open>Data\<close>

type_synonym disk = "nat \<Rightarrow> BYTE"

datatype DRESULT = RES_OK | RES_ERROR | RES_WRPRT | RES_NOTRDY | RES_PARERR

type_synonym DSTATUS = BYTE

abbreviation (input) STA_NOINIT :: DSTATUS where "STA_NOINIT \<equiv> 0x01"
abbreviation (input) STA_NODISK :: DSTATUS where "STA_NODISK \<equiv> 0x02"
abbreviation (input) STA_PROTECT :: DSTATUS where "STA_PROTECT \<equiv> 0x04"

abbreviation (input) CTRL_SYNC :: BYTE where "CTRL_SYNC \<equiv> 0"
abbreviation (input) GET_SECTOR_COUNT :: BYTE where "GET_SECTOR_COUNT \<equiv> 1"
abbreviation (input) GET_SECTOR_SIZE :: BYTE where "GET_SECTOR_SIZE \<equiv> 2"
abbreviation (input) GET_BLOCK_SIZE :: BYTE where "GET_BLOCK_SIZE \<equiv> 3"
abbreviation (input) CTRL_TRIM :: BYTE where "CTRL_TRIM \<equiv> 4"

abbreviation (input) DISK_SECTORS :: nat where "DISK_SECTORS \<equiv> 128"
abbreviation (input) SECTOR_SIZE :: nat where "SECTOR_SIZE \<equiv> 512"
abbreviation (input) DISK_SIZE :: nat where "DISK_SIZE \<equiv> 65536"

section \<open>Operations\<close>

text \<open>\<open>memcpy\<close> from and to the static array, with its bounds.\<close>

definition disk_bytes :: "disk \<Rightarrow> nat \<Rightarrow> nat \<Rightarrow> buffer" where
  "disk_bytes d off n = map (\<lambda>i. d (off + i)) [0..<n]"

definition disk_store :: "disk \<Rightarrow> nat \<Rightarrow> buffer \<Rightarrow> disk" where
  "disk_store d off bs = (\<lambda>i. if off \<le> i \<and> i < off + length bs then bs ! (i - off) else d i)"

definition disk_get :: "disk \<Rightarrow> nat \<Rightarrow> nat \<Rightarrow> buffer option" where
  "disk_get d off n = (if off + n \<le> DISK_SIZE then Some (disk_bytes d off n) else None)"

definition disk_put :: "disk \<Rightarrow> nat \<Rightarrow> buffer \<Rightarrow> disk option" where
  "disk_put d off bs = (if off + length bs \<le> DISK_SIZE then Some (disk_store d off bs) else None)"

definition fuzz_disk_load :: "buffer \<Rightarrow> disk option" where
  "fuzz_disk_load data = do {
     let d = (\<lambda>_. 0);
     let len = length data;
     let len = (if len > DISK_SIZE then DISK_SIZE else len);
     src \<leftarrow> memread data 0 len;
     disk_put d 0 src
   }"

definition disk_status :: DSTATUS where
  "disk_status = 0"

definition disk_initialize :: DSTATUS where
  "disk_initialize = 0"

definition in_bounds :: "LBA_t \<Rightarrow> UINT \<Rightarrow> bool" where
  "in_bounds sector count =
     (let s = ucast sector :: QWORD;
          c = ucast count :: QWORD
      in if s \<ge> of_nat DISK_SECTORS then False
         else if c > of_nat DISK_SECTORS - s then False
         else True)"

definition disk_read :: "disk \<Rightarrow> buffer \<Rightarrow> LBA_t \<Rightarrow> UINT \<Rightarrow> (DRESULT \<times> buffer) option" where
  "disk_read d buff sector count =
     (if \<not> in_bounds sector count then Some (RES_PARERR, buff)
      else do {
        src \<leftarrow> disk_get d (unat sector * SECTOR_SIZE) (unat count * SECTOR_SIZE);
        buff \<leftarrow> memwrite buff 0 src;
        Some (RES_OK, buff)
      })"

definition disk_write :: "disk \<Rightarrow> buffer \<Rightarrow> LBA_t \<Rightarrow> UINT \<Rightarrow> (DRESULT \<times> disk) option" where
  "disk_write d buff sector count =
     (if \<not> in_bounds sector count then Some (RES_PARERR, d)
      else do {
        src \<leftarrow> memread buff 0 (unat count * SECTOR_SIZE);
        d \<leftarrow> disk_put d (unat sector * SECTOR_SIZE) src;
        Some (RES_OK, d)
      })"

text \<open>The result of \<open>disk_ioctl\<close> and the value it stores through \<open>buff\<close>, if it stores one.\<close>

definition disk_ioctl :: "BYTE \<Rightarrow> DRESULT \<times> DWORD option" where
  "disk_ioctl cmd =
     (if cmd = GET_SECTOR_COUNT then (RES_OK, Some (of_nat DISK_SECTORS))
      else if cmd = GET_SECTOR_SIZE then (RES_OK, Some (of_nat SECTOR_SIZE))
      else if cmd = GET_BLOCK_SIZE then (RES_OK, Some 1)
      else (RES_OK, None))"

section \<open>The bounds test\<close>

text \<open>The test of the code, on 64-bit words, is the test on unbounded numbers: no
  combination of sector and count wraps around.\<close>

lemma in_bounds_iff [simp]:
  "in_bounds sector count \<longleftrightarrow>
     unat sector < DISK_SECTORS \<and> unat sector + unat count \<le> DISK_SECTORS"
proof -
  have s: "unat (ucast sector :: QWORD) = unat sector"
    by (simp add: unat_ucast_up)
  have c: "unat (ucast count :: QWORD) = unat count"
    by (simp add: unat_ucast_up)
  show ?thesis
  proof (cases "unat sector < DISK_SECTORS")
    case True
    then have "(ucast sector :: QWORD) < 128"
      by (simp add: word_less_nat_alt s)
    moreover have "unat (128 - (ucast sector :: QWORD)) = 128 - unat sector"
      using True by (subst unat_sub) (simp_all add: word_le_nat_alt s)
    ultimately show ?thesis
      using True by (auto simp: in_bounds_def Let_def word_le_nat_alt word_less_nat_alt s c)
  next
    case False
    then show ?thesis
      by (simp add: in_bounds_def Let_def word_le_nat_alt s)
  qed
qed

section \<open>Single sectors\<close>

lemma length_disk_bytes [simp]: "length (disk_bytes d off n) = n"
  by (simp add: disk_bytes_def)

lemma nth_disk_bytes [simp]: "j < n \<Longrightarrow> disk_bytes d off n ! j = d (off + j)"
  by (simp add: disk_bytes_def)

lemma disk_store_sector:
  "length b = 512 \<Longrightarrow> j < 512 \<Longrightarrow>
     disk_store d (m * 512) b (n * 512 + j) = (if m = n then b ! j else d (n * 512 + j))"
  by (auto simp: disk_store_def)

lemma disk_bytes_store [simp]:
  "length b = 512 \<Longrightarrow>
     disk_bytes (disk_store d (m * 512) b) (n * 512) 512 =
       (if m = n then b else disk_bytes d (n * 512) 512)"
  by (auto simp: list_eq_iff_nth_eq disk_store_sector)

lemma disk_write_1:
  "length b = 512 \<Longrightarrow>
     disk_write d b n 1 =
       Some (if unat n < DISK_SECTORS then (RES_OK, disk_store d (unat n * 512) b)
             else (RES_PARERR, d))"
  by (auto simp: disk_write_def disk_put_def memread_def)

lemma disk_read_1:
  "length b = 512 \<Longrightarrow>
     disk_read d b n 1 =
       Some (if unat n < DISK_SECTORS then (RES_OK, disk_bytes d (unat n * 512) 512)
             else (RES_PARERR, b))"
  by (auto simp: disk_read_def disk_get_def memwrite_def)

section \<open>Several sectors\<close>

lemma disk_read_wp [wp_intros]:
  assumes "unat c * 512 \<le> length b"
    and "\<not> in_bounds n c \<Longrightarrow> Q (RES_PARERR, b)"
    and "in_bounds n c \<Longrightarrow>
           Q (RES_OK, disk_bytes d (unat n * 512) (unat c * 512) @ drop (unat c * 512) b)"
  shows "wp (disk_read d b n c) Q"
  using assms by (auto simp: disk_read_def disk_get_def wp_simps)

lemma disk_write_wp [wp_intros]:
  assumes "unat c * 512 \<le> length b"
    and "\<not> in_bounds n c \<Longrightarrow> Q (RES_PARERR, d)"
    and "in_bounds n c \<Longrightarrow>
           Q (RES_OK, disk_store d (unat n * 512) (take (unat c * 512) b))"
  shows "wp (disk_write d b n c) Q"
  using assms by (auto simp: disk_write_def disk_put_def wp_simps)

end
