(* ===== verification/FF_Types.thy ===== *)
theory FF_Types
  imports Diskio
begin

text \<open>
  The data of \<open>ff.h\<close> under the configuration of \<open>ffconf.h\<close> with \<open>ffconf_fuzz_override.h\<close>
  (512-byte sectors, one volume named \<open>RAM\<close>, tiny buffers, no long file names, no exFAT, no
  locking, no real-time clock), the constants of \<open>ff.c\<close>, and the little-endian load and
  store functions.

  A pointer into the window \<open>fs->win\<close> (the members \<open>dir\<close> of \<open>DIR\<close> and \<open>dir_ptr\<close> of \<open>FIL\<close>)
  is its offset from the start of the window.  A pointer to a filesystem object is the
  address of the object, \<open>None\<close> for the null pointer.
\<close>

section \<open>Structures\<close>

datatype FRESULT =
    FR_OK | FR_DISK_ERR | FR_INT_ERR | FR_NOT_READY | FR_NO_FILE | FR_NO_PATH
  | FR_INVALID_NAME | FR_DENIED | FR_EXIST | FR_INVALID_OBJECT | FR_WRITE_PROTECTED
  | FR_INVALID_DRIVE | FR_NOT_ENABLED | FR_NO_FILESYSTEM | FR_MKFS_ABORTED | FR_TIMEOUT
  | FR_LOCKED | FR_NOT_ENOUGH_CORE | FR_TOO_MANY_OPEN_FILES | FR_INVALID_PARAMETER

record FATFS =
  fs_type :: BYTE
  pdrv :: BYTE
  n_fats :: BYTE
  wflag :: BYTE
  fsi_flag :: BYTE
  fs_id :: WORD
  n_rootdir :: WORD
  csize :: WORD
  last_clst :: DWORD
  free_clst :: DWORD
  n_fatent :: DWORD
  fsize :: DWORD
  volbase :: LBA_t
  fatbase :: LBA_t
  dirbase :: LBA_t
  database :: LBA_t
  winsect :: LBA_t
  win :: buffer

text \<open>A filesystem object together with the device under it: the state that the functions
  below the API pass on.\<close>

record vol = FATFS +
  vdisk :: disk

type_synonym fsptr = "nat option"

record FFOBJID =
  ofs_ptr :: fsptr
  oid :: WORD
  attr :: BYTE
  stat :: BYTE
  sclust :: DWORD
  objsize :: FSIZE_t

record FIL =
  fobj :: FFOBJID
  fflag :: BYTE
  ferr :: FRESULT
  fptr :: FSIZE_t
  fclust :: DWORD
  fsect :: LBA_t
  dir_sect :: LBA_t
  dir_ptr :: nat

record DIR =
  dobj :: FFOBJID
  dptr :: DWORD
  clust :: DWORD
  sect :: LBA_t
  dir :: nat
  fn :: buffer

record FILINFO =
  fno_fsize :: FSIZE_t
  fdate :: WORD
  ftime :: WORD
  fattrib :: BYTE
  fname :: buffer

record MKFS_PARM =
  mp_fmt :: BYTE
  mp_n_fat :: BYTE
  mp_align :: UINT
  mp_n_root :: UINT
  mp_au_size :: DWORD

section \<open>Constants\<close>

abbreviation (input) MAX_DIR :: DWORD where "MAX_DIR \<equiv> 0x200000"
abbreviation (input) MAX_FAT12 :: DWORD where "MAX_FAT12 \<equiv> 0xFF5"
abbreviation (input) MAX_FAT16 :: DWORD where "MAX_FAT16 \<equiv> 0xFFF5"
abbreviation (input) MAX_FAT32 :: DWORD where "MAX_FAT32 \<equiv> 0x0FFFFFF5"

abbreviation (input) FA_READ :: BYTE where "FA_READ \<equiv> 0x01"
abbreviation (input) FA_WRITE :: BYTE where "FA_WRITE \<equiv> 0x02"
abbreviation (input) FA_OPEN_EXISTING :: BYTE where "FA_OPEN_EXISTING \<equiv> 0x00"
abbreviation (input) FA_CREATE_NEW :: BYTE where "FA_CREATE_NEW \<equiv> 0x04"
abbreviation (input) FA_CREATE_ALWAYS :: BYTE where "FA_CREATE_ALWAYS \<equiv> 0x08"
abbreviation (input) FA_OPEN_ALWAYS :: BYTE where "FA_OPEN_ALWAYS \<equiv> 0x10"
abbreviation (input) FA_OPEN_APPEND :: BYTE where "FA_OPEN_APPEND \<equiv> 0x30"
abbreviation (input) FA_SEEKEND :: BYTE where "FA_SEEKEND \<equiv> 0x20"
abbreviation (input) FA_MODIFIED :: BYTE where "FA_MODIFIED \<equiv> 0x40"

abbreviation (input) FS_FAT12 :: BYTE where "FS_FAT12 \<equiv> 1"
abbreviation (input) FS_FAT16 :: BYTE where "FS_FAT16 \<equiv> 2"
abbreviation (input) FS_FAT32 :: BYTE where "FS_FAT32 \<equiv> 3"

abbreviation (input) FM_FAT :: BYTE where "FM_FAT \<equiv> 0x01"
abbreviation (input) FM_FAT32 :: BYTE where "FM_FAT32 \<equiv> 0x02"
abbreviation (input) FM_EXFAT :: BYTE where "FM_EXFAT \<equiv> 0x04"
abbreviation (input) FM_ANY :: BYTE where "FM_ANY \<equiv> 0x07"
abbreviation (input) FM_SFD :: BYTE where "FM_SFD \<equiv> 0x08"

abbreviation (input) AM_RDO :: BYTE where "AM_RDO \<equiv> 0x01"
abbreviation (input) AM_HID :: BYTE where "AM_HID \<equiv> 0x02"
abbreviation (input) AM_SYS :: BYTE where "AM_SYS \<equiv> 0x04"
abbreviation (input) AM_VOL :: BYTE where "AM_VOL \<equiv> 0x08"
abbreviation (input) AM_DIR :: BYTE where "AM_DIR \<equiv> 0x10"
abbreviation (input) AM_ARC :: BYTE where "AM_ARC \<equiv> 0x20"
abbreviation (input) AM_LFN :: BYTE where "AM_LFN \<equiv> 0x0F"
abbreviation (input) AM_MASK :: BYTE where "AM_MASK \<equiv> 0x3F"

abbreviation (input) NSFLAG :: nat where "NSFLAG \<equiv> 11"
abbreviation (input) NS_LAST :: BYTE where "NS_LAST \<equiv> 0x04"
abbreviation (input) NS_DOT :: BYTE where "NS_DOT \<equiv> 0x20"
abbreviation (input) NS_NONAME :: BYTE where "NS_NONAME \<equiv> 0x80"

abbreviation (input) BS_JmpBoot :: nat where "BS_JmpBoot \<equiv> 0"
abbreviation (input) BPB_BytsPerSec :: nat where "BPB_BytsPerSec \<equiv> 11"
abbreviation (input) BPB_SecPerClus :: nat where "BPB_SecPerClus \<equiv> 13"
abbreviation (input) BPB_RsvdSecCnt :: nat where "BPB_RsvdSecCnt \<equiv> 14"
abbreviation (input) BPB_NumFATs :: nat where "BPB_NumFATs \<equiv> 16"
abbreviation (input) BPB_RootEntCnt :: nat where "BPB_RootEntCnt \<equiv> 17"
abbreviation (input) BPB_TotSec16 :: nat where "BPB_TotSec16 \<equiv> 19"
abbreviation (input) BPB_Media :: nat where "BPB_Media \<equiv> 21"
abbreviation (input) BPB_FATSz16 :: nat where "BPB_FATSz16 \<equiv> 22"
abbreviation (input) BPB_SecPerTrk :: nat where "BPB_SecPerTrk \<equiv> 24"
abbreviation (input) BPB_NumHeads :: nat where "BPB_NumHeads \<equiv> 26"
abbreviation (input) BPB_HiddSec :: nat where "BPB_HiddSec \<equiv> 28"
abbreviation (input) BPB_TotSec32 :: nat where "BPB_TotSec32 \<equiv> 32"
abbreviation (input) BS_DrvNum :: nat where "BS_DrvNum \<equiv> 36"
abbreviation (input) BS_BootSig :: nat where "BS_BootSig \<equiv> 38"
abbreviation (input) BS_VolID :: nat where "BS_VolID \<equiv> 39"
abbreviation (input) BS_VolLab :: nat where "BS_VolLab \<equiv> 43"
abbreviation (input) BS_55AA :: nat where "BS_55AA \<equiv> 510"
abbreviation (input) BPB_FATSz32 :: nat where "BPB_FATSz32 \<equiv> 36"
abbreviation (input) BPB_FSVer32 :: nat where "BPB_FSVer32 \<equiv> 42"
abbreviation (input) BPB_RootClus32 :: nat where "BPB_RootClus32 \<equiv> 44"
abbreviation (input) BPB_FSInfo32 :: nat where "BPB_FSInfo32 \<equiv> 48"
abbreviation (input) BPB_BkBootSec32 :: nat where "BPB_BkBootSec32 \<equiv> 50"
abbreviation (input) BS_DrvNum32 :: nat where "BS_DrvNum32 \<equiv> 64"
abbreviation (input) BS_BootSig32 :: nat where "BS_BootSig32 \<equiv> 66"
abbreviation (input) BS_VolID32 :: nat where "BS_VolID32 \<equiv> 67"
abbreviation (input) BS_VolLab32 :: nat where "BS_VolLab32 \<equiv> 71"
abbreviation (input) BS_FilSysType32 :: nat where "BS_FilSysType32 \<equiv> 82"

abbreviation (input) DIR_Name :: nat where "DIR_Name \<equiv> 0"
abbreviation (input) DIR_Attr :: nat where "DIR_Attr \<equiv> 11"
abbreviation (input) DIR_CrtTime :: nat where "DIR_CrtTime \<equiv> 14"
abbreviation (input) DIR_LstAccDate :: nat where "DIR_LstAccDate \<equiv> 18"
abbreviation (input) DIR_FstClusHI :: nat where "DIR_FstClusHI \<equiv> 20"
abbreviation (input) DIR_ModTime :: nat where "DIR_ModTime \<equiv> 22"
abbreviation (input) DIR_FstClusLO :: nat where "DIR_FstClusLO \<equiv> 26"
abbreviation (input) DIR_FileSize :: nat where "DIR_FileSize \<equiv> 28"
abbreviation (input) SZDIRE :: nat where "SZDIRE \<equiv> 32"
abbreviation (input) DDEM :: BYTE where "DDEM \<equiv> 0xE5"
abbreviation (input) RDDEM :: BYTE where "RDDEM \<equiv> 0x05"

abbreviation (input) FSI_LeadSig :: nat where "FSI_LeadSig \<equiv> 0"
abbreviation (input) FSI_StrucSig :: nat where "FSI_StrucSig \<equiv> 484"
abbreviation (input) FSI_Free_Count :: nat where "FSI_Free_Count \<equiv> 488"
abbreviation (input) FSI_Nxt_Free :: nat where "FSI_Nxt_Free \<equiv> 492"
abbreviation (input) FSI_TrailSig :: nat where "FSI_TrailSig \<equiv> 498"

abbreviation (input) MBR_Table :: nat where "MBR_Table \<equiv> 446"
abbreviation (input) SZ_PTE :: nat where "SZ_PTE \<equiv> 16"
abbreviation (input) PTE_StHead :: nat where "PTE_StHead \<equiv> 1"
abbreviation (input) PTE_StSec :: nat where "PTE_StSec \<equiv> 2"
abbreviation (input) PTE_StCyl :: nat where "PTE_StCyl \<equiv> 3"
abbreviation (input) PTE_System :: nat where "PTE_System \<equiv> 4"
abbreviation (input) PTE_EdHead :: nat where "PTE_EdHead \<equiv> 5"
abbreviation (input) PTE_EdSec :: nat where "PTE_EdSec \<equiv> 6"
abbreviation (input) PTE_EdCyl :: nat where "PTE_EdCyl \<equiv> 7"
abbreviation (input) PTE_StLba :: nat where "PTE_StLba \<equiv> 8"
abbreviation (input) PTE_SizLba :: nat where "PTE_SizLba \<equiv> 12"

text \<open>\<open>SS(fs)\<close> is the constant sector size; \<open>GET_FATTIME()\<close> is the constant timestamp
  2024-11-01 00:00 of the configuration without a clock.\<close>

abbreviation (input) SS :: DWORD where "SS \<equiv> 512"

definition GET_FATTIME :: DWORD where
  "GET_FATTIME = (push_bit 25 (2024 - 1980)) OR (push_bit 21 11) OR (push_bit 16 1)"

section \<open>Load and store of multi-byte words\<close>

definition ld_word :: "buffer \<Rightarrow> nat \<Rightarrow> WORD option" where
  "ld_word b p = do {
     b1 \<leftarrow> ldb b (p + 1);
     let rv = (ucast b1 :: WORD);
     b0 \<leftarrow> ldb b p;
     Some (push_bit 8 rv OR ucast b0)
   }"

definition ld_dword :: "buffer \<Rightarrow> nat \<Rightarrow> DWORD option" where
  "ld_dword b p = do {
     b3 \<leftarrow> ldb b (p + 3);
     let rv = (ucast b3 :: DWORD);
     b2 \<leftarrow> ldb b (p + 2);
     let rv = push_bit 8 rv OR ucast b2;
     b1 \<leftarrow> ldb b (p + 1);
     let rv = push_bit 8 rv OR ucast b1;
     b0 \<leftarrow> ldb b p;
     Some (push_bit 8 rv OR ucast b0)
   }"

definition ld_qword :: "buffer \<Rightarrow> nat \<Rightarrow> QWORD option" where
  "ld_qword b p = do {
     b7 \<leftarrow> ldb b (p + 7);
     let rv = (ucast b7 :: QWORD);
     b6 \<leftarrow> ldb b (p + 6);
     let rv = push_bit 8 rv OR ucast b6;
     b5 \<leftarrow> ldb b (p + 5);
     let rv = push_bit 8 rv OR ucast b5;
     b4 \<leftarrow> ldb b (p + 4);
     let rv = push_bit 8 rv OR ucast b4;
     b3 \<leftarrow> ldb b (p + 3);
     let rv = push_bit 8 rv OR ucast b3;
     b2 \<leftarrow> ldb b (p + 2);
     let rv = push_bit 8 rv OR ucast b2;
     b1 \<leftarrow> ldb b (p + 1);
     let rv = push_bit 8 rv OR ucast b1;
     b0 \<leftarrow> ldb b p;
     Some (push_bit 8 rv OR ucast b0)
   }"

definition st_word :: "buffer \<Rightarrow> nat \<Rightarrow> WORD \<Rightarrow> buffer option" where
  "st_word b p val = do {
     b \<leftarrow> stb b p (ucast val);
     let val = drop_bit 8 val;
     stb b (p + 1) (ucast val)
   }"

definition st_dword :: "buffer \<Rightarrow> nat \<Rightarrow> DWORD \<Rightarrow> buffer option" where
  "st_dword b p val = do {
     b \<leftarrow> stb b p (ucast val);
     let val = drop_bit 8 val;
     b \<leftarrow> stb b (p + 1) (ucast val);
     let val = drop_bit 8 val;
     b \<leftarrow> stb b (p + 2) (ucast val);
     let val = drop_bit 8 val;
     stb b (p + 3) (ucast val)
   }"

definition st_qword :: "buffer \<Rightarrow> nat \<Rightarrow> QWORD \<Rightarrow> buffer option" where
  "st_qword b p val = do {
     b \<leftarrow> stb b p (ucast val);
     let val = drop_bit 8 val;
     b \<leftarrow> stb b (p + 1) (ucast val);
     let val = drop_bit 8 val;
     b \<leftarrow> stb b (p + 2) (ucast val);
     let val = drop_bit 8 val;
     b \<leftarrow> stb b (p + 3) (ucast val);
     let val = drop_bit 8 val;
     b \<leftarrow> stb b (p + 4) (ucast val);
     let val = drop_bit 8 val;
     b \<leftarrow> stb b (p + 5) (ucast val);
     let val = drop_bit 8 val;
     b \<leftarrow> stb b (p + 6) (ucast val);
     let val = drop_bit 8 val;
     stb b (p + 7) (ucast val)
   }"

section \<open>Rules for loads and stores\<close>

lemma ld_word_wp [wp_intros]:
  "p + 1 < length b \<Longrightarrow> (\<And>v. ld_word b p = Some v \<Longrightarrow> Q v) \<Longrightarrow> wp (ld_word b p) Q"
  by (simp add: ld_word_def ldb_def wp_def)

lemma ld_dword_wp [wp_intros]:
  "p + 3 < length b \<Longrightarrow> (\<And>v. ld_dword b p = Some v \<Longrightarrow> Q v) \<Longrightarrow> wp (ld_dword b p) Q"
  by (simp add: ld_dword_def ldb_def wp_def)

lemma st_word_wp [wp_intros]:
  "p + 1 < length b \<Longrightarrow> (\<And>b'. length b' = length b \<Longrightarrow> st_word b p v = Some b' \<Longrightarrow> Q b') \<Longrightarrow>
     wp (st_word b p v) Q"
  by (simp add: st_word_def stb_def wp_def)

lemma st_dword_wp [wp_intros]:
  "p + 3 < length b \<Longrightarrow> (\<And>b'. length b' = length b \<Longrightarrow> st_dword b p v = Some b' \<Longrightarrow> Q b') \<Longrightarrow>
     wp (st_dword b p v) Q"
  by (simp add: st_dword_def stb_def wp_def)

text \<open>The bytes of a stored word, and that a load returns what a store wrote.\<close>

lemma st_word_nth:
  "st_word b p v = Some b' \<Longrightarrow>
     length b' = length b \<and> p + 1 < length b \<and>
     b' = b[p := ucast v, p + 1 := ucast (drop_bit 8 v)]"
  by (auto simp: st_word_def stb_def split: if_splits)

lemma st_dword_nth:
  "st_dword b p v = Some b' \<Longrightarrow>
     length b' = length b \<and> p + 3 < length b \<and>
     b' = b[p := ucast v, p + 1 := ucast (drop_bit 8 v), p + 2 := ucast (drop_bit 16 v),
            p + 3 := ucast (drop_bit 24 v)]"
  by (auto simp: st_dword_def stb_def Let_def split: if_splits)

lemma bytes_word: "push_bit 8 (ucast (ucast (drop_bit 8 v) :: BYTE)) OR ucast (ucast v :: BYTE) = (v :: WORD)"
  by (rule bit_word_eqI) (auto simp: bit_simps)

lemma bytes_dword:
  "((push_bit 24 (ucast (ucast (drop_bit 24 v) :: BYTE))
     OR push_bit 16 (ucast (ucast (drop_bit 16 v) :: BYTE)))
     OR push_bit 8 (ucast (ucast (drop_bit 8 v) :: BYTE)))
     OR ucast (ucast v :: BYTE) = (v :: DWORD)" (is "?l = v")
proof (rule bit_word_eqI)
  fix n assume "n < LENGTH(32)"
  then consider "n < 8" | "8 \<le> n" "n < 16" | "16 \<le> n" "n < 24" | "24 \<le> n" "n < 32"
    by fastforce
  then show "bit ?l n = bit v n"
    by cases (auto simp: bit_simps)
qed

lemma ld_st_word [simp]:
  "st_word b p v = Some b' \<Longrightarrow> ld_word b' p = Some v"
  by (drule st_word_nth) (simp add: ld_word_def ldb_def bytes_word)

lemma ld_st_dword [simp]:
  "st_dword b p v = Some b' \<Longrightarrow> ld_dword b' p = Some v"
  by (drule st_dword_nth) (simp add: ld_dword_def ldb_def bytes_dword)

lemma ld_word_st_word_other:
  "st_word b q v = Some b' \<Longrightarrow> p + 1 < q \<or> q + 1 < p \<Longrightarrow> ld_word b' p = ld_word b p"
  by (drule st_word_nth) (auto simp: ld_word_def ldb_def)

end
