(* ===== verification/FF_Window.thy ===== *)
theory FF_Window
  imports FF_Types
begin

text \<open>
  The disk access window of \<open>ff.c\<close>: \<open>sync_window\<close>, \<open>move_window\<close>, \<open>sync_fs\<close>, and the
  conversion of cluster numbers to sectors, \<open>clst2sect\<close>.
\<close>

section \<open>Operations\<close>

definition sync_window :: "vol \<Rightarrow> (FRESULT \<times> vol) option" where
  "sync_window s =
     (if wflag s \<noteq> 0 then do {
        (r, d) \<leftarrow> disk_write (vdisk s) (win s) (winsect s) 1;
        let s = s\<lparr>vdisk := d\<rparr>;
        if r = RES_OK then do {
          let s = s\<lparr>wflag := 0\<rparr>;
          if winsect s - fatbase s < fsize s \<and> n_fats s = 2 then do {
            (_, d) \<leftarrow> disk_write (vdisk s) (win s) (winsect s + fsize s) 1;
            Some (FR_OK, s\<lparr>vdisk := d\<rparr>)
          } else Some (FR_OK, s)
        } else Some (FR_DISK_ERR, s)
      } else Some (FR_OK, s))"

definition move_window :: "vol \<Rightarrow> LBA_t \<Rightarrow> (FRESULT \<times> vol) option" where
  "move_window s sector =
     (if sector \<noteq> winsect s then do {
        (res, s) \<leftarrow> sync_window s;
        if res = FR_OK then do {
          (r, b) \<leftarrow> disk_read (vdisk s) (win s) sector 1;
          let s = s\<lparr>win := b\<rparr>;
          if r \<noteq> RES_OK then Some (FR_DISK_ERR, s\<lparr>winsect := 0 - 1\<rparr>)
          else Some (FR_OK, s\<lparr>winsect := sector\<rparr>)
        } else Some (res, s)
      } else Some (FR_OK, s))"

definition sync_fs :: "vol \<Rightarrow> (FRESULT \<times> vol) option" where
  "sync_fs s = do {
     (res, s) \<leftarrow> sync_window s;
     if res = FR_OK then do {
       s \<leftarrow> (if fsi_flag s = 1 then do {
               let s = s\<lparr>fsi_flag := 0\<rparr>;
               if fs_type s = FS_FAT32 then do {
                 b \<leftarrow> memset (win s) 0 0 512;
                 b \<leftarrow> st_dword b FSI_LeadSig 0x41615252;
                 b \<leftarrow> st_dword b FSI_StrucSig 0x61417272;
                 b \<leftarrow> st_dword b FSI_Free_Count (free_clst s);
                 b \<leftarrow> st_dword b FSI_Nxt_Free (last_clst s);
                 b \<leftarrow> st_dword b FSI_TrailSig 0xAA550000;
                 let s = s\<lparr>win := b, winsect := volbase s + 1\<rparr>;
                 (_, d) \<leftarrow> disk_write (vdisk s) (win s) (winsect s) 1;
                 Some (s\<lparr>vdisk := d\<rparr>)
               } else Some s
             } else Some s);
       if fst (disk_ioctl CTRL_SYNC) \<noteq> RES_OK then Some (FR_DISK_ERR, s)
       else Some (res, s)
     } else Some (res, s)
   }"

definition clst2sect :: "('a FATFS_scheme) \<Rightarrow> DWORD \<Rightarrow> LBA_t" where
  "clst2sect fs clst =
     (let clst = clst - 2
      in if clst \<ge> n_fatent fs - 2 then 0
         else database fs + ucast (csize fs) * clst)"

section \<open>The window as a cache\<close>

text \<open>The geometry of a volume: the members that only the mount process assigns.\<close>

definition geo :: "'a FATFS_scheme \<Rightarrow>
    (BYTE \<times> BYTE \<times> BYTE \<times> WORD \<times> WORD \<times> WORD) \<times> DWORD \<times> DWORD \<times> LBA_t \<times> LBA_t \<times> LBA_t \<times> LBA_t"
  where
  "geo s = ((fs_type s, pdrv s, n_fats s, fs_id s, n_rootdir s, csize s), n_fatent s, fsize s,
            volbase s, fatbase s, dirbase s, database s)"

text \<open>A clean window over a sector of the device shows that sector.\<close>

definition coh :: "vol \<Rightarrow> bool" where
  "coh s \<longleftrightarrow>
     (wflag s = 0 \<longrightarrow> unat (winsect s) < DISK_SECTORS \<longrightarrow>
      win s = disk_bytes (vdisk s) (unat (winsect s) * 512) 512)"

definition vok :: "vol \<Rightarrow> bool" where
  "vok s \<longleftrightarrow> length (win s) = 512 \<and> coh s"

text \<open>The frame of every operation below the API.\<close>

definition good :: "vol \<Rightarrow> vol \<Rightarrow> bool" where
  "good s s' \<longleftrightarrow> vok s' \<and> geo s' = geo s"

text \<open>The bytes of the volume as the code sees them: the window overlays its sector, and a
  sector beyond the device that is not in the window has no content.\<close>

definition vbyte :: "vol \<Rightarrow> LBA_t \<Rightarrow> nat \<Rightarrow> BYTE" where
  "vbyte s n j = (if n = winsect s then win s ! j
                  else if unat n < DISK_SECTORS then vdisk s (unat n * 512 + j) else 0)"

text \<open>The sectors of the first FAT, and the condition under which the second FAT does not
  wrap around into it.\<close>

definition infat :: "'a FATFS_scheme \<Rightarrow> LBA_t \<Rightarrow> bool" where
  "infat s n \<longleftrightarrow> n - fatbase s < fsize s"

definition mirror_ok :: "'a FATFS_scheme \<Rightarrow> bool" where
  "mirror_ok s \<longleftrightarrow> (n_fats s = 2 \<longrightarrow> fsize s < 0x80000000)"

text \<open>\<open>fkeep s s'\<close>: the first FAT has the same content in both states, except that a sector
  beyond the device may have left the window.\<close>

definition fkeep :: "vol \<Rightarrow> vol \<Rightarrow> bool" where
  "fkeep s s' \<longleftrightarrow>
     (\<forall>n j. infat s n \<longrightarrow> n \<noteq> - 1 \<longrightarrow> j < 512 \<longrightarrow>
        vbyte s' n j = vbyte s n j \<or> DISK_SECTORS \<le> unat n \<and> vbyte s' n j = 0)"

lemma unat_minus_one_32: "unat (- 1 :: 32 word) = 4294967295"
  by (simp add: unsigned_minus_1_eq_mask mask_eq_exp_minus_1)

lemma geo_eq_iff:
  "geo s' = geo s \<longleftrightarrow>
     fs_type s' = fs_type s \<and> pdrv s' = pdrv s \<and> n_fats s' = n_fats s \<and> fs_id s' = fs_id s \<and>
     n_rootdir s' = n_rootdir s \<and> csize s' = csize s \<and> n_fatent s' = n_fatent s \<and>
     fsize s' = fsize s \<and> volbase s' = volbase s \<and> fatbase s' = fatbase s \<and>
     dirbase s' = dirbase s \<and> database s' = database s"
  by (auto simp: geo_def)

lemma good_refl [simp]: "good s s \<longleftrightarrow> vok s"
  by (simp add: good_def)

lemma good_trans: "good s s' \<Longrightarrow> good s' s'' \<Longrightarrow> good s s''"
  by (simp add: good_def)

lemma goodD:
  assumes "good s s'"
  shows "vok s'" "fs_type s' = fs_type s" "n_fats s' = n_fats s" "fs_id s' = fs_id s"
    "n_rootdir s' = n_rootdir s" "csize s' = csize s" "n_fatent s' = n_fatent s"
    "fsize s' = fsize s" "volbase s' = volbase s" "fatbase s' = fatbase s"
    "dirbase s' = dirbase s" "database s' = database s"
  using assms by (simp_all add: good_def geo_eq_iff)

lemma vok_length [simp]: "vok s \<Longrightarrow> length (win s) = 512"
  by (simp add: vok_def)

lemma infat_good: "good s s' \<Longrightarrow> infat s' n = infat s n"
  by (simp add: infat_def goodD)

lemma mirror_ok_good: "good s s' \<Longrightarrow> mirror_ok s' = mirror_ok s"
  by (simp add: mirror_ok_def goodD)

lemma fkeep_refl [simp]: "fkeep s s"
  by (simp add: fkeep_def)

lemma fkeepD:
  "fkeep s s' \<Longrightarrow> infat s n \<Longrightarrow> n \<noteq> - 1 \<Longrightarrow> j < 512 \<Longrightarrow>
     vbyte s' n j = vbyte s n j \<or> DISK_SECTORS \<le> unat n \<and> vbyte s' n j = 0"
  unfolding fkeep_def by blast

lemma fkeep_trans:
  assumes "fkeep s s'" "good s s'" "fkeep s' s''"
  shows "fkeep s s''"
  unfolding fkeep_def
proof (intro allI impI)
  fix n j assume nj: "infat s n" "n \<noteq> - 1" "j < (512::nat)"
  then have "infat s' n" by (simp add: infat_good [OF assms(2)])
  from fkeepD [OF assms(1) nj] fkeepD [OF assms(3) this nj(2,3)]
  show "vbyte s'' n j = vbyte s n j \<or> DISK_SECTORS \<le> unat n \<and> vbyte s'' n j = 0"
    by auto
qed

lemma infat_mirror_neq: "infat s n \<Longrightarrow> n + fsize s \<noteq> n"
  by (auto simp: infat_def)

lemma infat_mirror: 
  assumes "infat s n" "fsize s < 0x80000000"
  shows "\<not> infat s (n + fsize s)"
proof -
  have "unat (n - fatbase s) < unat (fsize s)" "unat (fsize s) < 0x80000000"
    using assms by (simp_all add: infat_def word_less_nat_alt)
  then have "unat (n - fatbase s + fsize s) = unat (n - fatbase s) + unat (fsize s)"
    by (subst unat_add_lem [THEN iffD1]) simp_all
  then show ?thesis
    by (simp add: infat_def word_less_nat_alt algebra_simps)
qed

text \<open>The exact effect of \<open>sync_window\<close>.\<close>

lemma sync_window_eq:
  "length (win s) = 512 \<Longrightarrow> sync_window s = Some
     (if wflag s = 0 then (FR_OK, s)
      else if unat (winsect s) < DISK_SECTORS
      then (FR_OK, s\<lparr>wflag := 0,
              vdisk := (let d = disk_store (vdisk s) (unat (winsect s) * 512) (win s)
                        in if infat s (winsect s) \<and> n_fats s = 2 \<and>
                              unat (winsect s + fsize s) < DISK_SECTORS
                           then disk_store d (unat (winsect s + fsize s) * 512) (win s) else d)\<rparr>)
      else (FR_DISK_ERR, s))"
  by (simp add: sync_window_def disk_write_1 infat_def Let_def)

text \<open>The state after a write-back, its coherence and its view of the FAT.\<close>

definition synced :: "vol \<Rightarrow> vol" where
  "synced s = s\<lparr>wflag := 0,
     vdisk := (let d = disk_store (vdisk s) (unat (winsect s) * 512) (win s)
               in if infat s (winsect s) \<and> n_fats s = 2 \<and>
                     unat (winsect s + fsize s) < DISK_SECTORS
                  then disk_store d (unat (winsect s + fsize s) * 512) (win s) else d)\<rparr>"

lemma synced_good:
  assumes "vok s" shows "good s (synced s)"
  using assms infat_mirror_neq [of s "winsect s"]
  by (simp add: synced_def good_def geo_def vok_def coh_def Let_def word_unat_eq_iff)

lemma synced_fkeep:
  assumes "vok s" "mirror_ok s" shows "fkeep s (synced s)"
  unfolding fkeep_def
proof (intro allI impI disjI1)
  fix n j assume n: "infat s n" "n \<noteq> - 1" and j: "j < (512::nat)"
  have "n \<noteq> winsect s + fsize s" if "infat s (winsect s)" "n_fats s = 2"
    using that n(1) infat_mirror [of s "winsect s"] assms(2) by (auto simp: mirror_ok_def)
  then show "vbyte (synced s) n j = vbyte s n j"
    using j assms(1)
    by (auto simp: synced_def vbyte_def Let_def disk_store_sector word_unat_eq_iff [symmetric])
qed

lemma synced_simps [simp]:
  "win (synced s) = win s" "winsect (synced s) = winsect s" "wflag (synced s) = 0"
  "last_clst (synced s) = last_clst s" "free_clst (synced s) = free_clst s"
  "fsi_flag (synced s) = fsi_flag s"
  by (simp_all add: synced_def)

lemma sync_window_synced:
  "vok s \<Longrightarrow> sync_window s = Some
     (if wflag s = 0 then (FR_OK, s)
      else if unat (winsect s) < DISK_SECTORS then (FR_OK, synced s)
      else (FR_DISK_ERR, s))"
  by (simp add: sync_window_eq synced_def)

lemma sync_window_spec:
  assumes "vok s"
    and "\<And>r s'. \<lbrakk>good s s'; win s' = win s; winsect s' = winsect s; last_clst s' = last_clst s;
            free_clst s' = free_clst s; fsi_flag s' = fsi_flag s;
            r = FR_OK \<and> wflag s' = 0 \<or>
              r = FR_DISK_ERR \<and> s' = s \<and> DISK_SECTORS \<le> unat (winsect s);
            mirror_ok s \<Longrightarrow> fkeep s s'\<rbrakk> \<Longrightarrow> Q (r, s')"
  shows "wp (sync_window s) Q"
  unfolding sync_window_synced [OF assms(1)] using assms(1)
  by (auto intro!: assms(2) synced_good synced_fkeep)

text \<open>Loading another sector into a clean window.\<close>

lemma load_good:
  assumes "vok s" "wflag s = 0" "unat n < DISK_SECTORS"
  shows "good s (s\<lparr>win := disk_bytes (vdisk s) (unat n * 512) 512, winsect := n\<rparr>)"
  using assms by (simp add: good_def vok_def coh_def geo_def)

lemma load_fkeep:
  assumes "vok s" "wflag s = 0" "unat n < DISK_SECTORS"
  shows "fkeep s (s\<lparr>win := disk_bytes (vdisk s) (unat n * 512) 512, winsect := n\<rparr>)"
  using assms by (auto simp: fkeep_def vbyte_def vok_def coh_def)

lemma unload_good:
  assumes "good s s'"
  shows "good s (s'\<lparr>winsect := - 1\<rparr>)"
  using assms by (simp add: good_def vok_def coh_def geo_def unat_minus_one_32)

lemma unload_fkeep:
  assumes "vok s" "wflag s = 0"
  shows "fkeep s (s\<lparr>winsect := - 1\<rparr>)"
  using assms by (auto simp: fkeep_def vbyte_def vok_def coh_def)

lemma move_window_spec:
  assumes "vok s"
    and "\<And>r s'. \<lbrakk>good s s'; last_clst s' = last_clst s; free_clst s' = free_clst s;
            fsi_flag s' = fsi_flag s;
            r = FR_OK \<and> winsect s' = n \<and> (unat n < DISK_SECTORS \<or> s' = s) \<or> r = FR_DISK_ERR;
            mirror_ok s \<Longrightarrow> fkeep s s'\<rbrakk> \<Longrightarrow> Q (r, s')"
  shows "wp (move_window s n) Q"
proof (cases "n = winsect s")
  case False
  have step: "wp (do {
          (r, b) \<leftarrow> disk_read (vdisk s') (win s) n 1;
          let s = s'\<lparr>win := b\<rparr>;
          if r \<noteq> RES_OK then Some (FR_DISK_ERR, s\<lparr>winsect := 0 - 1\<rparr>)
          else Some (FR_OK, s\<lparr>winsect := n\<rparr>)}) Q"
    if s': "good s s'" "wflag s' = 0" "win s' = win s" "last_clst s' = last_clst s" "free_clst s' = free_clst s"
      "fsi_flag s' = fsi_flag s" "mirror_ok s \<Longrightarrow> fkeep s s'" for s'
    using s' goodD(1) [OF s'(1)] vok_length [OF assms(1)] s'(3) [symmetric]
    by (auto simp: disk_read_1 intro!: assms(2) good_trans [OF s'(1) load_good]
          fkeep_trans [OF _ s'(1) load_fkeep] fkeep_trans [OF _ s'(1) unload_fkeep] unload_good)
  show ?thesis
    using False unfolding move_window_def
    by (auto simp: wp_bind intro!: sync_window_spec [OF assms(1)] step [unfolded wp_bind] assms(2))
next
  case True
  then show ?thesis using assms by (simp add: move_window_def)
qed

text \<open>The rules for the callers: what is kept in any case, and the view of the FAT.\<close>

lemma sync_window_wp [wp_intros]:
  assumes "vok s"
    and "\<And>r s'. \<lbrakk>good s s'; win s' = win s; winsect s' = winsect s; last_clst s' = last_clst s;
            free_clst s' = free_clst s; fsi_flag s' = fsi_flag s;
            r = FR_OK \<and> wflag s' = 0 \<or> r = FR_DISK_ERR\<rbrakk>
          \<Longrightarrow> Q (r, s')"
  shows "wp (sync_window s) Q"
  by (rule sync_window_spec [OF assms(1)]) (auto intro!: assms(2))

lemma move_window_wp [wp_intros]:
  assumes "vok s"
    and "\<And>r s'. \<lbrakk>good s s'; last_clst s' = last_clst s; free_clst s' = free_clst s;
            fsi_flag s' = fsi_flag s; r = FR_OK \<longrightarrow> winsect s' = n\<rbrakk> \<Longrightarrow> Q (r, s')"
  shows "wp (move_window s n) Q"
  by (rule move_window_spec [OF assms(1)]) (auto intro!: assms(2))

lemma move_windowD:
  assumes "move_window s n = Some (r, s')" "vok s"
  shows "good s s'" "mirror_ok s \<Longrightarrow> fkeep s s'"
    "r = FR_OK \<Longrightarrow> winsect s' = n" "r = FR_OK \<Longrightarrow> unat n < DISK_SECTORS \<or> s' = s"
    "r = FR_OK \<or> r = FR_DISK_ERR"
proof -
  have "wp (move_window s n) (\<lambda>(r, s'). good s s' \<and> (mirror_ok s \<longrightarrow> fkeep s s') \<and>
          (r = FR_OK \<and> winsect s' = n \<and> (unat n < DISK_SECTORS \<or> s' = s) \<or> r = FR_DISK_ERR))"
    by (rule move_window_spec [OF assms(2)]) auto
  then show "good s s'" "mirror_ok s \<Longrightarrow> fkeep s s'"
    "r = FR_OK \<Longrightarrow> winsect s' = n" "r = FR_OK \<Longrightarrow> unat n < DISK_SECTORS \<or> s' = s"
    "r = FR_OK \<or> r = FR_DISK_ERR"
    using assms(1) by auto
qed

text \<open>Writing into the window makes it dirty and keeps the frame.\<close>

lemma dirty_good:
  "vok s \<Longrightarrow> length b = 512 \<Longrightarrow> good s (s\<lparr>win := b, wflag := 1\<rparr>)"
  by (simp add: good_def vok_def coh_def geo_def)

lemma vok_upd [simp]:
  "length b = 512 \<Longrightarrow> vok (s\<lparr>win := b, wflag := 1\<rparr>)"
  "vok (s\<lparr>free_clst := f\<rparr>) = vok s" "vok (s\<lparr>last_clst := l\<rparr>) = vok s"
  "vok (s\<lparr>fsi_flag := g\<rparr>) = vok s"
  by (simp_all add: vok_def coh_def)

lemmas frame_simps = good_def geo_eq_iff

lemma good_upd [simp]:
  "good s (s'\<lparr>free_clst := f\<rparr>) = good s s'" "good s (s'\<lparr>last_clst := l\<rparr>) = good s s'"
  "good s (s'\<lparr>fsi_flag := g\<rparr>) = good s s'"
  by (simp_all add: good_def vok_def coh_def geo_def)

lemma refill_good:
  assumes "good s s'" "length b = 512" 
    "wflag s' = 0 \<Longrightarrow> unat n < DISK_SECTORS \<Longrightarrow> d = disk_store (vdisk s') (unat n * 512) b"
  shows "good s (s'\<lparr>win := b, winsect := n, vdisk := d\<rparr>)"
  using assms by (auto simp: good_def vok_def coh_def geo_def)

lemma refill_good_out:
  assumes "good s s'" "length b = 512" "DISK_SECTORS \<le> unat n \<or> wflag s' \<noteq> 0"
  shows "good s (s'\<lparr>win := b, winsect := n\<rparr>)"
  using assms by (auto simp: good_def vok_def coh_def geo_def)

lemma sync_fs_wp [wp_intros]:
  assumes "vok s"
    and "\<And>r s'. \<lbrakk>good s s'; last_clst s' = last_clst s; free_clst s' = free_clst s;
            r = FR_OK \<and> wflag s' = 0 \<or> r = FR_DISK_ERR\<rbrakk> \<Longrightarrow> Q (r, s')"
  shows "wp (sync_fs s) Q"
  using assms(1) vok_length [OF assms(1)] unfolding sync_fs_def
  by (auto simp: wp_simps disk_ioctl_def disk_write_1
        intro!: sync_window_wp [OF assms(1)] st_dword_wp assms(2) refill_good refill_good_out)

text \<open>What the window shows after a successful move is what the volume had there.\<close>

lemma win_moved:
  assumes "winsect s' = n" "unat n < DISK_SECTORS \<or> s' = s" "fkeep s s'"
    and "infat s n" "n \<noteq> - 1" "j < 512"
  shows "win s' ! j = vbyte s n j"
  using assms(1,2) fkeepD [OF assms(3-6)] by (auto simp: vbyte_def)

end
