(* ===== verification/FF_Fat.thy ===== *)
theory FF_Fat
  imports FF_Window
begin

text \<open>
  Access to the file allocation table and to the cluster chains kept in it: \<open>get_fat\<close>,
  \<open>put_fat\<close>, \<open>remove_chain\<close> and \<open>create_chain\<close> of \<open>ff.c\<close>.  The argument \<open>obj\<close> of the C
  functions is read only for \<open>obj->fs\<close> in this configuration: the state \<open>s\<close> is that object.
\<close>

section \<open>Operations\<close>

definition get_fat :: "vol \<Rightarrow> DWORD \<Rightarrow> (DWORD \<times> vol) option" where
  "get_fat s clst =
     (if clst < 2 \<or> clst \<ge> n_fatent s then Some (1, s)
      else if fs_type s = FS_FAT12 then do {
        let bc = clst + clst div 2;
        (res, s) \<leftarrow> move_window s (fatbase s + bc div SS);
        if res \<noteq> FR_OK then Some (0xFFFFFFFF, s)
        else do {
          b0 \<leftarrow> ldb (win s) (unat (bc mod SS));
          let wc = (ucast b0 :: UINT);
          let bc = bc + 1;
          (res, s) \<leftarrow> move_window s (fatbase s + bc div SS);
          if res \<noteq> FR_OK then Some (0xFFFFFFFF, s)
          else do {
            b1 \<leftarrow> ldb (win s) (unat (bc mod SS));
            let wc = wc OR push_bit 8 (ucast b1);
            Some (if clst AND 1 \<noteq> 0 then drop_bit 4 wc else wc AND 0xFFF, s)
          }
        }
      }
      else if fs_type s = FS_FAT16 then do {
        (res, s) \<leftarrow> move_window s (fatbase s + clst div (SS div 2));
        if res \<noteq> FR_OK then Some (0xFFFFFFFF, s)
        else do {
          v \<leftarrow> ld_word (win s) (unat (clst * 2 mod SS));
          Some (ucast v, s)
        }
      }
      else if fs_type s = FS_FAT32 then do {
        (res, s) \<leftarrow> move_window s (fatbase s + clst div (SS div 4));
        if res \<noteq> FR_OK then Some (0xFFFFFFFF, s)
        else do {
          v \<leftarrow> ld_dword (win s) (unat (clst * 4 mod SS));
          Some (v AND 0x0FFFFFFF, s)
        }
      }
      else Some (1, s))"

definition put_fat :: "vol \<Rightarrow> DWORD \<Rightarrow> DWORD \<Rightarrow> (FRESULT \<times> vol) option" where
  "put_fat s clst val =
     (if clst \<ge> 2 \<and> clst < n_fatent s then
        if fs_type s = FS_FAT12 then do {
          let bc = clst + clst div 2;
          (res, s) \<leftarrow> move_window s (fatbase s + bc div SS);
          if res \<noteq> FR_OK then Some (res, s)
          else do {
            let p = unat (bc mod SS);
            let bc = bc + 1;
            b \<leftarrow> ldb (win s) p;
            w \<leftarrow> stb (win s) p
                   (if clst AND 1 \<noteq> 0 then (b AND 0x0F) OR push_bit 4 (ucast val) else ucast val);
            let s = s\<lparr>win := w, wflag := 1\<rparr>;
            (res, s) \<leftarrow> move_window s (fatbase s + bc div SS);
            if res \<noteq> FR_OK then Some (res, s)
            else do {
              let p = unat (bc mod SS);
              b \<leftarrow> ldb (win s) p;
              w \<leftarrow> stb (win s) p
                     (if clst AND 1 \<noteq> 0 then ucast (drop_bit 4 val)
                      else (b AND 0xF0) OR (ucast (drop_bit 8 val) AND 0x0F));
              Some (res, s\<lparr>win := w, wflag := 1\<rparr>)
            }
          }
        }
        else if fs_type s = FS_FAT16 then do {
          (res, s) \<leftarrow> move_window s (fatbase s + clst div (SS div 2));
          if res \<noteq> FR_OK then Some (res, s)
          else do {
            w \<leftarrow> st_word (win s) (unat (clst * 2 mod SS)) (ucast val);
            Some (res, s\<lparr>win := w, wflag := 1\<rparr>)
          }
        }
        else if fs_type s = FS_FAT32 then do {
          (res, s) \<leftarrow> move_window s (fatbase s + clst div (SS div 4));
          if res \<noteq> FR_OK then Some (res, s)
          else do {
            old \<leftarrow> ld_dword (win s) (unat (clst * 4 mod SS));
            let val = (val AND 0x0FFFFFFF) OR (old AND 0xF0000000);
            w \<leftarrow> st_dword (win s) (unat (clst * 4 mod SS)) val;
            Some (res, s\<lparr>win := w, wflag := 1\<rparr>)
          }
        }
        else Some (FR_INT_ERR, s)
      else Some (FR_INT_ERR, s))"

text \<open>The \<open>do\<close> loop of \<open>remove_chain\<close>.\<close>

partial_function (option) remove_chain_loop :: "vol \<Rightarrow> DWORD \<Rightarrow> (FRESULT \<times> vol) option" where
  "remove_chain_loop s clst = do {
     (nxt, s) \<leftarrow> get_fat s clst;
     if nxt = 0 then Some (FR_OK, s)
     else if nxt = 1 then Some (FR_INT_ERR, s)
     else if nxt = 0xFFFFFFFF then Some (FR_DISK_ERR, s)
     else do {
       (res, s) \<leftarrow> put_fat s clst 0;
       if res \<noteq> FR_OK then Some (res, s)
       else do {
         let s = (if free_clst s < n_fatent s - 2
                  then s\<lparr>free_clst := free_clst s + 1, fsi_flag := fsi_flag s OR 1\<rparr> else s);
         if nxt < n_fatent s then remove_chain_loop s nxt else Some (FR_OK, s)
       }
     }
   }"

declare remove_chain_loop.simps [code]

definition remove_chain :: "vol \<Rightarrow> DWORD \<Rightarrow> DWORD \<Rightarrow> (FRESULT \<times> vol) option" where
  "remove_chain s clst pclst =
     (if clst < 2 \<or> clst \<ge> n_fatent s then Some (FR_INT_ERR, s)
      else if pclst \<noteq> 0 then do {
        (res, s) \<leftarrow> put_fat s pclst 0xFFFFFFFF;
        if res \<noteq> FR_OK then Some (res, s) else remove_chain_loop s clst
      }
      else remove_chain_loop s clst)"

text \<open>The \<open>for\<close> loop of \<open>create_chain\<close>: \<open>Inl v\<close> when the function returns \<open>v\<close> from inside the
  loop, \<open>Inr ncl\<close> when the loop ends with a free cluster.\<close>

partial_function (option) find_free_loop ::
    "vol \<Rightarrow> DWORD \<Rightarrow> DWORD \<Rightarrow> ((DWORD + DWORD) \<times> vol) option" where
  "find_free_loop s scl ncl = do {
     let ncl = ncl + 1;
     let wrapped = (ncl \<ge> n_fatent s);
     let ncl = (if wrapped then 2 else ncl);
     if wrapped \<and> ncl > scl then Some (Inl 0, s)
     else do {
       (cs, s) \<leftarrow> get_fat s ncl;
       if cs = 0 then Some (Inr ncl, s)
       else if cs = 1 \<or> cs = 0xFFFFFFFF then Some (Inl cs, s)
       else if ncl = scl then Some (Inl 0, s)
       else find_free_loop s scl ncl
     }
   }"

declare find_free_loop.simps [code]

text \<open>The search for a new cluster on the FAT volume (the block after \<open>#if FF_FS_EXFAT\<close>).\<close>

definition create_chain_find :: "vol \<Rightarrow> DWORD \<Rightarrow> DWORD \<Rightarrow> ((DWORD + DWORD) \<times> vol) option" where
  "create_chain_find s clst scl =
     (if scl = clst then do {
        let ncl = scl + 1;
        let ncl = (if ncl \<ge> n_fatent s then 2 else ncl);
        (cs, s) \<leftarrow> get_fat s ncl;
        if cs = 1 \<or> cs = 0xFFFFFFFF then Some (Inl cs, s)
        else if cs \<noteq> 0 then do {
          let cs = last_clst s;
          let scl = (if cs \<ge> 2 \<and> cs < n_fatent s then cs else scl);
          find_free_loop s scl scl
        }
        else if ncl = 0 then find_free_loop s scl scl
        else Some (Inr ncl, s)
      }
      else find_free_loop s scl scl)"

text \<open>The part of \<open>create_chain\<close> after the start cluster of the search is known.\<close>

definition create_chain_link :: "vol \<Rightarrow> DWORD \<Rightarrow> DWORD \<Rightarrow> (DWORD \<times> vol) option" where
  "create_chain_link s clst ncl = do {
     (res, s) \<leftarrow> put_fat s ncl 0xFFFFFFFF;
     (res, s) \<leftarrow> (if res = FR_OK \<and> clst \<noteq> 0 then put_fat s clst ncl else Some (res, s));
     if res = FR_OK then do {
       let s = s\<lparr>last_clst := ncl\<rparr>;
       let s = (if free_clst s > 0 \<and> free_clst s \<le> n_fatent s - 2
                then s\<lparr>free_clst := free_clst s - 1, fsi_flag := fsi_flag s OR 1\<rparr> else s);
       Some (ncl, s)
     }
     else Some (if res = FR_DISK_ERR then 0xFFFFFFFF else 1, s)
   }"

definition create_chain_from :: "vol \<Rightarrow> DWORD \<Rightarrow> DWORD \<Rightarrow> (DWORD \<times> vol) option" where
  "create_chain_from s clst scl =
     (if free_clst s = 0 then Some (0, s)
      else do {
        (r, s) \<leftarrow> create_chain_find s clst scl;
        case r of Inl v \<Rightarrow> Some (v, s) | Inr ncl \<Rightarrow> create_chain_link s clst ncl
      })"

definition create_chain :: "vol \<Rightarrow> DWORD \<Rightarrow> (DWORD \<times> vol) option" where
  "create_chain s clst =
     (if clst = 0 then
        let scl = last_clst s;
            scl = (if scl = 0 \<or> scl \<ge> n_fatent s then 1 else scl)
        in create_chain_from s clst scl
      else do {
        (cs, s) \<leftarrow> get_fat s clst;
        if cs < 2 then Some (1, s)
        else if cs = 0xFFFFFFFF then Some (cs, s)
        else if cs < n_fatent s then Some (cs, s)
        else create_chain_from s clst clst
      })"

section \<open>Rules\<close>

lemma unat_mod_SS: "unat (i mod (512::32 word)) = unat i mod 512"
  by (simp add: unat_mod)

lemma unat_mod_SS_less [simp]: "unat (i mod (512::32 word)) < 512"
  by (simp add: unat_mod)

lemma unat_mult_mod_SS:
  "unat (c * 2 mod (512::32 word)) = 2 * (unat c mod 256)"
  "unat (c * 4 mod (512::32 word)) = 4 * (unat c mod 128)"
proof -
  have "unat (c * 2 mod 512) = 2 * unat c mod 512" "unat (c * 4 mod 512) = 4 * unat c mod 512"
    by (simp_all add: unat_mod unat_word_ariths mod_mod_cancel mult.commute)
  then show "unat (c * 2 mod (512::32 word)) = 2 * (unat c mod 256)"
    "unat (c * 4 mod (512::32 word)) = 4 * (unat c mod 128)"
    using mult_mod_right [of 2 "unat c" 256] mult_mod_right [of 4 "unat c" 128] by simp_all
qed

lemma fat_offset_less [simp]:
  "unat (c * 2 mod (512::32 word)) < 511" "unat (c * 4 mod (512::32 word)) < 509"
  "unat (c * 4 mod (512::32 word)) < 510" "unat (c * 4 mod (512::32 word)) < 511"
  by (simp_all add: unat_mult_mod_SS)

lemma get_fat_wp [wp_intros]:
  assumes "vok s"
    and Q: "\<And>v s'. \<lbrakk>good s s'; last_clst s' = last_clst s; free_clst s' = free_clst s;
            fsi_flag s' = fsi_flag s; v \<noteq> 1 \<longrightarrow> 2 \<le> c \<and> c < n_fatent s\<rbrakk> \<Longrightarrow> Q (v, s')"
  shows "wp (get_fat s c) Q"
  unfolding get_fat_def using assms(1)
  by (auto simp: wp_simps frame_simps not_less not_le intro!: move_window_wp ld_word_wp ld_dword_wp Q)

lemma put_fat_wp [wp_intros]:
  assumes "vok s"
    and Q: "\<And>r s'. \<lbrakk>good s s'; last_clst s' = last_clst s; free_clst s' = free_clst s;
            fsi_flag s' = fsi_flag s\<rbrakk> \<Longrightarrow> Q (r, s')"
  shows "wp (put_fat s c v) Q"
  unfolding put_fat_def using assms(1)
  by (auto simp: wp_simps frame_simps not_less not_le
       intro!: move_window_wp ld_word_wp ld_dword_wp st_word_wp st_dword_wp Q)

text \<open>How many clusters the search has before it comes back to its start.\<close>

definition search_left :: "nat \<Rightarrow> nat \<Rightarrow> nat \<Rightarrow> nat" where
  "search_left n start m = (if start \<le> m then n - m + start else start - m)"

text \<open>The results of the search: full, an error, or a cluster of the volume.\<close>

fun search_ok :: "DWORD \<Rightarrow> DWORD + DWORD \<Rightarrow> bool" where
  "search_ok n (Inl v) = (v = 0 \<or> v = 1 \<or> v = 0xFFFFFFFF)"
| "search_ok n (Inr c) = (2 \<le> c \<and> c < n)"

lemma word_2_le_1 [simp]: "\<not> (2::DWORD) \<le> 1"
  by (simp add: word_le_nat_alt)

lemma clst_ge_1: "2 \<le> (c::DWORD) \<Longrightarrow> 1 \<le> c" "3 \<le> (c::DWORD) \<Longrightarrow> 1 < c" "3 \<le> (c::DWORD) \<Longrightarrow> 2 < c"
    "0 \<noteq> c \<Longrightarrow> 1 \<le> (c::DWORD)"
  by (auto simp: word_le_nat_alt word_less_nat_alt unat_gt_0 Suc_le_eq)

text \<open>The frame of an operation that changes only the window and the device.\<close>

definition good_win :: "vol \<Rightarrow> vol \<Rightarrow> bool" where
  "good_win s s' \<longleftrightarrow> good s s' \<and> last_clst s' = last_clst s \<and> free_clst s' = free_clst s \<and>
     fsi_flag s' = fsi_flag s"

lemma good_win_trans: "good_win s s' \<Longrightarrow> good_win s' s'' \<Longrightarrow> good_win s s''"
  by (simp add: good_win_def good_def)

lemma unat_Suc_less: 
  assumes "ncl < (n::DWORD)" shows "unat (ncl + 1) = unat ncl + 1"
proof -
  have "Suc (unat ncl) < 4294967296"
    using assms unat_32_less [of n] unfolding word_less_nat_alt by linarith
  then show ?thesis by (simp add: unat_word_ariths)
qed

lemma search_left_next:
  assumes "ncl < n" "scl < n" "n' = (if ncl + 1 \<ge> n then 2 else ncl + 1)" "n' \<noteq> scl"
    "ncl + 1 \<ge> n \<longrightarrow> 2 \<le> scl"
  shows "search_left (unat (n::DWORD)) (unat scl) (unat n') < search_left (unat n) (unat scl) (unat ncl)"
  using assms by (auto simp: search_left_def word_less_nat_alt word_le_nat_alt unat_Suc_less [OF assms(1)] word_unat_eq_iff)

lemma find_free_loop_wp:
  assumes "good_win s0 s" "1 \<le> scl" "scl < n_fatent s" "ncl < n_fatent s" "3 \<le> n_fatent s"
  shows "wp (find_free_loop s scl ncl) (\<lambda>(r, s'). good_win s0 s' \<and>
           search_ok (n_fatent s0) r)"
  using assms
proof (induction "search_left (unat (n_fatent s)) (unat scl) (unat ncl)" arbitrary: s ncl
       rule: less_induct)
  case less
  define n' where "n' = (if ncl + 1 \<ge> n_fatent s then 2 else ncl + 1)"
  have ok: "vok s" and n: "n_fatent s = n_fatent s0"
    using less.prems(1) by (simp_all add: good_win_def frame_simps)
  have n': "n' < n_fatent s" using less.prems(5) by (auto simp: n'_def word_less_nat_alt word_le_nat_alt)
  have IH: "wp (find_free_loop s' scl n') (\<lambda>(r, s'). good_win s0 s' \<and>
           search_ok (n_fatent s0) r)"
    if "good_win s s'" "n' \<noteq> scl" "ncl + 1 \<ge> n_fatent s \<longrightarrow> 2 \<le> scl" for s'
  proof (rule less.hyps)
    have e: "n_fatent s' = n_fatent s" using that(1) by (simp add: good_win_def frame_simps)
    show "search_left (unat (n_fatent s')) (unat scl) (unat n') < search_left (unat (n_fatent s)) (unat scl) (unat ncl)"
      unfolding e by (rule search_left_next [OF less.prems(4,3) n'_def that(2,3)])
    show "good_win s0 s'" by (rule good_win_trans [OF less.prems(1) that(1)])
  qed (use less.prems n' that(1) in \<open>simp_all add: good_win_def frame_simps\<close>)
  have gw: "good_win s0 s'" if "good_win s s'" for s'
    using less.prems(1) that by (rule good_win_trans)
  show ?case
    using less.prems n' n ok
    by (subst find_free_loop.simps, unfold Let_def n'_def [symmetric])
      (auto simp: wp_simps not_le not_less good_win_def [of s] intro!: get_fat_wp IH gw)
qed

lemma find_free_wp:
  assumes "vok s" "1 \<le> scl" "scl < n_fatent s" "3 \<le> n_fatent s"
    and Q: "\<And>r s'. \<lbrakk>good_win s s'; search_ok (n_fatent s) r\<rbrakk> \<Longrightarrow> Q (r, s')"
  shows "wp (find_free_loop s scl scl) Q"
proof -
  have "good_win s s" using assms(1) by (simp add: good_win_def)
  from find_free_loop_wp [OF this assms(2,3,3,4)] show ?thesis
    by (rule wp_mono) (auto intro!: Q)
qed

lemma create_chain_find_wp:
  assumes "vok s" "1 \<le> scl" "scl < n_fatent s" "3 \<le> n_fatent s"
    and Q: "\<And>r s'. \<lbrakk>good_win s s'; search_ok (n_fatent s) r\<rbrakk> \<Longrightarrow> Q (r, s')"
  shows "wp (create_chain_find s clst scl) Q"
  unfolding create_chain_find_def using assms(1-4)
  by (auto simp: wp_simps Let_def frame_simps good_win_def not_le not_less clst_ge_1
       intro!: get_fat_wp find_free_wp Q)

lemma create_chain_link_wp:
  assumes "vok s" "2 \<le> n" "n < n_fatent s"
    and Q: "\<And>v s'. good s s' \<Longrightarrow> v = 1 \<or> v = 0xFFFFFFFF \<or> 2 \<le> v \<and> v < n_fatent s \<Longrightarrow> Q (v, s')"
  shows "wp (create_chain_link s clst n) Q"
  unfolding create_chain_link_def using assms(1-3)
  by (auto simp: wp_simps Let_def frame_simps intro!: put_fat_wp Q)

lemma create_chain_wp [wp_intros]:
  assumes "vok s" "3 \<le> n_fatent s"
    and Q: "\<And>v s'. good s s' \<Longrightarrow> v = 0 \<or> v = 1 \<or> v = 0xFFFFFFFF \<or> 2 \<le> v \<and> v < n_fatent s \<Longrightarrow> Q (v, s')"
  shows "wp (create_chain s clst) Q"
proof -
  have fr: "wp (create_chain_from s' clst scl) Q"
    if "vok s'" "geo s' = geo s" "1 \<le> scl" "scl < n_fatent s" for s' scl clst
    unfolding create_chain_from_def using assms(2) that
    by (auto simp: wp_simps frame_simps good_win_def split: sum.split
         intro!: create_chain_find_wp create_chain_link_wp Q)
  show ?thesis
    unfolding create_chain_def using assms(1,2)
    by (auto simp: wp_simps Let_def frame_simps not_le not_less clst_ge_1 intro!: get_fat_wp fr Q)
qed
end

