(* ===== verification/FF_FatTable.thy ===== *)
theory FF_FatTable
  imports FF_Fat
begin

text \<open>
  The file allocation table as data: what \<open>get_fat\<close> and \<open>put_fat\<close> do to the entries, for the
  packed 12-bit, the 16-bit and the 28-bit format.
\<close>

section \<open>Entries and bytes\<close>

text \<open>The entry of cluster \<open>c\<close> in a table whose byte \<open>i\<close> is \<open>f i\<close>, and the byte \<open>i\<close> of a
  table after the entry of \<open>c\<close> is set to \<open>v\<close>.\<close>

definition entry_of :: "BYTE \<Rightarrow> (DWORD \<Rightarrow> BYTE) \<Rightarrow> DWORD \<Rightarrow> DWORD" where
  "entry_of ty f c =
     (if ty = FS_FAT12 then
        let bc = c + c div 2;
            w = ucast (f bc) OR push_bit 8 (ucast (f (bc + 1)))
        in if c AND 1 \<noteq> 0 then drop_bit 4 w else w AND 0xFFF
      else if ty = FS_FAT16 then
        push_bit 8 (ucast (f (c * 2 + 1))) OR ucast (f (c * 2))
      else
        (push_bit 24 (ucast (f (c * 4 + 3))) OR push_bit 16 (ucast (f (c * 4 + 2)))
         OR push_bit 8 (ucast (f (c * 4 + 1))) OR ucast (f (c * 4)))
        AND 0x0FFFFFFF)"

definition put_byte :: "BYTE \<Rightarrow> DWORD \<Rightarrow> DWORD \<Rightarrow> DWORD \<Rightarrow> BYTE \<Rightarrow> BYTE" where
  "put_byte ty c v i b =
     (if ty = FS_FAT12 then
        let bc = c + c div 2
        in if i = bc then if c AND 1 \<noteq> 0 then (b AND 0x0F) OR push_bit 4 (ucast v) else ucast v
           else if i = bc + 1 then
             if c AND 1 \<noteq> 0 then ucast (drop_bit 4 v)
             else (b AND 0xF0) OR (ucast (drop_bit 8 v) AND 0x0F)
           else b
      else if ty = FS_FAT16 then
        if i = c * 2 then ucast v else if i = c * 2 + 1 then ucast (drop_bit 8 v) else b
      else
        if i = c * 4 then ucast v
        else if i = c * 4 + 1 then ucast (drop_bit 8 v)
        else if i = c * 4 + 2 then ucast (drop_bit 16 v)
        else if i = c * 4 + 3 then (ucast (drop_bit 24 v) AND 0x0F) OR (b AND 0xF0)
        else b)"

definition entry_mask :: "BYTE \<Rightarrow> DWORD" where
  "entry_mask ty = (if ty = FS_FAT12 then 0xFFF else if ty = FS_FAT16 then 0xFFFF else 0x0FFFFFFF)"

definition entry_lim :: "BYTE \<Rightarrow> nat" where
  "entry_lim ty = (if ty = FS_FAT12 then 0x1000 else 0x10000000)"

lemma nibble_masks:
  "(0xF::BYTE) = mask 4" "(0xF0::BYTE) = push_bit 4 (mask 4)" "(0xFFF::DWORD) = mask 12"
  "(0xFFFF::DWORD) = mask 16" "(0x0FFFFFFF::DWORD) = mask 28"
  by (simp_all add: mask_eq_exp_minus_1)

lemma odd12_put:
  "drop_bit 4 (ucast ((b AND 0x0F) OR push_bit 4 (ucast v) :: BYTE) OR push_bit 8 (ucast (ucast (drop_bit 4 v) :: BYTE)))
     = (v AND 0xFFF :: DWORD)"
  unfolding nibble_masks by (rule bit_word_eqI) (auto simp: bit_simps)
lemma even12_put:
  "(ucast (ucast v :: BYTE) OR push_bit 8 (ucast ((b AND 0xF0) OR (ucast (drop_bit 8 v) AND 0x0F) :: BYTE))) AND 0xFFF
     = (v AND 0xFFF :: DWORD)"
  unfolding nibble_masks by (rule bit_word_eqI) (auto simp: bit_simps)
lemma even12_other:
  "(ucast b0 OR push_bit 8 (ucast ((b1 AND 0x0F) OR push_bit 4 x :: BYTE))) AND 0xFFF
     = ((ucast (b0 :: BYTE) OR push_bit 8 (ucast b1)) AND 0xFFF :: DWORD)"
  unfolding nibble_masks by (rule bit_word_eqI) (auto simp: bit_simps)
lemma odd12_other:
  "drop_bit 4 (ucast ((b0 AND 0xF0) OR (x AND 0x0F)) OR push_bit 8 (ucast b1))
     = (drop_bit 4 (ucast (b0 :: BYTE) OR push_bit 8 (ucast (b1 :: BYTE))) :: DWORD)"
  unfolding nibble_masks by (rule bit_word_eqI) (auto simp: bit_simps dest: bit_imp_le_length)
lemma put16: 
  "push_bit 8 (ucast (ucast (drop_bit 8 v) :: BYTE)) OR ucast (ucast v :: BYTE) = (v AND 0xFFFF :: DWORD)"
  unfolding nibble_masks by (rule bit_word_eqI) (auto simp: bit_simps)
lemma put32:
  "(push_bit 24 (ucast ((ucast (drop_bit 24 v) AND 0x0F) OR (b AND 0xF0) :: BYTE)) OR push_bit 16 (ucast (ucast (drop_bit 16 v) :: BYTE))
         OR push_bit 8 (ucast (ucast (drop_bit 8 v) :: BYTE)) OR ucast (ucast v :: BYTE)) AND 0x0FFFFFFF
   = (v AND 0x0FFFFFFF :: DWORD)" (is "?l = ?r")
  unfolding nibble_masks
proof (rule bit_word_eqI, goal_cases)
  case (1 n)
  then consider "n < 8" | "8 \<le> n" "n < 16" | "16 \<le> n" "n < 24" | "24 \<le> n" "n < 32"
    by fastforce
  then show ?case by cases (auto simp: bit_simps)
qed

lemma fat12_unat:
  assumes "unat c < 0x1000"
  shows "unat (c + c div 2 :: DWORD) = unat c + unat c div 2"
    "unat (c + c div 2 + 1 :: DWORD) = unat c + unat c div 2 + 1"
  using assms by (simp_all add: unat_word_ariths unat_div)

lemma bc_inj:
  assumes "unat c < 0x1000" "unat c' < 0x1000"
  shows "c + c div 2 = c' + c' div 2 \<longleftrightarrow> c = (c' :: DWORD)"
    "c + c div 2 + 1 = c' + c' div 2 \<longleftrightarrow> even (unat c) \<and> c' = c + 1"
proof -
  have inj: "m + m div 2 = n + n div 2 \<longleftrightarrow> m = n" for m n :: nat
    by (metis add_le_cancel_right add_less_le_mono div_le_mono less_irrefl linorder_less_linear order_less_imp_le)
  have nxt: "m + m div 2 + 1 = n + n div 2 \<longleftrightarrow> even m \<and> n = m + 1" for m n :: nat
  proof (cases "even m")
    case True
    then have "m + m div 2 + 1 = (m + 1) + (m + 1) div 2" by simp
    then show ?thesis using inj [of "m + 1" n] True by auto
  next
    case False
    then obtain p where p: "m = 2 * p + 1" by (elim oddE)
    have "n + n div 2 \<noteq> 3 * p + 2"
    proof (cases "n \<le> 2 * p + 1")
      case True
      then have "n div 2 \<le> p" by simp
      with True show ?thesis by simp
    next
      case False
      then have "p + 1 \<le> n div 2" by simp
      with False show ?thesis by simp
    qed
    then show ?thesis using False p by simp
  qed
  show "c + c div 2 = c' + c' div 2 \<longleftrightarrow> c = c'"
    unfolding word_unat_eq_iff fat12_unat(1) [OF assms(1)] fat12_unat(1) [OF assms(2)] by (rule inj)
  have "unat (c + 1) = unat c + 1" using assms(1) by (simp add: unat_word_ariths)
  then show "c + c div 2 + 1 = c' + c' div 2 \<longleftrightarrow> even (unat c) \<and> c' = c + 1"
    unfolding word_unat_eq_iff fat12_unat(2) [OF assms(1)] fat12_unat(1) [OF assms(2)] nxt by simp
qed


lemma unat_mult_small:
  "unat (c :: DWORD) * unat k < 2 ^ 32 \<Longrightarrow> unat (c * k) = unat k * unat c"
  by (simp add: unat_word_ariths mult.commute)

lemma entry_put_same: "entry_of ty (\<lambda>i. put_byte ty c v i (f i)) c = v AND entry_mask ty"
proof (cases "ty = FS_FAT12 \<or> ty = FS_FAT16")
  case True
  then show ?thesis
    by (auto simp: entry_of_def put_byte_def entry_mask_def Let_def odd12_put even12_put put16
        simp del: drop_bit_or)
next
  case False
  then show ?thesis by (simp add: entry_of_def put_byte_def entry_mask_def put32)
qed

lemma and_1_odd: "c AND 1 = (0::DWORD) \<longleftrightarrow> even (unat c)"
proof -
  have "even c \<longleftrightarrow> even (of_nat (unat c) :: DWORD)" by simp
  also have "\<dots> \<longleftrightarrow> even (unat c)" by (rule even_of_nat)
  finally show ?thesis by (simp add: and_one_eq mod_2_eq_odd)
qed

lemma entry_put_other12:
  assumes "unat c < 0x1000" "unat c' < 0x1000" "c \<noteq> c'"
  shows "entry_of FS_FAT12 (\<lambda>i. put_byte FS_FAT12 c v i (f i)) c' = entry_of FS_FAT12 f c'"
proof -
  have e: "c + c div 2 \<noteq> c' + c' div 2" "c' + c' div 2 \<noteq> c + c div 2"
    using bc_inj(1) [OF assms(1,2)] assms(3) by auto
  have "c' = c + 1 \<Longrightarrow> even (unat c) \<Longrightarrow> odd (unat c')" "c = c' + 1 \<Longrightarrow> even (unat c') \<Longrightarrow> odd (unat c)"
    using assms(1,2) by (simp_all add: unat_word_ariths)
  then show ?thesis
    using e bc_inj(2) [OF assms(1,2)] bc_inj(2) [OF assms(2,1)]
    by (auto simp: entry_of_def put_byte_def Let_def and_1_odd odd12_other even12_other simp del: drop_bit_or)
qed

lemma mult_byte_neq:
  assumes "unat c < 0x10000000" "unat c' < 0x10000000" "c \<noteq> c'"
  shows "j < 2 \<Longrightarrow> k < 2 \<Longrightarrow> c' * 2 + of_nat j \<noteq> c * 2 + (of_nat k :: DWORD)"
    "j < 4 \<Longrightarrow> k < 4 \<Longrightarrow> c' * 4 + of_nat j \<noteq> c * 4 + (of_nat k :: DWORD)"
proof -
  have n: "unat c \<noteq> unat c'" using assms(3) by (simp add: word_unat_eq_iff)
  have u: "unat (x * 2 + of_nat j) = 2 * unat x + j" if "unat x < 0x10000000" "j < 2" for x :: DWORD and j
    using that by (simp add: unat_word_ariths unat_of_nat)
  have v: "unat (x * 4 + of_nat j) = 4 * unat x + j" if "unat x < 0x10000000" "j < 4" for x :: DWORD and j
    using that by (simp add: unat_word_ariths unat_of_nat)
  show "j < 2 \<Longrightarrow> k < 2 \<Longrightarrow> c' * 2 + of_nat j \<noteq> c * 2 + (of_nat k :: DWORD)"
    using n u [OF assms(1), of k] u [OF assms(2), of j] by (auto simp: word_unat_eq_iff)
  show "j < 4 \<Longrightarrow> k < 4 \<Longrightarrow> c' * 4 + of_nat j \<noteq> c * 4 + (of_nat k :: DWORD)"
    using n v [OF assms(1), of k] v [OF assms(2), of j] by (auto simp: word_unat_eq_iff)
qed

lemma put_byte_other:
  assumes "unat c < 0x10000000" "unat c' < 0x10000000" "c \<noteq> c'"
  shows "j < 2 \<Longrightarrow> put_byte FS_FAT16 c v (c' * 2 + of_nat j) b = b"
    "ty \<noteq> FS_FAT12 \<Longrightarrow> ty \<noteq> FS_FAT16 \<Longrightarrow> j < 4 \<Longrightarrow> put_byte ty c v (c' * 4 + of_nat j) b = b"
  using mult_byte_neq(1) [OF assms, of j 0] mult_byte_neq(1) [OF assms, of j 1]
    mult_byte_neq(2) [OF assms, of j 0] mult_byte_neq(2) [OF assms, of j 1]
    mult_byte_neq(2) [OF assms, of j 2] mult_byte_neq(2) [OF assms, of j 3]
  by (simp_all add: put_byte_def)

lemma entry_put_other:
  assumes "unat c < entry_lim ty" "unat c' < entry_lim ty" "c \<noteq> c'"
  shows "entry_of ty (\<lambda>i. put_byte ty c v i (f i)) c' = entry_of ty f c'"
proof (cases "ty = FS_FAT12")
  case True
  then show ?thesis using entry_put_other12 assms by (simp add: entry_lim_def)
next
  case False
  then have b: "unat c < 0x10000000" "unat c' < 0x10000000" using assms by (simp_all add: entry_lim_def)
  note p = put_byte_other [OF b assms(3)]
  show ?thesis
    using False p(1) [of 0] p(1) [of 1] p(2) [of ty 0] p(2) [of ty 1] p(2) [of ty 2] p(2) [of ty 3]
    by (simp add: entry_of_def)
qed

text \<open>An entry that is free stays free when bytes of the table are cleared.\<close>

lemma entry_of_cleared:
  assumes "\<And>i. g i = f i \<or> g i = 0" "entry_of ty f c = 0"
  shows "entry_of ty g c = 0"
proof (rule bit_word_eqI)
  fix n assume "n < LENGTH(32)"
  have m: "bit (g i) k \<Longrightarrow> bit (f i) k" for i k using assms(1) [of i] by auto
  have "bit (entry_of ty g c) n \<Longrightarrow> bit (entry_of ty f c) n"
    using m by (auto simp: entry_of_def Let_def nibble_masks bit_simps split: if_splits)
  then show "bit (entry_of ty g c) n = bit (0::DWORD) n" using assms(2) by auto
qed
section \<open>The table\<close>

text \<open>The table entry of a cluster, as a function of the bytes of the volume.\<close>

definition fat_byte :: "vol \<Rightarrow> DWORD \<Rightarrow> BYTE" where
  "fat_byte s i = vbyte s (fatbase s + i div SS) (unat (i mod SS))"

definition fat_entry :: "vol \<Rightarrow> DWORD \<Rightarrow> DWORD" where
  "fat_entry s c = entry_of (fs_type s) (fat_byte s) c"

text \<open>The geometry of a mounted volume: the sub-type has its number of clusters, and the first
  FAT holds all the entries.\<close>

definition gok :: "'a FATFS_scheme \<Rightarrow> bool" where
  "gok s \<longleftrightarrow>
     csize s \<noteq> 0 \<and> 3 \<le> unat (n_fatent s) \<and> unat (fatbase s) < 0x20000 \<and>
     (fs_type s = FS_FAT12 \<and> unat (n_fatent s) \<le> 0xFF7 \<and>
        (3 * unat (n_fatent s)) div 2 + unat (n_fatent s) mod 2 \<le> 512 * unat (fsize s) \<or>
      fs_type s = FS_FAT16 \<and> unat (n_fatent s) \<le> 0xFFF7 \<and>
        2 * unat (n_fatent s) \<le> 512 * unat (fsize s) \<or>
      fs_type s = FS_FAT32 \<and> unat (n_fatent s) \<le> 0x0FFFFFF7 \<and>
        4 * unat (n_fatent s) \<le> 512 * unat (fsize s))"

lemma gok_good: "good s s' \<Longrightarrow> gok s' = gok s"
  by (simp add: gok_def goodD)

text \<open>A byte of the table is in a sector of the first FAT.\<close>

lemma fat_byte_sect:
  assumes "gok s" "unat i < 512 * unat (fsize s)" "unat i < 0x40000000"
  shows "infat s (fatbase s + i div 512)" "fatbase s + i div 512 \<noteq> - 1"
proof -
  have u: "unat (i div 512) = unat i div 512" by (simp add: unat_div)
  then show "infat s (fatbase s + i div 512)"
    using assms(2) by (simp add: infat_def word_less_nat_alt)
  have "unat (fatbase s + i div 512) = unat (fatbase s) + unat i div 512"
    using assms(1,3) by (subst unat_add_lem [THEN iffD1]) (auto simp: u gok_def)
  then have "unat (fatbase s + i div 512) < 0x400000"
    using assms(1,3) by (auto simp: gok_def)
  then show "fatbase s + i div 512 \<noteq> - 1"
    by (auto simp: unat_minus_one_32)
qed

text \<open>Bytes of one sector.\<close>

lemma div_near:
  assumes "a mod 512 + k < (512::nat)"
  shows "(a + k) div 512 = a div 512" "(a + k) mod 512 = a mod 512 + k"
proof -
  have "a + k = 512 * (a div 512) + (a mod 512 + k)" by simp
  then show "(a + k) div 512 = a div 512" "(a + k) mod 512 = a mod 512 + k"
    using assms by (metis add.right_neutral div_less div_mult_self4 zero_neq_numeral,
        metis mod_less mod_mult_self4)
qed

lemma fat12_last: "m < n \<Longrightarrow> m + m div 2 + 1 < (3 * n) div 2 + n mod (2::nat)"
proof (cases "even n")
  case True
  then obtain q where "n = 2 * q" by (elim evenE)
  moreover assume "m < n"
  ultimately have "m div 2 < q" "m < 2 * q" by simp_all
  then show ?thesis using \<open>n = 2 * q\<close> by simp
next
  case False
  then obtain q where "n = 2 * q + 1" by (elim oddE)
  moreover assume "m < n"
  ultimately have "m div 2 \<le> q" "m \<le> 2 * q" by simp_all
  then show ?thesis using \<open>n = 2 * q + 1\<close> by simp
qed

text \<open>The byte that the window shows after two successful moves.\<close>

lemma win_moved2:
  assumes "winsect s1 = n1" "unat n1 < DISK_SECTORS \<or> s1 = s" "fkeep s s1" "good s s1"
    and "winsect s2 = n2" "unat n2 < DISK_SECTORS \<or> s2 = s1" "fkeep s1 s2"
    and "infat s n2" "n2 \<noteq> - 1" "j < 512"
  shows "win s2 ! j = vbyte s n2 j"
proof -
  have "infat s1 n2" using assms(4,8) by (simp add: infat_good)
  then have "win s2 ! j = vbyte s1 n2 j" by (intro win_moved assms)
  also have "\<dots> = vbyte s n2 j"
    using fkeepD [OF assms(3,8-10)] assms(1,2,5,6) by auto
  finally show ?thesis .
qed

definition fat_value :: "vol \<Rightarrow> DWORD \<Rightarrow> DWORD" where
  "fat_value s c = (if c < 2 \<or> c \<ge> n_fatent s then 1 else fat_entry s c)"



section \<open>Reading and writing an entry\<close>

text \<open>The bytes that belong to the table.\<close>

definition tab :: "'a FATFS_scheme \<Rightarrow> DWORD \<Rightarrow> bool" where
  "tab s i \<longleftrightarrow> unat i < 512 * unat (fsize s) \<and> unat i < 0x40000000"

definition fat_sect :: "'a FATFS_scheme \<Rightarrow> DWORD \<Rightarrow> LBA_t" where
  "fat_sect s i = fatbase s + i div 512"

lemma tab12:
  assumes "gok s" "fs_type s = FS_FAT12" "c < n_fatent s"
  shows "tab s (c + c div 2)" "tab s (c + c div 2 + 1)"
proof -
  have c: "unat c < unat (n_fatent s)" "unat (n_fatent s) \<le> 0xFF7"
    "(3 * unat (n_fatent s)) div 2 + unat (n_fatent s) mod 2 \<le> 512 * unat (fsize s)"
    using assms by (auto simp: gok_def word_less_nat_alt)
  then show "tab s (c + c div 2)" "tab s (c + c div 2 + 1)"
    using fat12_last [OF c(1)] by (simp_all add: tab_def fat12_unat)
qed

lemma tab_sect: "gok s \<Longrightarrow> tab s i \<Longrightarrow> infat s (fat_sect s i) \<and> fat_sect s i \<noteq> - 1"
  by (simp add: fat_byte_sect tab_def fat_sect_def)

lemma tab16:
  assumes "gok s" "fs_type s = FS_FAT16" "c < n_fatent s"
  shows "tab s (c * 2)" "tab s (c * 2 + 1)" "fatbase s + c div 256 = fat_sect s (c * 2)"
    "fat_sect s (c * 2 + 1) = fat_sect s (c * 2)"
    "unat ((c * 2 + 1) mod 512) = unat (c * 2 mod 512) + 1"
proof -
  have c: "unat c < unat (n_fatent s)" "unat (n_fatent s) \<le> 0xFFF7" "2 * unat (n_fatent s) \<le> 512 * unat (fsize s)"
    using assms by (auto simp: gok_def word_less_nat_alt)
  then have u: "unat (c * 2) = 2 * unat c" "unat (c * 2 + 1) = 2 * unat c + 1"
    by (simp_all add: unat_word_ariths)
  then show "tab s (c * 2)" "tab s (c * 2 + 1)" using c by (simp_all add: tab_def)
  have "c * 2 div 512 = c div 256" "(c * 2 + 1) div 512 = c * 2 div 512"
    using mult_mod_right [of 2 "unat c" 256] div_near(1) [of "2 * unat c" 1]
    by (simp_all add: word_unat_eq_iff unat_div u)
  then show "fatbase s + c div 256 = fat_sect s (c * 2)" "fat_sect s (c * 2 + 1) = fat_sect s (c * 2)"
    by (simp_all add: fat_sect_def)
  show "unat ((c * 2 + 1) mod 512) = unat (c * 2 mod 512) + 1"
    using mult_mod_right [of 2 "unat c" 256] div_near(2) [of "2 * unat c" 1] by (simp add: unat_mod u)
qed

lemma tab32:
  assumes "gok s" "fs_type s = FS_FAT32" "c < n_fatent s" "k < 4"
  shows "tab s (c * 4 + of_nat k)" "fat_sect s (c * 4 + of_nat k) = fatbase s + c div 128"
    "unat ((c * 4 + of_nat k) mod 512) = unat (c * 4 mod 512) + k"
proof -
  have c: "unat c < unat (n_fatent s)" "unat (n_fatent s) \<le> 0x0FFFFFF7" "4 * unat (n_fatent s) \<le> 512 * unat (fsize s)"
    using assms by (auto simp: gok_def word_less_nat_alt)
  then have u: "unat (c * 4) = 4 * unat c" "unat (c * 4 + of_nat k) = 4 * unat c + k"
    using assms(4) by (simp_all add: unat_word_ariths unat_of_nat)
  then show "tab s (c * 4 + of_nat k)" using c assms(4) by (simp add: tab_def)
  have "(c * 4 + of_nat k) div 512 = c div 128"
    using mult_mod_right [of 4 "unat c" 128] div_near(1) [of "4 * unat c" k] assms(4)
    by (simp add: word_unat_eq_iff unat_div u)
  then show "fat_sect s (c * 4 + of_nat k) = fatbase s + c div 128"
    by (simp add: fat_sect_def)
  show "unat ((c * 4 + of_nat k) mod 512) = unat (c * 4 mod 512) + k"
    using mult_mod_right [of 4 "unat c" 128] div_near(2) [of "4 * unat c" k] assms(4)
    by (simp add: unat_mod u)
qed

text \<open>A byte of the table in a later state: the same, or gone with a sector beyond the
  device.\<close>

lemma fat_byte_keep:
  assumes "fkeep s s'" "good s s'" "gok s" "tab s i"
  shows "fat_byte s' i = fat_byte s i \<or> DISK_SECTORS \<le> unat (fat_sect s i) \<and> fat_byte s' i = 0"
  using fkeepD [OF assms(1), of "fat_sect s i" "unat (i mod 512)"] tab_sect [OF assms(3,4)] assms(2)
  by (simp add: fat_byte_def fat_sect_def frame_simps)

lemma fat_byte_upd:
  assumes "winsect s = fat_sect s k" "length (win s) = 512"
  shows "fat_byte (s\<lparr>win := (win s)[unat (k mod 512) := x], wflag := 1\<rparr>) i =
           (if i = k then x else fat_byte s i)"
proof (cases "i div 512 = k div 512")
  case True
  then have "i = k \<longleftrightarrow> unat (i mod 512) = unat (k mod 512)"
    by (metis div_mult_mod_eq word_unat_eq_iff)
  then show ?thesis using assms True by (auto simp: fat_byte_def vbyte_def fat_sect_def nth_list_update)
next
  case False
  then show ?thesis using assms by (auto simp: fat_byte_def vbyte_def fat_sect_def)
qed

text \<open>The byte in the window after a successful move to its sector.\<close>

lemma moved_byte:
  assumes "move_window s (fat_sect s i) = Some (FR_OK, s')" "vok s" "gok s" "mirror_ok s" "tab s i"
  shows "win s' ! unat (i mod 512) = fat_byte s i"
  using win_moved [OF move_windowD(3,4,2) [OF assms(1,2)], of "unat (i mod 512)"]
    tab_sect [OF assms(3,5)] assms(4)
  by (simp add: fat_byte_def fat_sect_def)

lemma move_window_step:
  assumes "vok s" "\<And>r s'. move_window s n = Some (r, s') \<Longrightarrow> Q (r, s')"
  shows "wp (move_window s n) Q"
proof -
  have "wp (move_window s n) (\<lambda>_. True)" by (rule move_window_wp [OF assms(1)]) simp
  then show ?thesis using assms(2) by (auto simp: wp_def)
qed

text \<open>A volume whose FAT is on the device, and a window that can be written back or need not
  be: then no access to the FAT fails.\<close>

definition fat_on_disk :: "'a FATFS_scheme \<Rightarrow> bool" where
  "fat_on_disk s \<longleftrightarrow> unat (fatbase s) + unat (fsize s) \<le> DISK_SECTORS"

lemma fat_on_disk_sect:
  assumes "fat_on_disk s" "tab s i"
  shows "unat (fat_sect s i) < DISK_SECTORS"
proof -
  have "unat i div 512 < unat (fsize s)" using assms(2) by (auto simp: tab_def)
  then have "unat (fatbase s) + unat (i div 512) < 128"
    using assms(1) by (simp add: fat_on_disk_def unat_div)
  then show ?thesis by (simp add: fat_sect_def unat_word_ariths)
qed

lemma fat_on_disk_mirror: "fat_on_disk s \<Longrightarrow> mirror_ok s"
  by (auto simp: fat_on_disk_def mirror_ok_def word_less_nat_alt)

definition wr :: "vol \<Rightarrow> bool" where
  "wr s \<longleftrightarrow> wflag s = 0 \<or> unat (winsect s) < DISK_SECTORS"

lemma move_window_ok:
  assumes "vok s" "wr s" "unat n < DISK_SECTORS"
  obtains s' where "move_window s n = Some (FR_OK, s')" "wr s'"
proof (cases "n = winsect s")
  case True
  then show ?thesis using assms that by (simp add: move_window_def)
next
  case False
  define s1 where "s1 = (if wflag s = 0 then s else synced s)"
  have s1: "sync_window s = Some (FR_OK, s1)" "win s1 = win s"
    using assms by (auto simp: sync_window_synced wr_def s1_def)
  have "move_window s n = Some (FR_OK, s1\<lparr>win := disk_bytes (vdisk s1) (unat n * 512) 512, winsect := n\<rparr>)"
    using False s1 assms by (simp add: move_window_def disk_read_1)
  then show ?thesis using that assms(3) by (simp add: wr_def)
qed
lemma wrI: "unat (winsect s) < DISK_SECTORS \<Longrightarrow> wr s"
  by (simp add: wr_def)

lemma wr_dirty [simp]: "wr (s\<lparr>win := b, wflag := 1\<rparr>) \<longleftrightarrow> unat (winsect s) < DISK_SECTORS"
  by (simp add: wr_def)

lemma moved_ok:
  assumes "move_window s (fat_sect s i) = Some (r, s1)" "wr s" "fat_on_disk s" "vok s" "tab s i"
  shows "r = FR_OK \<and> unat (winsect s1) < DISK_SECTORS"
proof -
  have n: "unat (fat_sect s i) < DISK_SECTORS" by (rule fat_on_disk_sect [OF assms(3,5)])
  obtain s' where "move_window s (fat_sect s i) = Some (FR_OK, s')"
    by (rule move_window_ok [OF assms(4,2) n])
  then have "r = FR_OK" using assms(1) by simp
  then show ?thesis using move_windowD(3) [OF assms(1,4)] n by simp
qed

lemma moved_ok2:
  assumes "move_window s (fat_sect s i) = Some (r1, s1)" "move_window s2 (fat_sect s2 k) = Some (r, s3)"
    and "good s1 s2" "wr s" "fat_on_disk s" "winsect s2 = winsect s1" "vok s" "tab s i" "tab s k"
  shows "r = FR_OK \<and> unat (winsect s3) < DISK_SECTORS"
proof (rule moved_ok [OF assms(2)])
  show "wr s2" using moved_ok [OF assms(1,4,5,7,8)] assms(6) by (simp add: wr_def)
  have g: "good s s2" using move_windowD(1) [OF assms(1,7)] assms(3) by (rule good_trans)
  then show "fat_on_disk s2" "vok s2" "tab s2 k"
    using assms(5,9) by (simp_all add: fat_on_disk_def tab_def goodD)
qed

lemma moved_byte2:
  assumes "move_window s (fat_sect s i) = Some (FR_OK, s1)"
    and "move_window s1 (fat_sect s1 k) = Some (FR_OK, s2)"
    and "vok s" "gok s" "mirror_ok s" "tab s k"
  shows "win s2 ! unat (k mod 512) = fat_byte s k"
proof -
  note m1 = move_windowD [OF assms(1,3)]
  note m2 = move_windowD [OF assms(2) goodD(1) [OF m1(1)]]
  have "fat_sect s1 k = fat_sect s k" using m1(1) by (simp add: fat_sect_def goodD)
  then show ?thesis
    using win_moved2 [OF m1(3,4,2,1) m2(3,4,2), of "unat (k mod 512)"] tab_sect [OF assms(4,6)]
      assms(5) by (simp add: fat_byte_def fat_sect_def mirror_ok_good [OF m1(1)])
qed

lemma moved_frame:
  assumes "move_window s n = Some (r, s')" "vok s" "mirror_ok s"
  shows "vok s'" "fkeep s s'" "mirror_ok s'"
  using move_windowD [OF assms(1,2)] assms(3) by (simp_all add: goodD mirror_ok_good)

lemma moved_frame2:
  assumes "move_window s n = Some (r, s1)" "move_window s1 n' = Some (r', s2)" "vok s" "mirror_ok s"
  shows "vok s2" "fkeep s s2"
  using moved_frame [OF assms(1,3,4)] moved_frame [OF assms(2)]
    fkeep_trans [OF _ move_windowD(1) [OF assms(1,3)]] by simp_all

lemma ucast_bytes: "ucast (push_bit 8 (ucast b1) OR ucast b0 :: WORD) =
    (push_bit 8 (ucast (b1 :: BYTE)) OR ucast (b0 :: BYTE) :: DWORD)"
  by (rule bit_word_eqI) (auto simp: bit_simps dest: bit_imp_le_length)

lemma get_fat_table12:
  assumes "vok s" "gok s" "mirror_ok s" "\<not> c < 2" "\<not> n_fatent s \<le> c" "fs_type s = FS_FAT12"
  shows "wp (get_fat s c) (\<lambda>(v, s'). fkeep s s' \<and>
           (v = fat_entry s c \<and> (wr s \<and> fat_on_disk s \<longrightarrow> wr s') \<or>
            v = 0xFFFFFFFF \<and> \<not> (wr s \<and> fat_on_disk s)))"
proof -
  have "c < n_fatent s" using assms(5) by simp
  note tb = tab12 [OF assms(2,6) this]
  have ok2: "r = FR_OK \<and> unat (winsect s2) < DISK_SECTORS"
    if "move_window s1 (fat_sect s1 (c + c div 2 + 1)) = Some (r, s2)"
      "move_window s (fat_sect s (c + c div 2)) = Some (r1, s1)" "wr s" "fat_on_disk s" for r r1 s1 s2
    using moved_frame(1) [OF that(2) assms(1,3)]
    by (intro moved_ok2 [OF that(2,1) _ that(3,4) refl assms(1) tb]) simp
  show ?thesis
    unfolding get_fat_def using assms
    by (auto simp: wp_simps fat_sect_def [symmetric] moved_frame [OF _ assms(1,3)]
          moved_frame2 [OF _ _ assms(1,3)] moved_byte [OF _ assms(1-3) tb(1)]
          moved_byte2 [OF _ _ assms(1-3) tb(2)] fat_entry_def entry_of_def Let_def
          simp del: drop_bit_or intro!: move_window_step intro: wrI
          dest: moved_ok [OF _ _ _ assms(1) tb(1)] ok2)
qed

lemma get_fat_table16:
  assumes "vok s" "gok s" "mirror_ok s" "\<not> c < 2" "\<not> n_fatent s \<le> c" "fs_type s = FS_FAT16"
  shows "wp (get_fat s c) (\<lambda>(v, s'). fkeep s s' \<and>
           (v = fat_entry s c \<and> (wr s \<and> fat_on_disk s \<longrightarrow> wr s') \<or>
            v = 0xFFFFFFFF \<and> \<not> (wr s \<and> fat_on_disk s)))"
proof -
  have "c < n_fatent s" using assms(5) by simp
  note tb = tab16 [OF assms(2,6) this]
  note mb = moved_byte [OF _ assms(1-3)]
  show ?thesis
    unfolding get_fat_def using assms mb [OF _ tb(1)] mb [OF _ tb(2)] 
    by (auto simp: wp_simps tb moved_frame [OF _ assms(1,3)] fat_entry_def entry_of_def ld_word_def
          ucast_bytes intro!: move_window_step intro: wrI dest: moved_ok [OF _ _ _ assms(1) tb(1)])
qed

lemma get_fat_table32:
  assumes "vok s" "gok s" "mirror_ok s" "\<not> c < 2" "\<not> n_fatent s \<le> c" "fs_type s = FS_FAT32"
  shows "wp (get_fat s c) (\<lambda>(v, s'). fkeep s s' \<and>
           (v = fat_entry s c \<and> (wr s \<and> fat_on_disk s \<longrightarrow> wr s') \<or>
            v = 0xFFFFFFFF \<and> \<not> (wr s \<and> fat_on_disk s)))"
proof -
  have "c < n_fatent s" using assms(5) by simp
  note tb = tab32 [OF assms(2,6) this]
  note mb = moved_byte [OF _ assms(1-3)]
  have ok: "r = FR_OK \<and> unat (winsect s1) < DISK_SECTORS"
    if "move_window s (fatbase s + c div 128) = Some (r, s1)" "wr s" "fat_on_disk s" for r s1
    using moved_ok [OF _ that(2,3) assms(1) tb(1) [of 0], of r s1] that(1) tb(2) [of 0] by simp
  show ?thesis
    unfolding get_fat_def using assms mb [OF _ tb(1) [of 0]] mb [OF _ tb(1) [of 1]]
      mb [OF _ tb(1) [of 2]] mb [OF _ tb(1) [of 3]] tb(2,3) [of 0] tb(2,3) [of 1] tb(2,3) [of 2] tb(2,3) [of 3]
    by (auto simp: wp_simps moved_frame [OF _ assms(1,3)] fat_entry_def entry_of_def ld_dword_def
          or.assoc intro!: move_window_step intro: wrI dest: ok)
qed

lemma get_fat_table:
  assumes "vok s" "gok s" "mirror_ok s"
  shows "wp (get_fat s c) (\<lambda>(v, s'). fkeep s s' \<and>
           (v = fat_value s c \<and> (wr s \<and> fat_on_disk s \<longrightarrow> wr s') \<or>
            v = 0xFFFFFFFF \<and> \<not> (wr s \<and> fat_on_disk s)))"
proof (cases "c < 2 \<or> c \<ge> n_fatent s")
  case True
  then show ?thesis by (auto simp: get_fat_def fat_value_def)
next
  case False
  moreover have "fs_type s = FS_FAT12 \<or> fs_type s = FS_FAT16 \<or> fs_type s = FS_FAT32"
    using assms(2) by (auto simp: gok_def)
  ultimately show ?thesis
    using get_fat_table12 [OF assms, of c] get_fat_table16 [OF assms, of c] get_fat_table32 [OF assms, of c]
    by (auto simp: fat_value_def)
qed

text \<open>Writing: the bytes of the table after \<open>put_fat\<close>.\<close>

definition put_rel :: "vol \<Rightarrow> DWORD \<Rightarrow> DWORD \<Rightarrow> vol \<Rightarrow> bool" where
  "put_rel s c v s' \<longleftrightarrow>
     (\<forall>i. tab s i \<longrightarrow>
        fat_byte s' i = put_byte (fs_type s) c v i (fat_byte s i) \<or>
        DISK_SECTORS \<le> unat (fat_sect s i) \<and>
          (fat_byte s' i = 0 \<or> fat_byte s' i = put_byte (fs_type s) c v i 0))"

lemma ucast_word_byte:
  "ucast (ucast (v :: DWORD) :: WORD) = (ucast v :: BYTE)"
  "ucast (drop_bit 8 (ucast (v :: DWORD) :: WORD)) = (ucast (drop_bit 8 v) :: BYTE)"
  by (rule bit_word_eqI, auto simp: bit_simps)+

lemma put_fat_table16:
  assumes "vok s" "gok s" "mirror_ok s" "2 \<le> c" "c < n_fatent s" "fs_type s = FS_FAT16"
  shows "wp (put_fat s c v) (\<lambda>(r, s'). (r = FR_OK \<longrightarrow> put_rel s c v s') \<and>
           (wr s \<and> fat_on_disk s \<longrightarrow> r = FR_OK \<and> wr s'))"
proof -
  note tb = tab16 [OF assms(2,6,5)]
  have st: "put_rel s c v (s1\<lparr>win := w, wflag := 1\<rparr>)"
    if m: "move_window s (fat_sect s (c * 2)) = Some (FR_OK, s1)"
      and w: "st_word (win s1) (unat (c * 2 mod 512)) (ucast v) = Some w" for s1 w
  proof -
    note mv = move_windowD [OF m assms(1)]
    let ?s2 = "s1\<lparr>win := (win s1)[unat (c * 2 mod 512) := ucast v], wflag := 1\<rparr>"
    have e: "s1\<lparr>win := w, wflag := 1\<rparr> =
        ?s2\<lparr>win := (win ?s2)[unat ((c * 2 + 1) mod 512) := ucast (drop_bit 8 v)], wflag := 1\<rparr>"
      using st_word_nth [OF w] by (simp add: tb ucast_word_byte)
    have ws: "winsect s1 = fat_sect s1 (c * 2)" "winsect ?s2 = fat_sect ?s2 (c * 2 + 1)" "length (win s1) = 512"
      "length (win ?s2) = 512"
      using mv(3) goodD [OF mv(1)] tb(4) by (simp_all add: fat_sect_def)
    have "fat_byte (s1\<lparr>win := w, wflag := 1\<rparr>) i = put_byte FS_FAT16 c v i (fat_byte s1 i)" for i
      unfolding e fat_byte_upd [OF ws(2,4)] fat_byte_upd [OF ws(1,3)] by (simp add: put_byte_def)
    then show ?thesis
      using fat_byte_keep [OF mv(2,1) assms(2)] assms(3,6) by (fastforce simp: put_rel_def)
  qed
  show ?thesis
    unfolding put_fat_def using assms
    by (auto simp: wp_simps tb goodD(1) [OF move_windowD(1) [OF _ assms(1)]]
        intro!: move_window_step st_word_wp st intro: wrI dest: moved_ok [OF _ _ _ assms(1) tb(1)])
qed

lemma merge32_bytes:
  fixes v :: DWORD and b0 b1 b2 b3 :: BYTE
  assumes "old = push_bit 24 (ucast b3) OR push_bit 16 (ucast b2) OR push_bit 8 (ucast b1) OR ucast b0"
    and "w = (v AND 0x0FFFFFFF) OR (old AND 0xF0000000)"
  shows "ucast w = (ucast v :: BYTE)" "ucast (drop_bit 8 w) = (ucast (drop_bit 8 v) :: BYTE)"
    "ucast (drop_bit 16 w) = (ucast (drop_bit 16 v) :: BYTE)"
    "ucast (drop_bit 24 w) = (ucast (drop_bit 24 v) AND 0x0F) OR (b3 AND 0xF0)"
proof -
  have m: "(0xF0000000 :: DWORD) = push_bit 28 (mask 4)" by (simp add: mask_eq_exp_minus_1)
  show "ucast w = (ucast v :: BYTE)" "ucast (drop_bit 8 w) = (ucast (drop_bit 8 v) :: BYTE)"
    "ucast (drop_bit 16 w) = (ucast (drop_bit 16 v) :: BYTE)"
    "ucast (drop_bit 24 w) = (ucast (drop_bit 24 v) AND 0x0F) OR (b3 AND 0xF0)"
    unfolding assms nibble_masks m
    by (rule bit_word_eqI, auto simp: bit_simps dest: bit_imp_le_length)+
qed

lemma put_fat_table32:
  assumes "vok s" "gok s" "mirror_ok s" "2 \<le> c" "c < n_fatent s" "fs_type s = FS_FAT32"
  shows "wp (put_fat s c v) (\<lambda>(r, s'). (r = FR_OK \<longrightarrow> put_rel s c v s') \<and>
           (wr s \<and> fat_on_disk s \<longrightarrow> r = FR_OK \<and> wr s'))"
proof -
  note tb = tab32 [OF assms(2,6,5)]
  have ok: "r = FR_OK \<and> unat (winsect s1) < DISK_SECTORS"
    if "move_window s (fatbase s + c div 128) = Some (r, s1)" "wr s" "fat_on_disk s" for r s1
    using moved_ok [OF _ that(2,3) assms(1) tb(1) [of 0], of r s1] that(1) tb(2) [of 0] by simp
  let ?p = "unat (c * 4 mod 512)"
  have st: "put_rel s c v (s1\<lparr>win := w, wflag := 1\<rparr>)"
    if m: "move_window s (fatbase s + c div 128) = Some (FR_OK, s1)"
      and old: "ld_dword (win s1) ?p = Some old"
      and w: "st_dword (win s1) ?p ((v AND 0x0FFFFFFF) OR (old AND 0xF0000000)) = Some w" for s1 w old
  proof -
    note mv = move_windowD [OF m assms(1)]
    have L: "length (win s1) = 512" using goodD(1) [OF mv(1)] by simp
    have o: "old = push_bit 24 (ucast (win s1 ! (?p + 3))) OR push_bit 16 (ucast (win s1 ! (?p + 2)))
             OR push_bit 8 (ucast (win s1 ! (?p + 1))) OR ucast (win s1 ! ?p)"
      using old L by (simp add: ld_dword_def ldb_def or.assoc)
    let ?s2 = "s1\<lparr>win := (win s1)[unat ((c * 4 + of_nat 0) mod 512) := ucast v], wflag := 1\<rparr>"
    let ?s3 = "?s2\<lparr>win := (win ?s2)[unat ((c * 4 + of_nat 1) mod 512) := ucast (drop_bit 8 v)], wflag := 1\<rparr>"
    let ?s4 = "?s3\<lparr>win := (win ?s3)[unat ((c * 4 + of_nat 2) mod 512) := ucast (drop_bit 16 v)], wflag := 1\<rparr>"
    have ws: "winsect s1 = fat_sect s1 (c * 4 + of_nat 0)" "winsect ?s2 = fat_sect ?s2 (c * 4 + of_nat 1)"
      "winsect ?s3 = fat_sect ?s3 (c * 4 + of_nat 2)" "winsect ?s4 = fat_sect ?s4 (c * 4 + of_nat 3)"
      using mv(3) goodD [OF mv(1)] tb(2) [of 0] tb(2) [of 1] tb(2) [of 2] tb(2) [of 3]
      by (simp_all add: fat_sect_def)
    have Ls: "length (win ?s2) = 512" "length (win ?s3) = 512" "length (win ?s4) = 512"
      using L by simp_all
    have b3: "win s1 ! (?p + 3) = fat_byte s1 (c * 4 + 3)"
      using ws(4) mv(3) tb(2,3) [of 3] goodD [OF mv(1)] by (simp add: fat_byte_def vbyte_def fat_sect_def)
    have w_eq: "w = (win s1)[?p := ucast v, ?p + 1 := ucast (drop_bit 8 v), ?p + 2 := ucast (drop_bit 16 v),
        ?p + 3 := (ucast (drop_bit 24 v) AND 0x0F) OR (fat_byte s1 (c * 4 + 3) AND 0xF0)]"
      using st_dword_nth [OF w] unfolding merge32_bytes [OF o refl] b3 by blast
    have e: "s1\<lparr>win := w, wflag := 1\<rparr> =
        ?s4\<lparr>win := (win ?s4)[unat ((c * 4 + of_nat 3) mod 512) :=
              (ucast (drop_bit 24 v) AND 0x0F) OR (fat_byte s1 (c * 4 + 3) AND 0xF0)], wflag := 1\<rparr>"
      using w_eq tb(3) [of 0] tb(3) [of 1] tb(3) [of 2] tb(3) [of 3] by simp
    have "fat_byte (s1\<lparr>win := w, wflag := 1\<rparr>) i = put_byte FS_FAT32 c v i (fat_byte s1 i)" for i
      unfolding e fat_byte_upd [OF ws(4) Ls(3)] fat_byte_upd [OF ws(3) Ls(2)]
        fat_byte_upd [OF ws(2) Ls(1)] fat_byte_upd [OF ws(1) L] by (simp add: put_byte_def)
    then show ?thesis
      using fat_byte_keep [OF mv(2,1) assms(2)] assms(3,6) by (fastforce simp: put_rel_def)
  qed
  show ?thesis
    unfolding put_fat_def using assms
    by (auto simp: wp_simps goodD(1) [OF move_windowD(1) [OF _ assms(1)]]
        intro!: move_window_step ld_dword_wp st_dword_wp st dest: ok)
qed

lemma put_fat_table12:
  assumes "vok s" "gok s" "mirror_ok s" "2 \<le> c" "c < n_fatent s" "fs_type s = FS_FAT12"
  shows "wp (put_fat s c v) (\<lambda>(r, s'). (r = FR_OK \<longrightarrow> put_rel s c v s') \<and>
           (wr s \<and> fat_on_disk s \<longrightarrow> r = FR_OK \<and> wr s'))"
proof -
  note tb = tab12 [OF assms(2,6,5)]
  let ?bc = "c + c div 2"
  define lo where "lo b = (if c AND 1 \<noteq> 0 then (b AND 0x0F) OR push_bit 4 (ucast v) else ucast v)" for b :: BYTE
  define hi where "hi b = (if c AND 1 \<noteq> 0 then ucast (drop_bit 4 v)
                           else (b AND 0xF0) OR (ucast (drop_bit 8 v) AND 0x0F))" for b :: BYTE
  define s1' where "s1' s1 = s1\<lparr>win := (win s1)[unat (?bc mod 512) := lo (win s1 ! unat (?bc mod 512))], wflag := 1\<rparr>" for s1 :: vol
  define s2' where "s2' s2 = s2\<lparr>win := (win s2)[unat ((?bc + 1) mod 512) := hi (win s2 ! unat ((?bc + 1) mod 512))], wflag := 1\<rparr>" for s2 :: vol
  have g1: "good s s1" "good s1 (s1' s1)" "good s (s1' s1)" if "move_window s (fat_sect s ?bc) = Some (r, s1)" for r s1
    using move_windowD(1) [OF that assms(1)] by (simp_all add: s1'_def frame_simps)
  have st: "put_rel s c v (s2' s2)"
    if m1: "move_window s (fat_sect s ?bc) = Some (FR_OK, s1)"
      and m2: "move_window (s1' s1) (fat_sect s (?bc + 1)) = Some (FR_OK, s2)" for s1 s2
    unfolding put_rel_def
  proof (intro allI impI)
    fix i assume i: "tab s i"
    note d1 = move_windowD [OF m1 assms(1)] 
    note g = g1 [OF m1]
    note d2 = move_windowD [OF m2 goodD(1) [OF g(3)]]
    have g2: "good s s2" using g(3) d2(1) by (rule good_trans)
    have k: "fkeep s s1" "fkeep (s1' s1) s2"
      using d1(2) d2(2) assms(3) mirror_ok_good [OF g(3)] by simp_all
    have sec: "fat_sect s1 j = fat_sect s j" "fat_sect (s1' s1) j = fat_sect s j" "fat_sect s2 j = fat_sect s j" for j
      using g g2 by (simp_all add: fat_sect_def goodD)
    have b1: "fat_byte (s1' s1) j = (if j = ?bc then lo (fat_byte s1 j) else fat_byte s1 j)" for j
      unfolding s1'_def using d1(3) g(1) sec
      by (subst fat_byte_upd) (auto simp: goodD fat_byte_def vbyte_def fat_sect_def)
    have b2: "fat_byte (s2' s2) j = (if j = ?bc + 1 then hi (fat_byte s2 j) else fat_byte s2 j)" for j
      unfolding s2'_def using d2(3) g2 sec
      by (subst fat_byte_upd) (auto simp: goodD fat_byte_def vbyte_def fat_sect_def)
    have p: "put_byte FS_FAT12 c v i b = (if i = ?bc then lo b else if i = ?bc + 1 then hi b else b)" for b
      by (simp add: put_byte_def lo_def hi_def Let_def)
    have gt: "gok (s1' s1)" "tab (s1' s1) i"
      using i assms(2) g(3) by (simp_all add: gok_good tab_def goodD)
    show "fat_byte (s2' s2) i = put_byte (fs_type s) c v i (fat_byte s i) \<or>
        DISK_SECTORS \<le> unat (fat_sect s i) \<and>
          (fat_byte (s2' s2) i = 0 \<or> fat_byte (s2' s2) i = put_byte (fs_type s) c v i 0)"
      using fat_byte_keep [OF k(1) g(1) assms(2) i] fat_byte_keep [OF k(2) d2(1) gt]
      unfolding assms(6) p b2 b1 sec by auto
  qed
  have eq: "put_fat s c v = do {
      (res, s) \<leftarrow> move_window s (fat_sect s ?bc);
      if res \<noteq> FR_OK then Some (res, s)
      else do {
        b \<leftarrow> ldb (win s) (unat (?bc mod 512));
        w \<leftarrow> stb (win s) (unat (?bc mod 512)) (lo b);
        (res, s) \<leftarrow> move_window (s\<lparr>win := w, wflag := 1\<rparr>) (fat_sect s (?bc + 1));
        if res \<noteq> FR_OK then Some (res, s)
        else do {
          b \<leftarrow> ldb (win s) (unat ((?bc + 1) mod 512));
          w \<leftarrow> stb (win s) (unat ((?bc + 1) mod 512)) (hi b);
          Some (res, s\<lparr>win := w, wflag := 1\<rparr>)
        }
      }
    }"
    using assms(4-6) by (simp add: put_fat_def lo_def hi_def fat_sect_def Let_def cong: if_cong)
  have ok1: "r = FR_OK"
    if "move_window s (fatbase s + ?bc div 512) = Some (r, s1)" "wr s" "fat_on_disk s" for r s1
    using moved_ok [OF _ that(2,3) assms(1) tb(1)] that(1) by (simp add: fat_sect_def)
  have ok2: "r' = FR_OK \<and> unat (winsect s2) < DISK_SECTORS"
    if m: "move_window (s1\<lparr>win := (win s1)[unat (?bc mod 512) := lo (win s1 ! unat (?bc mod 512))], wflag := 1\<rparr>)
         (fatbase s + (?bc + 1) div 512) = Some (r', s2)"
      "move_window s (fatbase s + ?bc div 512) = Some (r, s1)" "wr s" "fat_on_disk s" for r r' s1 s2
  proof (rule moved_ok2 [OF _ _ _ m(3,4) _ assms(1) tb])
    show m1: "move_window s (fat_sect s ?bc) = Some (r, s1)" using m(2) by (simp add: fat_sect_def)
    show "good s1 (s1' s1)" using g1 [OF m1] by simp
    show "move_window (s1' s1) (fat_sect (s1' s1) (?bc + 1)) = Some (r', s2)"
      using m(1) g1 [OF m1] by (simp add: fat_sect_def goodD s1'_def)
  qed (simp add: s1'_def)
  have fs1: "length (win s1) = 512" "fatbase s1 = fatbase s"
    if "move_window s n = Some (r, s1)" for n r s1
    using move_windowD(1) [OF that assms(1)] by (simp_all add: goodD)
  have ln: "length (win t') = 512" if "move_window t n = Some (r, t')" "vok t" for n r t t'
    using move_windowD(1) [OF that] by (simp add: goodD)
  show ?thesis unfolding eq using assms(1)
    by (auto simp: wp_simps fat_sect_def fs1 ln
        intro!: move_window_step st [unfolded s1'_def s2'_def fat_sect_def] dest: ok1 ok2)
qed

lemma put_fat_table:
  assumes "vok s" "gok s" "mirror_ok s"
  shows "wp (put_fat s c v) (\<lambda>(r, s'). (r = FR_OK \<longrightarrow> 2 \<le> c \<and> c < n_fatent s \<and> put_rel s c v s') \<and>
           (2 \<le> c \<and> c < n_fatent s \<and> wr s \<and> fat_on_disk s \<longrightarrow> r = FR_OK \<and> wr s'))"
proof (cases "2 \<le> c \<and> c < n_fatent s")
  case True
  moreover have "fs_type s = FS_FAT12 \<or> fs_type s = FS_FAT16 \<or> fs_type s = FS_FAT32"
    using assms(2) by (auto simp: gok_def)
  ultimately show ?thesis
    using put_fat_table12 [OF assms, of c v] put_fat_table16 [OF assms, of c v] put_fat_table32 [OF assms, of c v]
    by auto
next
  case False
  then show ?thesis by (auto simp: put_fat_def)
qed

section \<open>Entries after an operation\<close>

text \<open>The bytes of an entry of the volume are bytes of its table.\<close>

lemma entry_of_cong:
  assumes "gok s" "c < n_fatent s" "\<And>i. tab s i \<Longrightarrow> f i = g i"
  shows "entry_of (fs_type s) f c = entry_of (fs_type s) g c"
proof -
  consider "fs_type s = FS_FAT12" | "fs_type s = FS_FAT16" | "fs_type s = FS_FAT32"
    using assms(1) by (auto simp: gok_def)
  then show ?thesis
  proof cases
    case 1
    then show ?thesis using tab12 [OF assms(1) 1 assms(2)] assms(3) by (simp add: entry_of_def Let_def)
  next
    case 2
    then show ?thesis using tab16 [OF assms(1) 2 assms(2)] assms(3) by (simp add: entry_of_def)
  next
    case 3
    note tb = tab32(1) [OF assms(1) 3 assms(2)]
    show ?thesis using 3 tb [of 0] tb [of 1] tb [of 2] tb [of 3] assms(3) by (simp add: entry_of_def)
  qed
qed

lemma gok_lim: "gok s \<Longrightarrow> c < n_fatent s \<Longrightarrow> unat c < entry_lim (fs_type s)"
  by (auto simp: gok_def entry_lim_def word_less_nat_alt)

text \<open>An entry that is free stays free in a state that keeps the FAT.\<close>

lemma fat_entry_free_keep:
  assumes "fkeep s s'" "good s s'" "gok s" "c < n_fatent s" "fat_entry s c = 0"
  shows "fat_entry s' c = 0"
proof -
  define g where "g i = (if tab s i then fat_byte s' i else fat_byte s i)" for i
  have "fat_entry s' c = entry_of (fs_type s) g c"
    unfolding fat_entry_def goodD(2) [OF assms(2)]
    by (rule entry_of_cong [OF assms(3,4)]) (simp add: g_def)
  also have "\<dots> = 0"
    using fat_byte_keep [OF assms(1-3)] assms(5)
    by (intro entry_of_cleared [of g "fat_byte s"]) (auto simp: g_def fat_entry_def)
  finally show ?thesis .
qed

text \<open>Freeing an entry.\<close>

lemma put_byte_0: "put_byte ty c 0 i 0 = 0"
  unfolding put_byte_def Let_def by (simp cong: if_cong split del: if_split)

lemma fat_entry_put_0:
  assumes "put_rel s c 0 s'" "good s s'" "gok s" "c < n_fatent s" "c' < n_fatent s"
    and "c' = c \<or> fat_entry s c' = 0"
  shows "fat_entry s' c' = 0"
proof -
  define f where "f i = put_byte (fs_type s) c 0 i (fat_byte s i)" for i
  define g where "g i = (if tab s i then fat_byte s' i else f i)" for i
  have "fat_entry s' c' = entry_of (fs_type s) g c'"
    unfolding fat_entry_def goodD(2) [OF assms(2)]
    by (rule entry_of_cong [OF assms(3,5)]) (simp add: g_def)
  also have "\<dots> = 0"
  proof (rule entry_of_cleared [of g f])
    show "g i = f i \<or> g i = 0" for i
      using assms(1) by (auto simp: g_def f_def put_rel_def put_byte_0)
    show "entry_of (fs_type s) f c' = 0"
    proof (cases "c' = c")
      case True
      then show ?thesis unfolding f_def by (simp add: entry_put_same)
    next
      case False
      then show ?thesis
        unfolding f_def using assms(6) gok_lim [OF assms(3,4)] gok_lim [OF assms(3,5)]
        by (subst entry_put_other) (auto simp: fat_entry_def)
    qed
  qed
  finally show ?thesis .
qed

lemma fat_entry_keep:
  assumes "fkeep s s'" "good s s'" "gok s" "fat_on_disk s" "c < n_fatent s"
  shows "fat_entry s' c = fat_entry s c"
  unfolding fat_entry_def goodD(2) [OF assms(2)]
  using fat_byte_keep [OF assms(1-3)] fat_on_disk_sect [OF assms(4)]
  by (intro entry_of_cong [OF assms(3,5)]) fastforce

lemma fat_entry_put:
  assumes "put_rel s c v s'" "good s s'" "gok s" "fat_on_disk s" "c < n_fatent s" "c' < n_fatent s"
  shows "fat_entry s' c' = (if c' = c then v AND entry_mask (fs_type s) else fat_entry s c')"
proof -
  have "fat_entry s' c' = entry_of (fs_type s) (\<lambda>i. put_byte (fs_type s) c v i (fat_byte s i)) c'"
    unfolding fat_entry_def goodD(2) [OF assms(2)]
    using assms(1) fat_on_disk_sect [OF assms(4)]
    by (intro entry_of_cong [OF assms(3,6)]) (fastforce simp: put_rel_def)
  then show ?thesis
    using gok_lim [OF assms(3,5)] gok_lim [OF assms(3,6)]
    by (simp add: entry_put_same entry_put_other fat_entry_def)
qed
end
