(* ===== verification/FF_Dir.thy ===== *)
theory FF_Dir
  imports FF_Chain
begin

text \<open>
  Directory handling of \<open>ff.c\<close>: positioning in a directory table (\<open>dir_sdi\<close>, \<open>dir_next\<close>),
  allocation, search, registration and removal of entries, and the start cluster and file
  information kept in an entry.  Each function takes the volume and the directory object and
  returns its result code with both; the pointer \<open>dp->dir\<close> is an offset in the window.
\<close>

section \<open>Operations\<close>

partial_function (option) dir_clear_loop :: "vol \<Rightarrow> LBA_t \<Rightarrow> UINT \<Rightarrow> (UINT \<times> vol) option" where
  "dir_clear_loop s sector n =
     (if n < ucast (csize s) then do {
        (r, d) \<leftarrow> disk_write (vdisk s) (win s) (sector + n) 1;
        let s = s\<lparr>vdisk := d\<rparr>;
        if r = RES_OK then dir_clear_loop s sector (n + 1) else Some (n, s)
      } else Some (n, s))"

declare dir_clear_loop.simps [code]

definition dir_clear :: "vol \<Rightarrow> DWORD \<Rightarrow> (FRESULT \<times> vol) option" where
  "dir_clear s clst = do {
     (res, s) \<leftarrow> sync_window s;
     if res \<noteq> FR_OK then Some (FR_DISK_ERR, s)
     else do {
       let sector = clst2sect s clst;
       let s = s\<lparr>winsect := sector\<rparr>;
       b \<leftarrow> memset (win s) 0 0 512;
       let s = s\<lparr>win := b\<rparr>;
       (n, s) \<leftarrow> dir_clear_loop s sector 0;
       Some (if n = ucast (csize s) then FR_OK else FR_DISK_ERR, s)
     }
   }"

partial_function (option) dir_sdi_loop ::
    "vol \<Rightarrow> DWORD \<Rightarrow> DWORD \<Rightarrow> DWORD \<Rightarrow> ((FRESULT + DWORD \<times> DWORD) \<times> vol) option" where
  "dir_sdi_loop s csz clst ofs =
     (if ofs \<ge> csz then do {
        (clst, s) \<leftarrow> get_fat s clst;
        if clst = 0xFFFFFFFF then Some (Inl FR_DISK_ERR, s)
        else if clst < 2 \<or> clst \<ge> n_fatent s then Some (Inl FR_INT_ERR, s)
        else dir_sdi_loop s csz clst (ofs - csz)
      } else Some (Inr (clst, ofs), s))"

declare dir_sdi_loop.simps [code]

text \<open>The tail of \<open>dir_sdi\<close>, after the sector of the cluster is known.\<close>

definition dir_sdi_set :: "DIR \<Rightarrow> DWORD \<Rightarrow> LBA_t \<Rightarrow> DWORD \<Rightarrow> FRESULT \<times> DIR" where
  "dir_sdi_set dp clst sector ofs =
     (let dp = dp\<lparr>sect := sector, clust := clst\<rparr>
      in if sect dp = 0 then (FR_INT_ERR, dp)
         else (FR_OK, dp\<lparr>sect := sect dp + ofs div SS, dir := unat (ofs mod SS)\<rparr>))"

definition dir_sdi :: "vol \<Rightarrow> DIR \<Rightarrow> DWORD \<Rightarrow> (FRESULT \<times> DIR \<times> vol) option" where
  "dir_sdi s dp ofs =
     (if ofs \<ge> MAX_DIR \<or> ofs mod of_nat SZDIRE \<noteq> 0 then Some (FR_INT_ERR, dp, s)
      else do {
        let dp = dp\<lparr>dptr := ofs\<rparr>;
        let clst = sclust (dobj dp);
        let clst = (if clst = 0 \<and> fs_type s \<ge> FS_FAT32 then dirbase s else clst);
        if clst = 0 then
          if ofs div of_nat SZDIRE \<ge> ucast (n_rootdir s) then Some (FR_INT_ERR, dp, s)
          else do {
            let (res, dp) = dir_sdi_set dp clst (dirbase s) ofs;
            Some (res, dp, s)
          }
        else do {
          let csz = ucast (csize s) * SS;
          (r, s) \<leftarrow> dir_sdi_loop s csz clst ofs;
          case r of
            Inl res \<Rightarrow> Some (res, dp, s)
          | Inr (clst, ofs) \<Rightarrow> do {
              let (res, dp) = dir_sdi_set dp clst (clst2sect s clst) ofs;
              Some (res, dp, s)
            }
        }
      })"

text \<open>The end of \<open>dir_next\<close>: the current entry is the one at \<open>ofs\<close>.\<close>

definition dir_next_set :: "DIR \<Rightarrow> DWORD \<Rightarrow> DIR" where
  "dir_next_set dp ofs = dp\<lparr>dptr := ofs, dir := unat (ofs mod SS)\<rparr>"

text \<open>The step of \<open>dir_next\<close> to the next cluster, stretching the table if it is asked to.\<close>

definition dir_next_clust ::
    "vol \<Rightarrow> DIR \<Rightarrow> bool \<Rightarrow> (FRESULT \<times> DIR \<times> vol) option" where
  "dir_next_clust s dp stretch = do {
     (clst, s) \<leftarrow> get_fat s (clust dp);
     if clst \<le> 1 then Some (FR_INT_ERR, dp, s)
     else if clst = 0xFFFFFFFF then Some (FR_DISK_ERR, dp, s)
     else if clst \<ge> n_fatent s then
       if \<not> stretch then Some (FR_NO_FILE, dp\<lparr>sect := 0\<rparr>, s)
       else do {
         (clst, s) \<leftarrow> create_chain s (clust dp);
         if clst = 0 then Some (FR_DENIED, dp, s)
         else if clst = 1 then Some (FR_INT_ERR, dp, s)
         else if clst = 0xFFFFFFFF then Some (FR_DISK_ERR, dp, s)
         else do {
           (res, s) \<leftarrow> dir_clear s clst;
           if res \<noteq> FR_OK then Some (FR_DISK_ERR, dp, s)
           else Some (FR_OK, dp\<lparr>clust := clst, sect := clst2sect s clst\<rparr>, s)
         }
       }
     else Some (FR_OK, dp\<lparr>clust := clst, sect := clst2sect s clst\<rparr>, s)
   }"

definition dir_next :: "vol \<Rightarrow> DIR \<Rightarrow> bool \<Rightarrow> (FRESULT \<times> DIR \<times> vol) option" where
  "dir_next s dp stretch = do {
     let ofs = dptr dp + of_nat SZDIRE;
     let dp = (if ofs \<ge> MAX_DIR then dp\<lparr>sect := 0\<rparr> else dp);
     if sect dp = 0 then Some (FR_NO_FILE, dp, s)
     else if ofs mod SS = 0 then do {
       let dp = dp\<lparr>sect := sect dp + 1\<rparr>;
       if clust dp = 0 then
         if ofs div of_nat SZDIRE \<ge> ucast (n_rootdir s) then Some (FR_NO_FILE, dp\<lparr>sect := 0\<rparr>, s)
         else Some (FR_OK, dir_next_set dp ofs, s)
       else if (ofs div SS) AND (ucast (csize s) - 1) = 0 then do {
         (res, dp, s) \<leftarrow> dir_next_clust s dp stretch;
         if res \<noteq> FR_OK then Some (res, dp, s) else Some (FR_OK, dir_next_set dp ofs, s)
       }
       else Some (FR_OK, dir_next_set dp ofs, s)
     }
     else Some (FR_OK, dir_next_set dp ofs, s)
   }"

partial_function (option) dir_alloc_loop ::
    "vol \<Rightarrow> DIR \<Rightarrow> UINT \<Rightarrow> UINT \<Rightarrow> (FRESULT \<times> DIR \<times> vol) option" where
  "dir_alloc_loop s dp n n_ent = do {
     (res, s) \<leftarrow> move_window s (sect dp);
     if res \<noteq> FR_OK then Some (res, dp, s)
     else do {
       b \<leftarrow> ldb (win s) (dir dp + DIR_Name);
       let n = (if b = DDEM \<or> b = 0 then n + 1 else 0);
       if (b = DDEM \<or> b = 0) \<and> n = n_ent then Some (res, dp, s)
       else do {
         (res, dp, s) \<leftarrow> dir_next s dp True;
         if res = FR_OK then dir_alloc_loop s dp n n_ent else Some (res, dp, s)
       }
     }
   }"

declare dir_alloc_loop.simps [code]

definition dir_alloc :: "vol \<Rightarrow> DIR \<Rightarrow> UINT \<Rightarrow> (FRESULT \<times> DIR \<times> vol) option" where
  "dir_alloc s dp n_ent = do {
     (res, dp, s) \<leftarrow> dir_sdi s dp 0;
     (res, dp, s) \<leftarrow> (if res = FR_OK then dir_alloc_loop s dp 0 n_ent else Some (res, dp, s));
     Some (if res = FR_NO_FILE then FR_DENIED else res, dp, s)
   }"

definition ld_clust :: "'a FATFS_scheme \<Rightarrow> buffer \<Rightarrow> nat \<Rightarrow> DWORD option" where
  "ld_clust fs b p = do {
     lo \<leftarrow> ld_word b (p + DIR_FstClusLO);
     let cl = (ucast lo :: DWORD);
     if fs_type fs = FS_FAT32 then do {
       hi \<leftarrow> ld_word b (p + DIR_FstClusHI);
       Some (cl OR push_bit 16 (ucast hi))
     } else Some cl
   }"

definition st_clust :: "'a FATFS_scheme \<Rightarrow> buffer \<Rightarrow> nat \<Rightarrow> DWORD \<Rightarrow> buffer option" where
  "st_clust fs b p cl = do {
     b \<leftarrow> st_word b (p + DIR_FstClusLO) (ucast cl);
     if fs_type fs = FS_FAT32 then st_word b (p + DIR_FstClusHI) (ucast (drop_bit 16 cl))
     else Some b
   }"

text \<open>\<open>vol\<close> selects volume labels, otherwise files and directories.\<close>

partial_function (option) dir_read_loop ::
    "vol \<Rightarrow> DIR \<Rightarrow> bool \<Rightarrow> FRESULT \<Rightarrow> (FRESULT \<times> DIR \<times> vol) option" where
  "dir_read_loop s dp vl res =
     (if sect dp \<noteq> 0 then do {
        (res, s) \<leftarrow> move_window s (sect dp);
        if res \<noteq> FR_OK then Some (res, dp, s)
        else do {
          b \<leftarrow> ldb (win s) (dir dp + DIR_Name);
          if b = 0 then Some (FR_NO_FILE, dp, s)
          else do {
            a \<leftarrow> ldb (win s) (dir dp + DIR_Attr);
            let a = a AND AM_MASK;
            let dp = dp\<lparr>dobj := (dobj dp)\<lparr>attr := a\<rparr>\<rparr>;
            if b \<noteq> DDEM \<and> b \<noteq> 0x2E \<and> a \<noteq> AM_LFN \<and> ((a AND NOT AM_ARC) = AM_VOL) = vl
            then Some (res, dp, s)
            else do {
              (res, dp, s) \<leftarrow> dir_next s dp False;
              if res \<noteq> FR_OK then Some (res, dp, s) else dir_read_loop s dp vl res
            }
          }
        }
      } else Some (res, dp, s))"

declare dir_read_loop.simps [code]

definition dir_read :: "vol \<Rightarrow> DIR \<Rightarrow> bool \<Rightarrow> (FRESULT \<times> DIR \<times> vol) option" where
  "dir_read s dp vl = do {
     (res, dp, s) \<leftarrow> dir_read_loop s dp vl FR_NO_FILE;
     Some (res, if res \<noteq> FR_OK then dp\<lparr>sect := 0\<rparr> else dp, s)
   }"

partial_function (option) dir_find_loop :: "vol \<Rightarrow> DIR \<Rightarrow> (FRESULT \<times> DIR \<times> vol) option" where
  "dir_find_loop s dp = do {
     (res, s) \<leftarrow> move_window s (sect dp);
     if res \<noteq> FR_OK then Some (res, dp, s)
     else do {
       c \<leftarrow> ldb (win s) (dir dp + DIR_Name);
       if c = 0 then Some (FR_NO_FILE, dp, s)
       else do {
         a \<leftarrow> ldb (win s) (dir dp + DIR_Attr);
         let dp = dp\<lparr>dobj := (dobj dp)\<lparr>attr := a AND AM_MASK\<rparr>\<rparr>;
         name \<leftarrow> memread (win s) (dir dp) 11;
         pat \<leftarrow> memread (fn dp) 0 11;
         if a AND AM_VOL = 0 \<and> name = pat then Some (res, dp, s)
         else do {
           (res, dp, s) \<leftarrow> dir_next s dp False;
           if res = FR_OK then dir_find_loop s dp else Some (res, dp, s)
         }
       }
     }
   }"

declare dir_find_loop.simps [code]

definition dir_find :: "vol \<Rightarrow> DIR \<Rightarrow> (FRESULT \<times> DIR \<times> vol) option" where
  "dir_find s dp = do {
     (res, dp, s) \<leftarrow> dir_sdi s dp 0;
     if res \<noteq> FR_OK then Some (res, dp, s) else dir_find_loop s dp
   }"

definition dir_register :: "vol \<Rightarrow> DIR \<Rightarrow> (FRESULT \<times> DIR \<times> vol) option" where
  "dir_register s dp = do {
     (res, dp, s) \<leftarrow> dir_alloc s dp 1;
     if res = FR_OK then do {
       (res, s) \<leftarrow> move_window s (sect dp);
       if res = FR_OK then do {
         b \<leftarrow> memset (win s) (dir dp) 0 SZDIRE;
         name \<leftarrow> memread (fn dp) 0 11;
         b \<leftarrow> memwrite b (dir dp + DIR_Name) name;
         Some (res, dp, s\<lparr>win := b, wflag := 1\<rparr>)
       } else Some (res, dp, s)
     } else Some (res, dp, s)
   }"

definition dir_remove :: "vol \<Rightarrow> DIR \<Rightarrow> (FRESULT \<times> vol) option" where
  "dir_remove s dp = do {
     (res, s) \<leftarrow> move_window s (sect dp);
     if res = FR_OK then do {
       b \<leftarrow> stb (win s) (dir dp + DIR_Name) DDEM;
       Some (res, s\<lparr>win := b, wflag := 1\<rparr>)
     } else Some (res, s)
   }"

text \<open>The loop of \<open>get_fileinfo\<close> that turns the padded name into a string: \<open>si\<close> counts the
  bytes of the entry, \<open>di\<close> those of \<open>fno->fname\<close>, an array of 13 characters.\<close>

fun fileinfo_name :: "buffer \<Rightarrow> nat \<Rightarrow> nat \<Rightarrow> nat \<Rightarrow> nat \<Rightarrow> buffer \<Rightarrow> (nat \<times> buffer) option" where
  "fileinfo_name w p 0 si di f = Some (di, f)"
| "fileinfo_name w p (Suc k) si di f = do {
     c \<leftarrow> ldb w (p + si);
     let si = si + 1;
     if c = 0x20 then fileinfo_name w p k si di f
     else do {
       let c = (if c = RDDEM then DDEM else c);
       (di, f) \<leftarrow> (if si = 9 then do { f \<leftarrow> stb f di 0x2E; Some (di + 1, f) } else Some (di, f));
       f \<leftarrow> stb f di c;
       fileinfo_name w p k si (di + 1) f
     }
   }"

definition get_fileinfo :: "vol \<Rightarrow> DIR \<Rightarrow> FILINFO \<Rightarrow> FILINFO option" where
  "get_fileinfo s dp fno = do {
     f \<leftarrow> stb (fname fno) 0 0;
     let fno = fno\<lparr>fname := f\<rparr>;
     if sect dp = 0 then Some fno
     else do {
       (di, f) \<leftarrow> fileinfo_name (win s) (dir dp) 11 0 0 (fname fno);
       f \<leftarrow> stb f di 0;
       a \<leftarrow> ldb (win s) (dir dp + DIR_Attr);
       sz \<leftarrow> ld_dword (win s) (dir dp + DIR_FileSize);
       t \<leftarrow> ld_word (win s) (dir dp + DIR_ModTime);
       dt \<leftarrow> ld_word (win s) (dir dp + DIR_ModTime + 2);
       Some (fno\<lparr>fname := f, fattrib := a AND AM_MASK, fno_fsize := sz, ftime := t, fdate := dt\<rparr>)
     }
   }"

section \<open>Rules\<close>

text \<open>A directory object that points at an entry: inside the window, at a multiple of the
  entry size, below the largest directory.\<close>

definition dok :: "DIR \<Rightarrow> bool" where
  "dok dp \<longleftrightarrow> length (fn dp) = 12 \<and> dir dp \<le> 480 \<and> unat (dptr dp) < 0x200000 \<and>
     32 dvd unat (dptr dp)"

lemma csize_bytes: "unat (ucast (c :: WORD) * 512 :: DWORD) = unat c * 512"
proof -
  have "unat c * 512 < 4294967296" using unat_16_less [of c] by linarith
  then show ?thesis by (simp add: unat_word_ariths unat_ucast_up)
qed

lemma dir_sdi_loop_wp:
  assumes "good s0 s" "csz \<noteq> 0" "32 dvd unat csz" "32 dvd unat ofs"
  shows "wp (dir_sdi_loop s csz clst ofs) (\<lambda>(r, s'). good s0 s' \<and> r \<noteq> Inl FR_OK \<and>
           (\<forall>clst' ofs'. r = Inr (clst', ofs') \<longrightarrow> 32 dvd unat ofs'))"
  using assms
proof (induction "unat ofs" arbitrary: s clst ofs rule: less_induct)
  case less
  have IH: "wp (dir_sdi_loop s' csz c (ofs - csz)) (\<lambda>(r, s'). good s0 s' \<and> r \<noteq> Inl FR_OK \<and>
           (\<forall>clst' ofs'. r = Inr (clst', ofs') \<longrightarrow> 32 dvd unat ofs'))"
    if "good s s'" "csz \<le> ofs" for s' c
  proof (rule less.hyps)
    have e: "unat (ofs - csz) = unat ofs - unat csz" using that(2) by (rule unat_sub)
    have "unat csz > 0" using less.prems(2) by (simp add: unat_gt_0)
    then show "unat (ofs - csz) < unat ofs" using that(2) by (simp add: e word_le_nat_alt)
    show "32 dvd unat (ofs - csz)" using less.prems(3,4) by (simp add: e dvd_diff_nat)
    show "good s0 s'" using less.prems(1) that(1) by (rule good_trans)
  qed (use less.prems in auto)
  show ?case
    using less.prems goodD(1) [OF less.prems(1)]
    by (subst dir_sdi_loop.simps) (auto simp: wp_simps intro!: get_fat_wp IH intro: good_trans)
qed

lemma dvd_mod_480:
  assumes "32 dvd n" shows "n mod 512 \<le> (480::nat)"
proof -
  from assms obtain k where "n = 32 * k" by (elim dvdE)
  then have "n mod 512 = 32 * (k mod 16)" by (simp add: mult_mod_right)
  then show ?thesis by simp
qed

lemma dir_sdi_set_ok:
  assumes "dir_sdi_set dp c sec ofs = (r, dp')" "32 dvd unat ofs" "unat (dptr dp) < 0x200000"
    "32 dvd unat (dptr dp)" "length (fn dp) = 12"
  shows "fn dp' = fn dp" "dobj dp' = dobj dp" "dptr dp' = dptr dp" "r = FR_OK \<Longrightarrow> dok dp'"
  using assms(1,3-) dvd_mod_480 [OF assms(2)]
  by (auto simp: dir_sdi_set_def dok_def Let_def unat_mod split: if_splits)

lemma dir_sdi_wp [wp_intros]:
  assumes "vok s" "csize s \<noteq> 0" "length (fn dp) = 12"
    and Q: "\<And>r dp' s'. \<lbrakk>good s s'; fn dp' = fn dp; dobj dp' = dobj dp;
            r = FR_OK \<longrightarrow> dok dp' \<and> dptr dp' = ofs\<rbrakk> \<Longrightarrow> Q (r, dp', s')"
  shows "wp (dir_sdi s dp ofs) Q"
proof (cases "ofs \<ge> 0x200000 \<or> ofs mod 32 \<noteq> 0")
  case True
  then show ?thesis using assms by (auto simp: dir_sdi_def)
next
  case False
  then have o: "32 dvd unat ofs" "unat ofs < 0x200000"
    by (auto simp: word_unat_eq_iff word_le_nat_alt unat_mod dvd_eq_mod_eq_0)
  have csz: "ucast (csize s) * 512 \<noteq> (0 :: DWORD)" "32 dvd unat (ucast (csize s) * 512 :: DWORD)"
    using assms(2) by (auto simp: word_unat_eq_iff csize_bytes)
  have sdi: "wp (dir_sdi_loop s (ucast (csize s) * 512) c ofs) P"
    if "\<And>r s'. \<lbrakk>good s s'; r \<noteq> Inl FR_OK; \<And>c' o'. r = Inr (c', o') \<Longrightarrow> 32 dvd unat o'\<rbrakk> \<Longrightarrow> P (r, s')"
    for c P
    using dir_sdi_loop_wp [OF _ csz o(1), of s s c] assms(1) that by (force elim!: wp_mono)
  note set = dir_sdi_set_ok [of "dp\<lparr>dptr := ofs\<rparr>"]
  show ?thesis
    unfolding dir_sdi_def using False assms(1,3) o
    by (auto simp: wp_simps Let_def split: sum.splits intro!: sdi Q dest: set)
qed

lemma dir_clear_loop_wp:
  assumes "length (win s) = 512" "wflag s = 0" "winsect s = sector" "n \<noteq> 0 \<Longrightarrow> vok s"
    "n \<le> ucast (csize s)" "geo s = geo s0" "csize s \<noteq> 0"
  shows "wp (dir_clear_loop s sector n) (\<lambda>(n', s'). good s0 s')"
  using assms
proof (induction "unat (csize s) - unat n" arbitrary: s n rule: less_induct)
  case less
  show ?case
  proof (cases "n < ucast (csize s)")
    case False
    moreover have "unat (csize s) \<noteq> 0" using less.prems(7) by (simp add: unat_gt_0)
    ultimately have "n \<noteq> 0" by (auto simp: word_less_nat_alt unat_ucast_up)
    then show ?thesis using False less.prems
      by (subst dir_clear_loop.simps) (auto simp: good_def)
  next
    case True
    then have n: "unat n < unat (csize s)" by (simp add: word_less_nat_alt unat_ucast_up)
    have u: "unat (n + 1) = unat n + 1" using True by (rule unat_Suc_less)
    show ?thesis
    proof (cases "unat (sector + n) < 128")
      case False
      then have "good s0 s"
        using less.prems by (cases "n = 0") (auto simp: good_def vok_def coh_def)
      then show ?thesis using True False less.prems
        by (subst dir_clear_loop.simps) (auto simp: disk_write_1)
    next
      case b: True
      let ?s = "s\<lparr>vdisk := disk_store (vdisk s) (unat (sector + n) * 512) (win s)\<rparr>"
      have v: "vok ?s"
      proof (cases "n = 0")
        case True
        then show ?thesis using less.prems by (simp add: vok_def coh_def)
      next
        case False
        then have "unat (sector + n) \<noteq> unat sector" by (simp add: word_unat_eq_iff [symmetric])
        then show ?thesis using less.prems(4) [OF False] less.prems(1-3) by (simp add: vok_def coh_def)
      qed
      have "wp (dir_clear_loop ?s sector (n + 1)) (\<lambda>(n', s'). good s0 s')"
        using less.prems n u v by (intro less.hyps) (auto simp: geo_def word_le_nat_alt unat_ucast_up)
      then show ?thesis using True b less.prems
        by (subst dir_clear_loop.simps) (simp add: disk_write_1)
    qed
  qed
qed

lemma dir_clear_wp [wp_intros]:
  assumes "vok s" "csize s \<noteq> 0" "\<And>r s'. good s s' \<Longrightarrow> Q (r, s')"
  shows "wp (dir_clear s clst) Q"
proof -
  have l: "wp (dir_clear_loop (s'\<lparr>winsect := n, win := replicate 512 0\<rparr>) n 0) P"
    if "good s s'" "wflag s' = 0" "\<And>k s''. good s s'' \<Longrightarrow> P (k, s'')" for s' n P
  proof -
    have "wp (dir_clear_loop (s'\<lparr>winsect := n, win := replicate 512 0\<rparr>) n 0) (\<lambda>(k, s''). good s s'')"
      using that(1,2) assms(2) by (intro dir_clear_loop_wp) (auto simp: frame_simps)
    then show ?thesis by (rule wp_mono) (auto intro!: that(3))
  qed
  show ?thesis
    unfolding dir_clear_def using assms(1)
    by (auto simp: wp_simps Let_def goodD(1) intro!: sync_window_wp l assms(3))
qed

lemma dok_len [simp]: "dok dp \<Longrightarrow> length (fn dp) = 12"
  by (simp add: dok_def)

lemma dok_dir: "dok dp \<Longrightarrow> dir dp \<le> 480"
  by (simp add: dok_def)

lemma dir_next_wp [wp_intros]:
  assumes "vok s" "csize s \<noteq> 0" "3 \<le> n_fatent s" "dok dp"
    and Q: "\<And>r dp' s'. \<lbrakk>good s s'; fn dp' = fn dp; dobj dp' = dobj dp; dok dp';
            r = FR_OK \<longrightarrow> unat (dptr dp') = unat (dptr dp) + 32\<rbrakk> \<Longrightarrow> Q (r, dp', s')"
  shows "wp (dir_next s dp stretch) Q"
proof -
  have d: "unat (dptr dp + 32) = unat (dptr dp) + 32" "32 dvd unat (dptr dp) + 32"
    using assms(4) by (auto simp: dok_def unat_word_ariths)
  have st: "dok (dir_next_set dp' (dptr dp + 32))" "unat (dptr (dir_next_set dp' (dptr dp + 32))) = unat (dptr dp) + 32"
    if "\<not> 0x200000 \<le> dptr dp + 32" "length (fn dp') = 12" for dp'
    using that d dvd_mod_480 [OF d(2)] by (auto simp: dir_next_set_def dok_def unat_mod word_le_nat_alt)
  have fs: "fn (dir_next_set dp' o') = fn dp'" "dobj (dir_next_set dp' o') = dobj dp'" for dp' o'
    by (simp_all add: dir_next_set_def)
  have cl: "wp (dir_next_clust s dp' stretch) P"
    if "\<And>r dp'' s'. \<lbrakk>good s s'; fn dp'' = fn dp'; dobj dp'' = dobj dp'; dptr dp'' = dptr dp'; dir dp'' = dir dp'\<rbrakk>
       \<Longrightarrow> P (r, dp'', s')" for dp' P
    unfolding dir_next_clust_def using assms(1-3)
    by (auto simp: wp_simps frame_simps intro!: get_fat_wp create_chain_wp dir_clear_wp that)
  have dk: "dok dp'" if "fn dp' = fn dp" "dptr dp' = dptr dp" "dir dp' = dir dp" for dp'
    using that assms(4) by (simp add: dok_def)
  show ?thesis
    unfolding dir_next_def using assms(1,4)
    by (auto simp: wp_simps Let_def fs st intro!: cl Q intro: dk)
qed

text \<open>The loops over a directory: the position grows with every entry.\<close>

lemma dok_attr [simp]: "dok (dp\<lparr>dobj := x\<rparr>) = dok dp"
  by (simp add: dok_def)

lemma dir_left: "dok dp \<Longrightarrow> unat (dptr dp') = unat (dptr dp) + 32 \<Longrightarrow>
    0x200000 - unat (dptr dp') < 0x200000 - unat (dptr dp)"
  by (auto simp: dok_def)

text \<open>The members of a directory object that a walk leaves alone.\<close>

definition dsame :: "DIR \<Rightarrow> DIR \<Rightarrow> bool" where
  "dsame dp dp' \<longleftrightarrow> fn dp' = fn dp \<and> (dobj dp')\<lparr>attr := 0\<rparr> = (dobj dp)\<lparr>attr := 0\<rparr>"

lemma dsame_simps:
  "dsame dp dp" "dsame dp dp' \<Longrightarrow> dsame dp' dp'' \<Longrightarrow> dsame dp dp''"
  "fn dp' = fn dp \<Longrightarrow> dobj dp' = dobj dp \<Longrightarrow> dsame dp dp'"
  "dsame dp (dp'\<lparr>dobj := (dobj dp')\<lparr>attr := a\<rparr>\<rparr>) = dsame dp dp'"
  "dsame dp (dp'\<lparr>sect := n\<rparr>) = dsame dp dp'"
  by (simp_all add: dsame_def)

definition walk :: "vol \<Rightarrow> DIR \<Rightarrow> vol \<Rightarrow> DIR \<Rightarrow> bool" where
  "walk s dp s' dp' \<longleftrightarrow> good s s' \<and> dsame dp dp' \<and> dok dp' \<and> csize s' \<noteq> 0 \<and> 3 \<le> n_fatent s'"

lemma walk_step:
  assumes "walk s0 dp0 s dp" "vok s" "dok dp"
    and "\<And>r dp' s'. \<lbrakk>walk s0 dp0 s' dp'; r = FR_OK \<longrightarrow> unat (dptr dp') = unat (dptr dp) + 32\<rbrakk>
      \<Longrightarrow> Q (r, dp', s')"
  shows "wp (dir_next s dp stretch) Q"
  using assms(1-3) by (auto simp: walk_def frame_simps dsame_def intro!: dir_next_wp assms(4))

lemma walk_move:
  assumes "walk s0 dp0 s dp" 
    and "\<And>r s'. walk s0 dp0 s' dp \<Longrightarrow> length (win s') = 512 \<Longrightarrow> vok s' \<Longrightarrow> Q (r, s')"
  shows "wp (move_window s n) Q"
  using assms(1) by (auto simp: walk_def frame_simps intro!: move_window_wp assms(2))

lemma walk_dok: "walk s0 dp0 s dp \<Longrightarrow> dok dp"
  by (simp add: walk_def)

lemma dir_alloc_loop_wp:
  assumes "walk s0 dp0 s dp"
  shows "wp (dir_alloc_loop s dp n n_ent) (\<lambda>(r, dp', s'). walk s0 dp0 s' dp')"
  using assms
proof (induction "0x200000 - unat (dptr dp)" arbitrary: s dp n rule: less_induct)
  case less
  have d: "dok dp" using less.prems by (rule walk_dok)
  have IH: "wp (dir_alloc_loop s' dp' n' n_ent) (\<lambda>(r, dp', s'). walk s0 dp0 s' dp')"
    if "walk s0 dp0 s' dp'" "unat (dptr dp') = unat (dptr dp) + 32" for s' dp' n'
    using that by (intro less.hyps dir_left [OF d])
  show ?case
    using less.prems d dok_dir [OF d]
    by (subst dir_alloc_loop.simps)
      (auto simp: wp_simps Let_def intro!: walk_move [OF less.prems] walk_step IH)
qed

lemma dir_read_loop_wp:
  assumes "walk s0 dp0 s dp"
  shows "wp (dir_read_loop s dp vl res) (\<lambda>(r, dp', s'). walk s0 dp0 s' dp')"
  using assms
proof (induction "0x200000 - unat (dptr dp)" arbitrary: s dp res rule: less_induct)
  case less
  have d: "dok dp" using less.prems by (rule walk_dok)
  have IH: "wp (dir_read_loop s' dp' vl r) (\<lambda>(r, dp', s'). walk s0 dp0 s' dp')"
    if "walk s0 dp0 s' dp'" "unat (dptr dp') = unat (dptr dp) + 32" for s' dp' r
    using that by (intro less.hyps dir_left [OF d])
  have at: "walk s0 dp0 s' (dp\<lparr>dobj := (dobj dp)\<lparr>attr := a\<rparr>\<rparr>)" if "walk s0 dp0 s' dp" for s' a
    using that by (simp add: walk_def dsame_simps)
  show ?case
    using less.prems d dok_dir [OF d]
    by (subst dir_read_loop.simps)
      (auto simp: wp_simps Let_def at intro!: walk_move [OF less.prems] walk_step [OF at] IH)
qed

lemma dir_find_loop_wp:
  assumes "walk s0 dp0 s dp"
  shows "wp (dir_find_loop s dp) (\<lambda>(r, dp', s'). walk s0 dp0 s' dp')"
  using assms
proof (induction "0x200000 - unat (dptr dp)" arbitrary: s dp rule: less_induct)
  case less
  have d: "dok dp" using less.prems by (rule walk_dok)
  have IH: "wp (dir_find_loop s' dp') (\<lambda>(r, dp', s'). walk s0 dp0 s' dp')"
    if "walk s0 dp0 s' dp'" "unat (dptr dp') = unat (dptr dp) + 32" for s' dp'
    using that by (intro less.hyps dir_left [OF d])
  have at: "walk s0 dp0 s' (dp\<lparr>dobj := (dobj dp)\<lparr>attr := a\<rparr>\<rparr>)" if "walk s0 dp0 s' dp" for s' a
    using that by (simp add: walk_def dsame_simps)
  show ?case
    using less.prems d dok_dir [OF d] dok_len [OF d]
    by (subst dir_find_loop.simps)
      (auto simp: wp_simps Let_def at intro!: walk_move [OF less.prems] walk_step [OF at] IH)
qed

text \<open>The preconditions of the operations on directories.\<close>

definition vdir :: "vol \<Rightarrow> bool" where
  "vdir s \<longleftrightarrow> vok s \<and> csize s \<noteq> 0 \<and> 3 \<le> n_fatent s"

lemma vdir_good: "good s s' \<Longrightarrow> vdir s \<Longrightarrow> vdir s'"
  by (simp add: vdir_def frame_simps)

lemma walk_start: "vdir s \<Longrightarrow> good s s' \<Longrightarrow> dok dp' \<Longrightarrow> fn dp' = fn dp \<Longrightarrow> dobj dp' = dobj dp \<Longrightarrow> walk s dp s' dp'"
  by (simp add: walk_def frame_simps vdir_def dsame_simps)

lemma dir_alloc_wp [wp_intros]:
  assumes "vdir s" "length (fn dp) = 12"
    and Q: "\<And>r dp' s'. \<lbrakk>good s s'; dsame dp dp'; r = FR_OK \<longrightarrow> dok dp'\<rbrakk> \<Longrightarrow> Q (r, dp', s')"
  shows "wp (dir_alloc s dp n) Q"
proof -
  have lp: "wp (dir_alloc_loop s' dp' k n) P"
    if "good s s'" "dok dp'" "fn dp' = fn dp" "dobj dp' = dobj dp"
      "\<And>r dp'' s''. good s s'' \<Longrightarrow> dsame dp dp'' \<Longrightarrow> dok dp'' \<Longrightarrow> P (r, dp'', s'')" for s' dp' k P
    by (rule wp_mono [OF dir_alloc_loop_wp [OF walk_start [OF assms(1) that(1-4)]]])
      (auto simp: walk_def intro!: that(5))
  show ?thesis
    unfolding dir_alloc_def using assms(1,2)
    by (auto simp: wp_simps vdir_def dsame_simps intro!: dir_sdi_wp lp Q split: if_splits)
qed

lemma dir_read_wp [wp_intros]:
  assumes "vdir s" "dok dp"
    and Q: "\<And>r dp' s'. \<lbrakk>good s s'; dsame dp dp'; dok dp'\<rbrakk> \<Longrightarrow> Q (r, dp', s')"
  shows "wp (dir_read s dp vl) Q"
proof -
  have "wp (dir_read_loop s dp vl r) (\<lambda>(r, dp', s'). walk s dp s' dp')" for r
    using assms by (intro dir_read_loop_wp walk_start) (auto simp: vdir_def)
  then show ?thesis
    unfolding dir_read_def wp_bind
    by (rule wp_mono) (auto simp: walk_def dsame_simps dok_def intro!: Q)
qed

lemma dir_find_wp [wp_intros]:
  assumes "vdir s" "length (fn dp) = 12"
    and Q: "\<And>r dp' s'. \<lbrakk>good s s'; dsame dp dp'; r = FR_OK \<longrightarrow> dok dp'\<rbrakk> \<Longrightarrow> Q (r, dp', s')"
  shows "wp (dir_find s dp) Q"
proof -
  have lp: "wp (dir_find_loop s' dp') Q"
    if "good s s'" "dok dp'" "fn dp' = fn dp" "dobj dp' = dobj dp" for s' dp'
    by (rule wp_mono [OF dir_find_loop_wp [OF walk_start [OF assms(1) that]]])
      (auto simp: walk_def intro!: Q)
  show ?thesis
    unfolding dir_find_def using assms(1,2)
    by (auto simp: wp_simps vdir_def dsame_simps intro!: dir_sdi_wp lp Q)
qed

lemma dir_register_wp [wp_intros]:
  assumes "vdir s" "length (fn dp) = 12"
    and Q: "\<And>r dp' s'. \<lbrakk>good s s'; dsame dp dp'; r = FR_OK \<longrightarrow> dok dp'\<rbrakk> \<Longrightarrow> Q (r, dp', s')"
  shows "wp (dir_register s dp) Q"
  unfolding dir_register_def using assms(1,2)
  by (auto simp: wp_simps frame_simps dsame_def dest: dok_dir intro!: dir_alloc_wp move_window_wp Q)

lemma dir_remove_wp [wp_intros]:
  assumes "vok s" "dir dp \<le> 480" and Q: "\<And>r s'. good s s' \<Longrightarrow> Q (r, s')"
  shows "wp (dir_remove s dp) Q"
  unfolding dir_remove_def using assms(1,2)
  by (auto simp: wp_simps frame_simps intro!: move_window_wp Q)

lemma ld_clust_wp [wp_intros]:
  assumes "p + 28 \<le> length b" and Q: "\<And>v. ld_clust fs b p = Some v \<Longrightarrow> Q v"
  shows "wp (ld_clust fs b p) Q"
proof -
  have "wp (ld_clust fs b p) (\<lambda>_. True)"
    unfolding ld_clust_def using assms(1) by (auto simp: wp_simps Let_def intro!: ld_word_wp)
  then show ?thesis using Q by (auto simp: wp_def)
qed

lemma st_clust_wp [wp_intros]:
  assumes "p + 28 \<le> length b" and Q: "\<And>b'. length b' = length b \<Longrightarrow> st_clust fs b p c = Some b' \<Longrightarrow> Q b'"
  shows "wp (st_clust fs b p c) Q"
proof -
  have "wp (st_clust fs b p c) (\<lambda>b'. length b' = length b)"
    unfolding st_clust_def using assms(1) by (auto simp: wp_simps intro!: st_word_wp)
  then show ?thesis using Q by (auto simp: wp_def)
qed

lemma fileinfo_name_wp:
  assumes "p + si + k \<le> length w" "length f = 13" "di + k + (if si < 9 then 1 else 0) \<le> 12"
  shows "wp (fileinfo_name w p k si di f) (\<lambda>(di', f'). di' \<le> 12 \<and> length f' = 13)"
  using assms
proof (induction k arbitrary: si di f)
  case (Suc k)
  then show ?case
    by (auto simp: wp_simps Let_def split: if_splits)
qed auto

lemma get_fileinfo_wp [wp_intros]:
  assumes "length (win s) = 512" "dir dp \<le> 480" "length (fname fno) = 13"
    and Q: "\<And>f. length (fname f) = 13 \<Longrightarrow> Q f"
  shows "wp (get_fileinfo s dp fno) Q"
proof -
  have nm: "wp (fileinfo_name (win s) (dir dp) 11 0 0 f) P"
    if "length f = 13" "\<And>di f'. di \<le> 12 \<Longrightarrow> length f' = 13 \<Longrightarrow> P (di, f')" for f P
    by (rule wp_mono [OF fileinfo_name_wp]) (use assms that in auto)
  show ?thesis
    unfolding get_fileinfo_def using assms(1-3)
    by (auto simp: wp_simps Let_def intro!: nm ld_word_wp ld_dword_wp Q)
qed
end
