(* ===== verification/FF_Path.thy ===== *)
theory FF_Path
  imports FF_Dir
begin

text \<open>
  Path names: \<open>create_name\<close> (one segment of a path to the 8.3 form of a directory entry),
  \<open>follow_path\<close>, and the drive prefix, \<open>get_ldnumber\<close>.

  A path is the list of bytes from the pointer to the end of the string object; reading
  beyond it is \<open>None\<close>.  C leaves open whether \<open>char\<close> is signed (it is on the x86 host of the
  fuzzing harness, it is not on the RISC-V target); the one comparison in \<open>create_name\<close>
  that depends on it takes the choice as the argument \<open>sc\<close>.
\<close>

section \<open>Characters\<close>

definition IsLower :: "BYTE \<Rightarrow> bool" where
  "IsLower c \<longleftrightarrow> c \<ge> 0x61 \<and> c \<le> 0x7A"

definition IsDigit :: "BYTE \<Rightarrow> bool" where
  "IsDigit c \<longleftrightarrow> c \<ge> 0x30 \<and> c \<le> 0x39"

definition IsSeparator :: "BYTE \<Rightarrow> bool" where
  "IsSeparator c \<longleftrightarrow> c = 0x2F \<or> c = 0x5C"

definition IsTerminator :: "BYTE \<Rightarrow> bool" where
  "IsTerminator c \<longleftrightarrow> c < 0x21"

text \<open>The comparison \<open>c <= ' '\<close> for \<open>c\<close> of type \<open>char\<close>.\<close>

definition char_le_space :: "bool \<Rightarrow> BYTE \<Rightarrow> bool" where
  "char_le_space sc c \<longleftrightarrow> (if sc then sint c \<le> 32 else uint c \<le> 32)"

definition TBL_CT437 :: buffer where
  "TBL_CT437 =
    [0x80,0x9A,0x45,0x41,0x8E,0x41,0x8F,0x80,0x45,0x45,0x45,0x49,0x49,0x49,0x8E,0x8F,
     0x90,0x92,0x92,0x4F,0x99,0x4F,0x55,0x55,0x59,0x99,0x9A,0x9B,0x9C,0x9D,0x9E,0x9F,
     0x41,0x49,0x4F,0x55,0xA5,0xA5,0xA6,0xA7,0xA8,0xA9,0xAA,0xAB,0xAC,0xAD,0xAE,0xAF,
     0xB0,0xB1,0xB2,0xB3,0xB4,0xB5,0xB6,0xB7,0xB8,0xB9,0xBA,0xBB,0xBC,0xBD,0xBE,0xBF,
     0xC0,0xC1,0xC2,0xC3,0xC4,0xC5,0xC6,0xC7,0xC8,0xC9,0xCA,0xCB,0xCC,0xCD,0xCE,0xCF,
     0xD0,0xD1,0xD2,0xD3,0xD4,0xD5,0xD6,0xD7,0xD8,0xD9,0xDA,0xDB,0xDC,0xDD,0xDE,0xDF,
     0xE0,0xE1,0xE2,0xE3,0xE4,0xE5,0xE6,0xE7,0xE8,0xE9,0xEA,0xEB,0xEC,0xED,0xEE,0xEF,
     0xF0,0xF1,0xF2,0xF3,0xF4,0xF5,0xF6,0xF7,0xF8,0xF9,0xFA,0xFB,0xFC,0xFD,0xFE,0xFF]"

abbreviation (input) ExCvt :: buffer where "ExCvt \<equiv> TBL_CT437"

text \<open>With a single-byte code page no byte starts or continues a double-byte character.\<close>

definition dbc_1st :: "BYTE \<Rightarrow> bool" where
  "dbc_1st c = (if c \<noteq> 0 then False else False)"

definition dbc_2nd :: "BYTE \<Rightarrow> bool" where
  "dbc_2nd c = (if c \<noteq> 0 then False else False)"

text \<open>The characters refused in a short name: those of \<open>strchr\<close>'s string and its terminator.\<close>

definition sfn_illegal :: "BYTE \<Rightarrow> bool" where
  "sfn_illegal c \<longleftrightarrow>
     c \<in> set [0x2A,0x2B,0x2C,0x3A,0x3B,0x3C,0x3D,0x3E,0x5B,0x5D,0x7C,0x22,0x3F,0x7F,0]"

section \<open>Names\<close>

partial_function (option) skip_separators :: "buffer \<Rightarrow> nat \<Rightarrow> nat option" where
  "skip_separators p si = do {
     c \<leftarrow> ldb p si;
     if IsSeparator c then skip_separators p (si + 1) else Some si
   }"

declare skip_separators.simps [code]

text \<open>The \<open>for\<close> loop of \<open>create_name\<close>: \<open>None\<close> in the first component of the result is the
  return of \<open>FR_INVALID_NAME\<close> from inside the loop, otherwise it holds the last character
  read, the read index and the write index; the second component is the name buffer.\<close>

partial_function (option) create_name_loop ::
    "buffer \<Rightarrow> nat \<Rightarrow> nat \<Rightarrow> nat \<Rightarrow> buffer \<Rightarrow> ((BYTE \<times> nat \<times> nat) option \<times> buffer) option" where
  "create_name_loop p si i ni sfn = do {
     c \<leftarrow> ldb p si;
     let si = si + 1;
     if c \<le> 0x20 then Some (Some (c, si, i), sfn)
     else if IsSeparator c then do {
       si \<leftarrow> skip_separators p si;
       Some (Some (c, si, i), sfn)
     }
     else if c = 0x2E \<or> i \<ge> ni then
       if ni = 11 \<or> c \<noteq> 0x2E then Some (None, sfn)
       else create_name_loop p si 8 11 sfn
     else do {
       c \<leftarrow> (if c \<ge> 0x80 then ldb ExCvt (unat (c AND 0x7F)) else Some c);
       if dbc_1st c then do {
         d \<leftarrow> ldb p si;
         let si = si + 1;
         if \<not> dbc_2nd d \<or> i \<ge> ni - 1 then Some (None, sfn)
         else do {
           sfn \<leftarrow> stb sfn i c;
           sfn \<leftarrow> stb sfn (i + 1) d;
           create_name_loop p si (i + 2) ni sfn
         }
       }
       else if sfn_illegal c then Some (None, sfn)
       else do {
         let c = (if IsLower c then c - 0x20 else c);
         sfn \<leftarrow> stb sfn i c;
         create_name_loop p si (i + 1) ni sfn
       }
     }
   }"

declare create_name_loop.simps [code]

text \<open>\<open>create_name\<close> returns the result code, the directory object with the name in \<open>fn\<close>, and
  the path moved behind the segment.\<close>

definition create_name :: "bool \<Rightarrow> DIR \<Rightarrow> buffer \<Rightarrow> (FRESULT \<times> DIR \<times> buffer) option" where
  "create_name sc dp p = do {
     sfn \<leftarrow> memset (fn dp) 0 0x20 11;
     (r, sfn) \<leftarrow> create_name_loop p 0 0 8 sfn;
     case r of
       None \<Rightarrow> Some (FR_INVALID_NAME, dp\<lparr>fn := sfn\<rparr>, p)
     | Some (c, si, i) \<Rightarrow>
         if i = 0 then Some (FR_INVALID_NAME, dp\<lparr>fn := sfn\<rparr>, drop si p)
         else do {
           c0 \<leftarrow> ldb sfn 0;
           sfn \<leftarrow> (if c0 = DDEM then stb sfn 0 RDDEM else Some sfn);
           last \<leftarrow> (if c \<le> 0x20 then Some True else do { q \<leftarrow> ldb p si; Some (char_le_space sc q) });
           sfn \<leftarrow> stb sfn NSFLAG (if last then NS_LAST else 0);
           Some (FR_OK, dp\<lparr>fn := sfn\<rparr>, drop si p)
         }
   }"

section \<open>Paths\<close>

partial_function (option) follow_path_loop ::
    "bool \<Rightarrow> vol \<Rightarrow> DIR \<Rightarrow> buffer \<Rightarrow> (FRESULT \<times> DIR \<times> vol) option" where
  "follow_path_loop sc s dp path = do {
     (res, dp, path) \<leftarrow> create_name sc dp path;
     if res \<noteq> FR_OK then Some (res, dp, s)
     else do {
       (res, dp, s) \<leftarrow> dir_find s dp;
       ns \<leftarrow> ldb (fn dp) NSFLAG;
       if res \<noteq> FR_OK then
         Some (if res = FR_NO_FILE \<and> ns AND NS_LAST = 0 then FR_NO_PATH else res, dp, s)
       else if ns AND NS_LAST \<noteq> 0 then Some (res, dp, s)
       else if attr (dobj dp) AND AM_DIR = 0 then Some (FR_NO_PATH, dp, s)
       else do {
         cl \<leftarrow> ld_clust s (win s) (unat (dptr dp mod SS));
         follow_path_loop sc s (dp\<lparr>dobj := (dobj dp)\<lparr>sclust := cl\<rparr>\<rparr>) path
       }
     }
   }"

declare follow_path_loop.simps [code]

definition follow_path :: "bool \<Rightarrow> vol \<Rightarrow> DIR \<Rightarrow> buffer \<Rightarrow> (FRESULT \<times> DIR \<times> vol) option" where
  "follow_path sc s dp path = do {
     k \<leftarrow> skip_separators path 0;
     let path = drop k path;
     let dp = dp\<lparr>dobj := (dobj dp)\<lparr>sclust := 0\<rparr>\<rparr>;
     c \<leftarrow> ldb path 0;
     if c < 0x20 then do {
       f \<leftarrow> stb (fn dp) NSFLAG NS_NONAME;
       dir_sdi s (dp\<lparr>fn := f\<rparr>) 0
     }
     else follow_path_loop sc s dp path
   }"

section \<open>Drive prefix\<close>

definition FF_VOLUMES :: nat where
  "FF_VOLUMES = 1"

definition VolumeStr :: "buffer list" where
  "VolumeStr = [bytes_of ''RAM'' @ [0]]"

text \<open>The scan for a colon: the character that stopped it and the index behind it.\<close>

partial_function (option) find_colon :: "buffer \<Rightarrow> nat \<Rightarrow> (BYTE \<times> nat) option" where
  "find_colon p tt = do {
     chr \<leftarrow> ldb p tt;
     let tt = tt + 1;
     if \<not> IsTerminator chr \<and> chr \<noteq> 0x3A then find_colon p tt else Some (chr, tt)
   }"

declare find_colon.simps [code]

definition to_upper :: "BYTE \<Rightarrow> BYTE" where
  "to_upper c = (if IsLower c then c - 0x20 else c)"

text \<open>The comparison of a volume identifier with the path: the last character of the
  identifier that was read and the index behind the last character of the path read.\<close>

partial_function (option) volid_cmp :: "buffer \<Rightarrow> buffer \<Rightarrow> nat \<Rightarrow> (BYTE \<times> nat) option" where
  "volid_cmp vs p k = do {
     vchr \<leftarrow> ldb vs k;
     chr \<leftarrow> ldb p k;
     let k = k + 1;
     let vchr = to_upper vchr;
     let chr = to_upper chr;
     if vchr \<noteq> 0 \<and> vchr = chr then volid_cmp vs p k else Some (vchr, k)
   }"

declare volid_cmp.simps [code]

fun find_volid :: "buffer list \<Rightarrow> buffer \<Rightarrow> nat \<Rightarrow> nat \<Rightarrow> nat option" where
  "find_volid [] p tt i = Some i"
| "find_volid (vs # rest) p tt i = do {
     (vchr, tp) \<leftarrow> volid_cmp vs p 0;
     if vchr \<noteq> 0 \<or> tp \<noteq> tt then find_volid rest p tt (i + 1) else Some i
   }"

text \<open>The logical drive number (\<open>-1\<close> if there is none) and the path behind the prefix.  The
  path is \<open>None\<close> for the null pointer.\<close>

definition get_ldnumber :: "buffer option \<Rightarrow> (int \<times> buffer option) option" where
  "get_ldnumber path =
     (case path of
        None \<Rightarrow> Some (-1, None)
      | Some p \<Rightarrow> do {
          (chr, tt) \<leftarrow> find_colon p 0;
          if chr = 0x3A then do {
            c0 \<leftarrow> ldb p 0;
            i \<leftarrow> (if IsDigit c0 \<and> tt = 2 then Some (unat (c0 - 0x30)) else find_volid VolumeStr p tt 0);
            if i \<ge> FF_VOLUMES then Some (-1, Some p) else Some (int i, Some (drop tt p))
          }
          else Some (0, Some p)
        })"

section \<open>Rules\<close>

text \<open>A path is a C string: there is a null byte at or behind the pointer.\<close>

definition cstring :: "buffer \<Rightarrow> bool" where
  "cstring p \<longleftrightarrow> 0 \<in> set p"

text \<open>A read index from which the terminator is still ahead.\<close>

definition ahead :: "buffer \<Rightarrow> nat \<Rightarrow> bool" where
  "ahead p i \<longleftrightarrow> 0 \<in> set (drop i p)"

lemma ahead_0 [simp]: "ahead p 0 = cstring p"
  by (simp add: ahead_def cstring_def)

lemma ahead_less: "ahead p i \<Longrightarrow> i < length p"
  by (rule ccontr) (simp add: ahead_def)

lemma ahead_next: "ahead p i \<Longrightarrow> p ! i \<noteq> 0 \<Longrightarrow> ahead p (Suc i)"
  using ahead_less [of p i] by (simp add: ahead_def Cons_nth_drop_Suc [symmetric])

lemma ahead_drop [simp]: "cstring (drop i p) = ahead p i"
  by (simp add: ahead_def cstring_def)

lemma skip_separators_wp:
  assumes "ahead p i" "\<And>k. ahead p k \<Longrightarrow> i \<le> k \<Longrightarrow> k < length p \<Longrightarrow> Q k"
  shows "wp (skip_separators p i) Q"
  using assms
proof (induction "length p - i" arbitrary: i rule: less_induct)
  case less
  have i: "i < length p" using less.prems(1) by (rule ahead_less)
  have "wp (skip_separators p (Suc i)) Q" if "IsSeparator (p ! i)"
  proof (rule less.hyps)
    have "p ! i \<noteq> 0" using that by (auto simp: IsSeparator_def)
    then show "ahead p (Suc i)" by (rule ahead_next [OF less.prems(1)])
  qed (use i less.prems(2) in auto)
  then show ?case
    using i less.prems by (subst skip_separators.simps) (auto simp: wp_simps)
qed

lemma length_TBL_CT437 [simp]: "length TBL_CT437 = 128"
  by (simp add: TBL_CT437_def)

lemma and_7F: "unat (c AND 0x7F :: BYTE) < 128"
proof -
  have "c AND 0x7F \<le> 0x7F" by (rule word_and_le1)
  then show ?thesis by (simp add: word_le_nat_alt)
qed

text \<open>The results of the loop of \<open>create_name\<close>: the read index moves on, and the terminator is
  ahead of it unless the last character ended the path.\<close>

fun name_res :: "buffer \<Rightarrow> (BYTE \<times> nat \<times> nat) option \<Rightarrow> bool" where
  "name_res p None = True"
| "name_res p (Some (c, si, i)) = (0 < si \<and> si \<le> length p \<and> (\<not> c \<le> 0x20 \<longrightarrow> ahead p si))"

lemma create_name_loop_wp:
  assumes "ahead p si" "length sfn = 12" "i \<le> 11" "ni \<le> 11"
  shows "wp (create_name_loop p si i ni sfn) (\<lambda>(r, sfn'). length sfn' = 12 \<and> name_res p r)"
  using assms
proof (induction "length p - si" arbitrary: si i ni sfn rule: less_induct)
  case less
  have si: "si < length p" using less.prems(1) by (rule ahead_less)
  have nz: "ahead p (Suc si)" if "\<not> p ! si \<le> 0x20"
    using that by (intro ahead_next [OF less.prems(1)]) auto
  have IH: "wp (create_name_loop p (Suc si) i' ni' sfn') (\<lambda>(r, sfn'). length sfn' = 12 \<and> name_res p r)"
    if "\<not> p ! si \<le> 0x20" "length sfn' = 12" "i' \<le> 11" "ni' \<le> 11" for i' ni' sfn'
    using si nz that by (intro less.hyps) auto
  show ?case
    using less.prems si nz
    by (subst create_name_loop.simps)
      (auto simp: wp_simps Let_def dbc_1st_def and_7F intro!: skip_separators_wp IH)
qed

lemma create_name_wp:
  assumes "cstring p" "length (fn dp) = 12"
    and Q: "\<And>r dp' p'. \<lbrakk>length (fn dp') = 12; dobj dp' = dobj dp; length p' < length p \<or> r \<noteq> FR_OK;
            r = FR_OK \<longrightarrow> fn dp' ! 11 = 4 \<or> fn dp' ! 11 = 0 \<and> cstring p'\<rbrakk> \<Longrightarrow> Q (r, dp', p')"
  shows "wp (create_name sc dp p) Q"
proof -
  have len: "0 < length p" using assms(1) by (auto simp: cstring_def)
  have lp: "wp (create_name_loop p 0 0 8 sfn) P"
    if "length sfn = 12" "\<And>r sfn'. length sfn' = 12 \<Longrightarrow> name_res p r \<Longrightarrow> P (r, sfn')" for sfn P
    by (rule wp_mono [OF create_name_loop_wp]) (use assms(1) that in auto)
  show ?thesis
    unfolding create_name_def using assms(1,2) len
    by (auto simp: wp_simps dest: ahead_less split: option.split intro!: lp Q)
qed

text \<open>The owner of a directory object: what following a path leaves alone.\<close>

definition downer :: "DIR \<Rightarrow> fsptr \<times> WORD" where
  "downer dp = (ofs_ptr (dobj dp), oid (dobj dp))"

lemma dsame_downer:
  assumes "dsame dp dp'" shows "downer dp' = downer dp"
proof -
  have "ofs_ptr ((dobj dp')\<lparr>attr := 0\<rparr>) = ofs_ptr ((dobj dp)\<lparr>attr := 0\<rparr>)"
    "oid ((dobj dp')\<lparr>attr := 0\<rparr>) = oid ((dobj dp)\<lparr>attr := 0\<rparr>)"
    using assms by (simp_all only: dsame_def)
  then show ?thesis by (simp add: downer_def)
qed

lemma downer_upd [simp]:
  "downer (dp\<lparr>fn := f\<rparr>) = downer dp" "downer (dp\<lparr>dobj := (dobj dp)\<lparr>sclust := c\<rparr>\<rparr>) = downer dp"
  by (simp_all add: downer_def)

lemma mod_SS_480: "dok dp \<Longrightarrow> unat (dptr dp mod 512) \<le> 480"
  using dvd_mod_480 by (simp add: dok_def unat_mod)

fun fpost :: "vol \<Rightarrow> DIR \<Rightarrow> FRESULT \<times> DIR \<times> vol \<Rightarrow> bool" where
  "fpost s dp (r, dp', s') \<longleftrightarrow> good s s' \<and> length (fn dp') = 12 \<and> downer dp' = downer dp \<and>
     (r = FR_OK \<longrightarrow> dok dp')"

lemma follow_path_loop_wp:
  assumes "vdir s" "good s0 s" "length (fn dp) = 12" "downer dp = downer dp0" "cstring p"
  shows "wp (follow_path_loop sc s dp p) (fpost s0 dp0)"
  using assms
proof (induction "length p" arbitrary: s dp p rule: less_induct)
  case less
  have tr: "good s0 s'" "vdir s'" if "good s s'" for s'
    using that less.prems(1,2) by (auto intro: good_trans vdir_good)
  have ow: "downer dp' = downer dp0" if "dobj dp' = dobj dp" for dp'
    using that less.prems(4) by (simp add: downer_def)
  have IH: "wp (follow_path_loop sc s' dp' p') (fpost s0 dp0)"
    if "good s s'" "length (fn dp') = 12" "downer dp' = downer dp0" "length p' < length p" "cstring p'" for s' dp' p'
    using that tr by (intro less.hyps) auto
  have ds: "fn dp'' = fn dp'" "downer dp'' = downer dp'" if "dsame dp' dp''" for dp' dp''
    using that dsame_downer [OF that] by (simp_all add: dsame_def)
  have ld: "unat (dptr dp' mod 512) + 28 \<le> length (win s')" if "good s s'" "dok dp'" for s' dp'
    using mod_SS_480 [OF that(2)] goodD(1) [OF that(1)] by simp
  show ?case
    using less.prems
    by (subst follow_path_loop.simps)
      (auto simp: wp_simps tr ow ds ld intro!: create_name_wp dir_find_wp ld_clust_wp IH split: if_splits)
qed

lemma follow_path_wp [wp_intros]:
  assumes "vdir s" "length (fn dp) = 12" "cstring p"
    and Q: "\<And>r dp' s'. \<lbrakk>good s s'; length (fn dp') = 12; downer dp' = downer dp;
            r = FR_OK \<longrightarrow> dok dp'\<rbrakk> \<Longrightarrow> Q (r, dp', s')"
  shows "wp (follow_path sc s dp p) Q"
proof -
  have v: "vok s" "csize s \<noteq> 0" using assms(1) by (simp_all add: vdir_def)
  have lp: "wp (follow_path_loop sc s (dp\<lparr>dobj := (dobj dp)\<lparr>sclust := 0\<rparr>\<rparr>) p') Q" if "cstring p'" for p'
    by (rule wp_mono [OF follow_path_loop_wp [of s s _ dp]])
      (use assms(1,2) that v in \<open>auto intro!: Q\<close>)
  show ?thesis
    unfolding follow_path_def using assms(2,3) v
    by (auto simp: wp_simps Let_def downer_def intro!: skip_separators_wp dir_sdi_wp lp Q)
qed

lemma find_colon_wp:
  assumes "ahead p i" "\<And>c k. i < k \<Longrightarrow> k \<le> length p \<Longrightarrow> (c = 0x3A \<longrightarrow> ahead p k) \<Longrightarrow> Q (c, k)"
  shows "wp (find_colon p i) Q"
  using assms
proof (induction "length p - i" arbitrary: i rule: less_induct)
  case less
  have i: "i < length p" using less.prems(1) by (rule ahead_less)
  have "wp (find_colon p (Suc i)) Q" if "\<not> IsTerminator (p ! i)"
  proof (rule less.hyps)
    have "p ! i \<noteq> 0" using that by (auto simp: IsTerminator_def)
    then show "ahead p (Suc i)" by (rule ahead_next [OF less.prems(1)])
  qed (use i less.prems(2) in auto)
  moreover have "ahead p (Suc i)" if "p ! i = 0x3A"
    using that by (intro ahead_next [OF less.prems(1)]) simp
  ultimately show ?case
    using i less.prems by (subst find_colon.simps) (auto simp: wp_simps Let_def)
qed

lemma volid_cmp_wp:
  assumes "ahead p i" "ahead v i" "\<And>c k. k \<le> length p \<Longrightarrow> Q (c, k)"
  shows "wp (volid_cmp v p i) Q"
  using assms
proof (induction "length p - i" arbitrary: i rule: less_induct)
  case less
  have i: "i < length p" "i < length v" using less.prems(1,2) by (simp_all add: ahead_less)
  have nz: "c \<noteq> 0" if "to_upper c \<noteq> 0" for c using that by (auto simp: to_upper_def IsLower_def)
  have "wp (volid_cmp v p (Suc i)) Q" if "to_upper (v ! i) \<noteq> 0" "to_upper (v ! i) = to_upper (p ! i)"
  proof (rule less.hyps)
    have "v ! i \<noteq> 0" "p ! i \<noteq> 0" using that nz [of "v ! i"] nz [of "p ! i"] by simp_all
    then show "ahead p (Suc i)" "ahead v (Suc i)" by (simp_all add: ahead_next less.prems)
  qed (use i less.prems(3) in auto)
  then show ?case
    using i less.prems by (subst volid_cmp.simps) (auto simp: wp_simps Let_def)
qed

lemma get_ldnumber_wp [wp_intros]:
  assumes "\<And>p. path = Some p \<Longrightarrow> cstring p"
    and Q: "\<And>v path'. \<lbrakk>v = - 1 \<or> v = 0; path' = None \<longrightarrow> v = - 1; \<And>p. path' = Some p \<Longrightarrow> cstring p\<rbrakk> \<Longrightarrow> Q (v, path')"
  shows "wp (get_ldnumber path) Q"
proof (cases path)
  case None
  then show ?thesis by (auto simp: get_ldnumber_def intro!: Q)
next
  case (Some p)
  then have c: "cstring p" using assms(1) by simp
  have l: "0 < length p" using c by (auto simp: cstring_def)
  have z0: "uint x = 0" if "\<not> Suc 0 \<le> unat x" for x :: BYTE
    using that by (simp add: Suc_le_eq unat_gt_0)
  have z: "ahead (bytes_of ''RAM'' @ [0]) 0" by (simp add: ahead_def)
  show ?thesis
    unfolding get_ldnumber_def Some using c l z
    by (auto simp: wp_simps VolumeStr_def FF_VOLUMES_def ahead_0 z0
          intro!: find_colon_wp volid_cmp_wp Q split: if_splits)
qed
end
