(* ===== verification/FF_Mount.thy ===== *)
theory FF_Mount
  imports FF_Path
begin

text \<open>
  Volumes: recognition of a boot sector (\<open>check_fs\<close>, \<open>find_volume\<close>), the analysis of the BPB
  and the initialisation of the filesystem object (\<open>mount_volume\<close>), \<open>validate\<close> and
  \<open>f_mount\<close>.

  The module's static data and the memory of the filesystem objects form the record \<open>sys\<close>:
  \<open>FatFs[0]\<close> (the configuration has one volume), \<open>Fsid\<close>, the objects by address, and the
  device.  A function below the API works on one object with the device, a \<open>vol\<close>; the API
  loads the object it was given and stores it back.
\<close>

section \<open>Recognition of a volume\<close>

text \<open>0: FAT/FAT32 VBR, 2: not FAT and valid BS, 3: not FAT and invalid BS, 4: disk error.\<close>

definition check_fs :: "vol \<Rightarrow> LBA_t \<Rightarrow> (nat \<times> vol) option" where
  "check_fs s sector = do {
     let s = s\<lparr>wflag := 0, winsect := 0 - 1\<rparr>;
     (res, s) \<leftarrow> move_window s sector;
     if res \<noteq> FR_OK then Some (4, s)
     else do {
       sign \<leftarrow> ld_word (win s) BS_55AA;
       b \<leftarrow> ldb (win s) BS_JmpBoot;
       if b = 0xEB \<or> b = 0xE9 \<or> b = 0xE8 then do {
         is32 \<leftarrow> memeq (win s) BS_FilSysType32 (bytes_of ''FAT32   '');
         if sign = 0xAA55 \<and> is32 then Some (0, s)
         else do {
           w \<leftarrow> ld_word (win s) BPB_BytsPerSec;
           b \<leftarrow> ldb (win s) BPB_SecPerClus;
           rsv \<leftarrow> ld_word (win s) BPB_RsvdSecCnt;
           nf \<leftarrow> ldb (win s) BPB_NumFATs;
           root \<leftarrow> ld_word (win s) BPB_RootEntCnt;
           ts16 \<leftarrow> ld_word (win s) BPB_TotSec16;
           ts32 \<leftarrow> ld_dword (win s) BPB_TotSec32;
           fsz \<leftarrow> ld_word (win s) BPB_FATSz16;
           if w AND (w - 1) = 0 \<and> w \<ge> 512 \<and> w \<le> 512
              \<and> b \<noteq> 0 \<and> b AND (b - 1) = 0
              \<and> rsv \<noteq> 0
              \<and> (ucast nf :: UINT) - 1 \<le> 1
              \<and> root \<noteq> 0
              \<and> (ts16 \<ge> 128 \<or> ts32 \<ge> 0x10000)
              \<and> fsz \<noteq> 0
           then Some (0, s)
           else Some (if sign = 0xAA55 then 2 else 3, s)
         }
       }
       else Some (if sign = 0xAA55 then 2 else 3, s)
     }
   }"

text \<open>The loop over the entries of the partition table, from the first one to try.\<close>

fun find_volume_loop :: "vol \<Rightarrow> nat \<Rightarrow> DWORD list \<Rightarrow> (nat \<times> vol) option" where
  "find_volume_loop s part [] = None"
| "find_volume_loop s part (pt # rest) = do {
     (fmt, s) \<leftarrow> (if pt \<noteq> 0 then check_fs s pt else Some (3, s));
     if part = 0 \<and> fmt \<ge> 2 \<and> rest \<noteq> [] then find_volume_loop s part rest else Some (fmt, s)
   }"

definition find_volume :: "vol \<Rightarrow> nat \<Rightarrow> (nat \<times> vol) option" where
  "find_volume s part = do {
     (fmt, s) \<leftarrow> check_fs s 0;
     if fmt \<noteq> 2 \<and> (fmt \<ge> 3 \<or> part = 0) then Some (fmt, s)
     else do {
       p0 \<leftarrow> ld_dword (win s) (MBR_Table + 0 * SZ_PTE + PTE_StLba);
       p1 \<leftarrow> ld_dword (win s) (MBR_Table + 1 * SZ_PTE + PTE_StLba);
       p2 \<leftarrow> ld_dword (win s) (MBR_Table + 2 * SZ_PTE + PTE_StLba);
       p3 \<leftarrow> ld_dword (win s) (MBR_Table + 3 * SZ_PTE + PTE_StLba);
       find_volume_loop s part (drop (if part \<noteq> 0 then part - 1 else 0) [p0, p1, p2, p3])
     }
   }"

section \<open>Analysis of the BPB\<close>

text \<open>The FAT sub-type by the number of clusters.\<close>

definition fat_subtype :: "DWORD \<Rightarrow> BYTE" where
  "fat_subtype nclst =
     (let fmt = 0;
          fmt = (if nclst \<le> MAX_FAT32 then FS_FAT32 else fmt);
          fmt = (if nclst \<le> MAX_FAT16 then FS_FAT16 else fmt);
          fmt = (if nclst \<le> MAX_FAT12 then FS_FAT12 else fmt)
      in fmt)"

text \<open>Lines 3562 to 3578: boundaries and limits, and the size of the FAT.\<close>

definition mount_limits ::
    "vol \<Rightarrow> BYTE \<Rightarrow> LBA_t \<Rightarrow> DWORD \<Rightarrow> DWORD \<Rightarrow> WORD \<Rightarrow> DWORD \<Rightarrow> (FRESULT \<times> vol) option" where
  "mount_limits s fmt bsect nclst sysect nrsv fasize = do {
     let s = s\<lparr>n_fatent := nclst + 2, volbase := bsect, fatbase := bsect + ucast nrsv,
               database := bsect + sysect\<rparr>;
     if fmt = FS_FAT32 then do {
       ver \<leftarrow> ld_word (win s) BPB_FSVer32;
       if ver \<noteq> 0 then Some (FR_NO_FILESYSTEM, s)
       else if n_rootdir s \<noteq> 0 then Some (FR_NO_FILESYSTEM, s)
       else do {
         rc \<leftarrow> ld_dword (win s) BPB_RootClus32;
         let s = s\<lparr>dirbase := rc\<rparr>;
         let szbfat = n_fatent s * 4;
         if fsize s < (szbfat + (SS - 1)) div SS then Some (FR_NO_FILESYSTEM, s)
         else Some (FR_OK, s)
       }
     }
     else if n_rootdir s = 0 then Some (FR_NO_FILESYSTEM, s)
     else do {
       let s = s\<lparr>dirbase := fatbase s + fasize\<rparr>;
       let szbfat = (if fmt = FS_FAT16 then n_fatent s * 2
                     else n_fatent s * 3 div 2 + (n_fatent s AND 1));
       if fsize s < (szbfat + (SS - 1)) div SS then Some (FR_NO_FILESYSTEM, s)
       else Some (FR_OK, s)
     }
   }"

text \<open>Lines 3581 to 3600: the FSInfo sector.\<close>

definition mount_fsinfo :: "vol \<Rightarrow> BYTE \<Rightarrow> LBA_t \<Rightarrow> vol option" where
  "mount_fsinfo s fmt bsect = do {
     let s = s\<lparr>last_clst := 0xFFFFFFFF, free_clst := 0xFFFFFFFF, fsi_flag := 0x80\<rparr>;
     if fmt = FS_FAT32 then do {
       fsi \<leftarrow> ld_word (win s) BPB_FSInfo32;
       if fsi = 1 then do {
         (res, s) \<leftarrow> move_window s (bsect + 1);
         if res = FR_OK then do {
           let s = s\<lparr>fsi_flag := 0\<rparr>;
           lead \<leftarrow> ld_dword (win s) FSI_LeadSig;
           struc \<leftarrow> ld_dword (win s) FSI_StrucSig;
           trail \<leftarrow> ld_dword (win s) FSI_TrailSig;
           if lead = 0x41615252 \<and> struc = 0x61417272 \<and> trail = 0xAA550000 then do {
             fc \<leftarrow> ld_dword (win s) FSI_Free_Count;
             nf \<leftarrow> ld_dword (win s) FSI_Nxt_Free;
             Some (s\<lparr>free_clst := fc, last_clst := nf\<rparr>)
           } else Some s
         } else Some s
       } else Some s
     } else Some s
   }"

text \<open>Lines 3528 to 3602: from the boot sector in the window to the fields of the object; the
  result carries the sub-type.\<close>

definition mount_bpb :: "vol \<Rightarrow> LBA_t \<Rightarrow> (FRESULT \<times> BYTE \<times> vol) option" where
  "mount_bpb s bsect = do {
     bps \<leftarrow> ld_word (win s) BPB_BytsPerSec;
     if ucast bps \<noteq> SS then Some (FR_NO_FILESYSTEM, 0, s)
     else do {
     f16 \<leftarrow> ld_word (win s) BPB_FATSz16;
     f32 \<leftarrow> ld_dword (win s) BPB_FATSz32;
     let fasize = (if f16 = 0 then f32 else ucast f16);
     let s = s\<lparr>fsize := fasize\<rparr>;
     nf \<leftarrow> ldb (win s) BPB_NumFATs;
     let s = s\<lparr>n_fats := nf\<rparr>;
     if n_fats s \<noteq> 1 \<and> n_fats s \<noteq> 2 then Some (FR_NO_FILESYSTEM, 0, s)
     else do {
     let fasize = fasize * ucast (n_fats s);
     spc \<leftarrow> ldb (win s) BPB_SecPerClus;
     let s = s\<lparr>csize := ucast spc\<rparr>;
     if csize s = 0 \<or> csize s AND (csize s - 1) \<noteq> 0 then Some (FR_NO_FILESYSTEM, 0, s)
     else do {
     root \<leftarrow> ld_word (win s) BPB_RootEntCnt;
     let s = s\<lparr>n_rootdir := root\<rparr>;
     if (ucast (n_rootdir s) :: UINT) mod (SS div of_nat SZDIRE) \<noteq> 0
     then Some (FR_NO_FILESYSTEM, 0, s)
     else do {
     t16 \<leftarrow> ld_word (win s) BPB_TotSec16;
     t32 \<leftarrow> ld_dword (win s) BPB_TotSec32;
     let tsect = (if t16 = 0 then t32 else ucast t16);
     nrsv \<leftarrow> ld_word (win s) BPB_RsvdSecCnt;
     if nrsv = 0 then Some (FR_NO_FILESYSTEM, 0, s)
     else do {
     let sysect = ucast nrsv + fasize + ucast (n_rootdir s) div (SS div of_nat SZDIRE);
     if tsect < sysect then Some (FR_NO_FILESYSTEM, 0, s)
     else do {
     let nclst = (tsect - sysect) div ucast (csize s);
     if nclst = 0 then Some (FR_NO_FILESYSTEM, 0, s)
     else do {
     let fmt = fat_subtype nclst;
     if fmt = 0 then Some (FR_NO_FILESYSTEM, 0, s)
     else do {
     (res, s) \<leftarrow> mount_limits s fmt bsect nclst sysect nrsv fasize;
     if res \<noteq> FR_OK then Some (res, 0, s)
     else do {
     s \<leftarrow> mount_fsinfo s fmt bsect;
     Some (FR_OK, fmt, s)
     }}}}}}}}}
   }"

text \<open>Lines 3443 to 3618: mount the volume on the object; \<open>Fsid\<close> is the mount counter.\<close>

definition mount_fs :: "vol \<Rightarrow> WORD \<Rightarrow> BYTE \<Rightarrow> (FRESULT \<times> WORD \<times> vol) option" where
  "mount_fs s Fsid mode = do {
     let s = s\<lparr>fs_type := 0\<rparr>;
     let stat = disk_initialize;
     if stat AND STA_NOINIT \<noteq> 0 then Some (FR_NOT_READY, Fsid, s)
     else if mode \<noteq> 0 \<and> stat AND STA_PROTECT \<noteq> 0 then Some (FR_WRITE_PROTECTED, Fsid, s)
     else do {
       (fmt, s) \<leftarrow> find_volume s 0;
       if fmt = 4 then Some (FR_DISK_ERR, Fsid, s)
       else if fmt \<ge> 2 then Some (FR_NO_FILESYSTEM, Fsid, s)
       else do {
         (res, ty, s) \<leftarrow> mount_bpb s (winsect s);
         if res \<noteq> FR_OK then Some (res, Fsid, s)
         else do {
           let Fsid = Fsid + 1;
           Some (FR_OK, Fsid, s\<lparr>fs_type := ty, fs_id := Fsid\<rparr>)
         }
       }
     }
   }"

section \<open>The module's state\<close>

record sys =
  FatFs :: fsptr
  Fsid :: WORD
  objs :: "nat \<Rightarrow> FATFS"
  sdisk :: disk

definition load_vol :: "sys \<Rightarrow> nat \<Rightarrow> vol" where
  "load_vol sy a = FATFS.extend (objs sy a) (vol.fields (sdisk sy))"

definition store_vol :: "sys \<Rightarrow> nat \<Rightarrow> vol \<Rightarrow> sys" where
  "store_vol sy a s = sy\<lparr>objs := (objs sy)(a := FATFS.truncate s), sdisk := vdisk s\<rparr>"

definition mount_volume ::
    "sys \<Rightarrow> buffer option \<Rightarrow> BYTE \<Rightarrow> (FRESULT \<times> fsptr \<times> buffer option \<times> sys) option" where
  "mount_volume sy path mode = do {
     (v, path) \<leftarrow> get_ldnumber path;
     if v < 0 then Some (FR_INVALID_DRIVE, None, path, sy)
     else case FatFs sy of
       None \<Rightarrow> Some (FR_NOT_ENABLED, None, path, sy)
     | Some a \<Rightarrow> do {
         let mode = mode AND NOT FA_READ;
         if fs_type (objs sy a) \<noteq> 0 \<and> disk_status AND STA_NOINIT = 0 then
           if mode \<noteq> 0 \<and> disk_status AND STA_PROTECT \<noteq> 0
           then Some (FR_WRITE_PROTECTED, Some a, path, sy)
           else Some (FR_OK, Some a, path, sy)
         else do {
           (res, fsid, s) \<leftarrow> mount_fs (load_vol sy a) (Fsid sy) mode;
           Some (res, Some a, path, (store_vol sy a s)\<lparr>Fsid := fsid\<rparr>)
         }
       }
   }"

text \<open>The result code and the filesystem object of a valid file or directory object.\<close>

definition validate :: "sys \<Rightarrow> FFOBJID \<Rightarrow> FRESULT \<times> fsptr" where
  "validate sy obj =
     (case ofs_ptr obj of
        None \<Rightarrow> (FR_INVALID_OBJECT, None)
      | Some a \<Rightarrow>
          if fs_type (objs sy a) \<noteq> 0 \<and> oid obj = fs_id (objs sy a)
             \<and> disk_status AND STA_NOINIT = 0
          then (FR_OK, Some a) else (FR_INVALID_OBJECT, None))"

definition f_mount :: "sys \<Rightarrow> fsptr \<Rightarrow> buffer option \<Rightarrow> BYTE \<Rightarrow> (FRESULT \<times> sys) option" where
  "f_mount sy fs path opt = do {
     (v, _) \<leftarrow> get_ldnumber path;
     if v < 0 then Some (FR_INVALID_DRIVE, sy)
     else do {
       let sy = (case FatFs sy of
                   None \<Rightarrow> sy
                 | Some c \<Rightarrow> sy\<lparr>FatFs := None, objs := (objs sy)(c := (objs sy c)\<lparr>fs_type := 0\<rparr>)\<rparr>);
       let sy = (case fs of
                   None \<Rightarrow> sy
                 | Some a \<Rightarrow> sy\<lparr>objs := (objs sy)(a := (objs sy a)\<lparr>pdrv := of_int v, fs_type := 0\<rparr>),
                               FatFs := Some a\<rparr>);
       if opt = 0 then Some (FR_OK, sy)
       else do {
         (res, _, _, sy) \<leftarrow> mount_volume sy path 0;
         Some (res, sy)
       }
     }
   }"

section \<open>Rules\<close>

text \<open>Recognition starts from an invalidated window, whatever it showed.\<close>

lemma invalidated: "length (win s) = 512 \<Longrightarrow> vok (s\<lparr>wflag := 0, winsect := - 1\<rparr>)"
  by (simp add: vok_def coh_def unat_minus_one_32)

lemma vok_nonempty [simp]: "vok s \<Longrightarrow> win s \<noteq> []"
  by (auto dest: vok_length)

text \<open>The sector of a recognised volume: on the device, or the value of an invalidated window
  (a partition table may name it, and the window is then taken as it is).\<close>

definition bsect_ok :: "LBA_t \<Rightarrow> bool" where
  "bsect_ok n \<longleftrightarrow> unat n < DISK_SECTORS \<or> n = - 1"

lemma check_fs_wp:
  assumes "length (win s) = 512"
    and Q: "\<And>fmt s'. \<lbrakk>vok s'; geo s' = geo s; fmt \<noteq> 4 \<longrightarrow> winsect s' = n \<and> bsect_ok n\<rbrakk>
      \<Longrightarrow> Q (fmt, s')"
  shows "wp (check_fs s n) Q"
proof -
  have mw: "wp (move_window (s\<lparr>wflag := 0, winsect := - 1\<rparr>) n) P"
    if "\<And>r s'. \<lbrakk>vok s'; geo s' = geo s; r = FR_OK \<longrightarrow> winsect s' = n \<and> bsect_ok n\<rbrakk>
      \<Longrightarrow> P (r, s')" for P
    by (rule move_window_spec [OF invalidated [OF assms(1)]]) (auto simp: frame_simps bsect_ok_def intro!: that)
  show ?thesis
    unfolding check_fs_def
    by (auto simp: wp_simps Let_def intro!: mw ld_word_wp ld_dword_wp Q)
qed

lemma find_volume_loop_wp:
  assumes "vok s" "l \<noteq> []"
    and Q: "\<And>fmt s'. \<lbrakk>vok s'; geo s' = geo s; fmt < 2 \<longrightarrow> bsect_ok (winsect s')\<rbrakk>
      \<Longrightarrow> Q (fmt, s')"
  shows "wp (find_volume_loop s part l) Q"
  using assms
proof (induction l arbitrary: s)
  case (Cons pt l)
  then show ?case
    by (auto simp: wp_simps intro!: check_fs_wp Cons.IH Cons.prems(3))
qed simp

lemma find_volume_wp:
  assumes "length (win s) = 512"
    and Q: "\<And>fmt s'. \<lbrakk>vok s'; geo s' = geo s; fmt < 2 \<longrightarrow> bsect_ok (winsect s')\<rbrakk>
      \<Longrightarrow> Q (fmt, s')"
  shows "wp (find_volume s 0) Q"
  unfolding find_volume_def using assms(1)
  by (auto simp: wp_simps simp del: find_volume_loop.simps
       intro!: check_fs_wp ld_dword_wp find_volume_loop_wp Q)

section \<open>The geometry of a mounted volume\<close>

lemma fat_subtype_cases:
  assumes "fat_subtype n \<noteq> 0"
  obtains "fat_subtype n = FS_FAT12" "unat n \<le> 0xFF5" | "fat_subtype n = FS_FAT16" "unat n \<le> 0xFFF5"
    | "fat_subtype n = FS_FAT32" "unat n \<le> 0x0FFFFFF5"
  using assms by (auto simp: fat_subtype_def word_le_nat_alt split: if_splits)

lemma fat_bytes:
  fixes n :: DWORD
  assumes "unat n \<le> 0x0FFFFFF7"
  shows "unat (n * 4) = 4 * unat n" "unat (n * 2) = 2 * unat n"
    "unat (n * 3 div 2 + (n AND 1)) = 3 * unat n div 2 + unat n mod 2"
proof -
  show "unat (n * 4) = 4 * unat n" "unat (n * 2) = 2 * unat n"
    using assms by (simp_all add: unat_word_ariths)
  have "unat (n * 3 div 2) = 3 * unat n div 2"
    using assms by (simp add: unat_div unat_word_ariths mult.commute)
  moreover have "unat (n AND 1) = unat n mod 2" by (simp add: and_one_eq unat_mod)
  ultimately show "unat (n * 3 div 2 + (n AND 1)) = 3 * unat n div 2 + unat n mod 2"
    using assms by (simp add: unat_word_ariths)
qed

lemma fat_fits:
  fixes b f :: DWORD
  assumes "\<not> f < (b + 511) div 512" "unat b < 0xFFFFFE00"
  shows "unat b \<le> 512 * unat f"
proof -
  have "unat (b + 511) = unat b + 511" using assms(2) by (simp add: unat_word_ariths)
  then have "(unat b + 511) div 512 \<le> unat f"
    using assms(1) by (simp add: word_less_nat_alt unat_div)
  then show ?thesis by linarith
qed

lemma vok_geo_upd [simp]:
  "vok (s\<lparr>n_fatent := a\<rparr>) = vok s" "vok (s\<lparr>volbase := b\<rparr>) = vok s" "vok (s\<lparr>fatbase := b\<rparr>) = vok s"
  "vok (s\<lparr>database := b\<rparr>) = vok s" "vok (s\<lparr>dirbase := b\<rparr>) = vok s" "vok (s\<lparr>fsize := a\<rparr>) = vok s"
  "vok (s\<lparr>n_fats := c\<rparr>) = vok s" "vok (s\<lparr>csize := d\<rparr>) = vok s" "vok (s\<lparr>n_rootdir := d\<rparr>) = vok s"
  "vok (s\<lparr>fs_type := c\<rparr>) = vok s" "vok (s\<lparr>fs_id := d\<rparr>) = vok s"
  by (simp_all add: vok_def coh_def)

lemma mount_limits_wp:
  assumes "vok s" "fmt = fat_subtype nclst" "fmt \<noteq> 0" "nclst \<noteq> 0" "csize s \<noteq> 0"
    "bsect_ok bsect" "nrsv \<noteq> 0"
    and Q: "\<And>r s'. \<lbrakk>vok s'; r = FR_OK \<longrightarrow> gok (s'\<lparr>fs_type := fmt\<rparr>);
            fs_type s' = fs_type s\<rbrakk> \<Longrightarrow> Q (r, s')"
  shows "wp (mount_limits s fmt bsect nclst sysect nrsv fasize) Q"
proof -
  define N where "N = nclst + 2"
  have c: "unat nclst \<le> 0x0FFFFFF5"
    by (cases rule: fat_subtype_cases [OF assms(3) [unfolded assms(2)]]) auto
  have "0 < unat nclst" using assms(4) by (simp add: unat_gt_0)
  note c = c this
  then have n: "unat N = unat nclst + 2" by (simp add: N_def unat_word_ariths)
  then have b: "unat N \<le> 0x0FFFFFF7" "3 \<le> unat N" using c by simp_all
  have fb: "unat (bsect + ucast nrsv) < 0x20000"
  proof (cases "bsect = - 1")
    case True
    have "(1::DWORD) \<le> ucast nrsv" using assms(7)
      by (simp add: word_le_nat_alt unat_ucast_up Suc_le_eq unat_gt_0)
    then show ?thesis
      using True by (simp add: unat_sub unat_ucast_up) (use unat_16_less [of nrsv] in linarith)
  next
    case False
    show ?thesis
    proof -
      have "unat bsect + unat nrsv < 0x20000"
        using assms(6) False unat_16_less [of nrsv] unfolding bsect_ok_def by linarith
      then show ?thesis by (simp add: unat_word_ariths unat_ucast_up)
    qed
  qed
  note fits = fat_fits [of "fsize s"] fat_bytes [OF b(1)]
  show ?thesis
    using assms(1,3,5) fb b n fits(1) [of "N * 4"] fits(1) [of "N * 2"] fits(1) [of "N * 3 div 2 + (N AND 1)"]
    unfolding mount_limits_def N_def [symmetric]
    by (cases rule: fat_subtype_cases [OF assms(3) [unfolded assms(2)]])
      (auto simp: wp_simps Let_def gok_def assms(2) fits(2-4) intro!: ld_word_wp ld_dword_wp Q)
qed

lemma mount_fsinfo_wp:
  assumes "vok s" and Q: "\<And>s'. good s s' \<Longrightarrow> Q s'"
  shows "wp (mount_fsinfo s fmt bsect) Q"
  unfolding mount_fsinfo_def using assms(1)
  by (auto simp: wp_simps Let_def frame_simps intro!: ld_word_wp ld_dword_wp move_window_wp Q)

lemma mount_bpb_wp:
  assumes "vok s" "bsect_ok bsect"
    and Q: "\<And>r fmt s'. \<lbrakk>vok s'; r = FR_OK \<longrightarrow> gok (s'\<lparr>fs_type := fmt\<rparr>);
            fs_type s' = fs_type s\<rbrakk> \<Longrightarrow> Q (r, fmt, s')"
  shows "wp (mount_bpb s bsect) Q"
proof -
  have gg: "gok (s'\<lparr>fs_type := f\<rparr>) = gok (s\<lparr>fs_type := f\<rparr>)" if "good s s'" for s s' f
    using that by (simp add: gok_def goodD)
  have fi: "wp (mount_fsinfo s' fmt bs) P" if "vok s'" "gok (s'\<lparr>fs_type := f\<rparr>)"
    "\<And>s''. vok s'' \<Longrightarrow> gok (s''\<lparr>fs_type := f\<rparr>) \<Longrightarrow> fs_type s'' = fs_type s' \<Longrightarrow> P s''" for s' fmt bs f P
    using that(1,2) by (intro mount_fsinfo_wp that(3)) (auto simp: gg goodD(1,2))
  show ?thesis
    unfolding mount_bpb_def using assms(1,2)
    by (auto simp: wp_simps Let_def intro!: ld_word_wp ld_dword_wp mount_limits_wp fi Q)
qed

lemma mount_fs_wp:
  assumes "length (win s) = 512"
    and Q: "\<And>r i s'. \<lbrakk>vok s'; r = FR_OK \<longrightarrow> gok s' \<and> i = id0 + 1 \<and> fs_id s' = i;
            r \<noteq> FR_OK \<longrightarrow> i = id0 \<and> fs_type s' = 0\<rbrakk> \<Longrightarrow> Q (r, i, s')"
  shows "wp (mount_fs s id0 mode) Q"
  unfolding mount_fs_def using assms(1)
  by (auto simp: wp_simps Let_def disk_initialize_def gok_def geo_eq_iff
       intro!: find_volume_wp mount_bpb_wp Q)

section \<open>The invariant of the module\<close>

text \<open>At most the registered object is mounted; a mounted object has a coherent window and a
  sound geometry.\<close>

definition sys_ok :: "sys \<Rightarrow> bool" where
  "sys_ok sy \<longleftrightarrow>
     (\<forall>a. length (win (objs sy a)) = 512) \<and>
     (\<forall>a. fs_type (objs sy a) \<noteq> 0 \<longrightarrow>
        FatFs sy = Some a \<and> coh (load_vol sy a) \<and> gok (objs sy a))"

lemma load_vol_simps [simp]:
  "fs_type (load_vol sy a) = fs_type (objs sy a)" "win (load_vol sy a) = win (objs sy a)"
  "fs_id (load_vol sy a) = fs_id (objs sy a)" "vdisk (load_vol sy a) = sdisk sy"
  "gok (load_vol sy a) = gok (objs sy a)" "mirror_ok (load_vol sy a) = mirror_ok (objs sy a)"
  by (simp_all add: load_vol_def FATFS.defs vol.defs gok_def mirror_ok_def)

lemma store_vol_simps [simp]:
  "FatFs (store_vol sy a s) = FatFs sy" "Fsid (store_vol sy a s) = Fsid sy"
  "sdisk (store_vol sy a s) = vdisk s"
  "objs (store_vol sy a s) b = (if b = a then FATFS.truncate s else objs sy b)"
  by (simp_all add: store_vol_def)

lemma truncate_simps [simp]:
  "fs_type (FATFS.truncate s) = fs_type s" "win (FATFS.truncate s) = win s"
  "fs_id (FATFS.truncate s) = fs_id s"
  "gok (FATFS.truncate s) = gok s" "mirror_ok (FATFS.truncate s) = mirror_ok s"
  by (simp_all add: FATFS.defs gok_def mirror_ok_def)

lemma load_store [simp]: "load_vol (store_vol sy a s) a = s"
  by (simp add: load_vol_def store_vol_def FATFS.defs vol.defs)

lemma load_vol_upd [simp]: "load_vol (sy\<lparr>Fsid := i\<rparr>) a = load_vol sy a"
  by (simp add: load_vol_def)

lemma sys_ok_mounted:
  assumes "sys_ok sy" "fs_type (objs sy a) \<noteq> 0"
  shows "vok (load_vol sy a)" "gok (load_vol sy a)" "vdir (load_vol sy a)" "FatFs sy = Some a"
proof -
  show v: "vok (load_vol sy a)" "gok (load_vol sy a)" "FatFs sy = Some a"
    using assms by (simp_all add: sys_ok_def vok_def)
  then show "vdir (load_vol sy a)"
    by (auto simp: vdir_def gok_def word_le_nat_alt)
qed

lemma sys_ok_store:
  assumes "sys_ok sy" "FatFs sy = Some a" "vok s" "fs_type s \<noteq> 0 \<longrightarrow> gok s"
  shows "sys_ok (store_vol sy a s)"
  using assms by (auto simp: sys_ok_def vok_def)

lemma sys_ok_store_good:
  assumes "sys_ok sy" "fs_type (objs sy a) \<noteq> 0" "good (load_vol sy a) s"
  shows "sys_ok (store_vol sy a s)" "fs_type s \<noteq> 0"
  using sys_ok_mounted [OF assms(1,2)] sys_ok_store [OF assms(1), of a s] assms(2,3)
    gok_good [OF assms(3)] by (auto simp: goodD)

lemma sys_ok_Fsid [simp]: "sys_ok (sy\<lparr>Fsid := i\<rparr>) = sys_ok sy"
  by (simp add: sys_ok_def)

text \<open>What no call but \<open>f_mount\<close> and \<open>f_mkfs\<close> changes: the registered object, and the type, the
  mount id and the geometry of a mounted volume.\<close>

definition keeps :: "sys \<Rightarrow> sys \<Rightarrow> bool" where
  "keeps sy sy' \<longleftrightarrow> FatFs sy' = FatFs sy \<and> (\<forall>a. fs_type (objs sy a) \<noteq> 0 \<longrightarrow> geo (objs sy' a) = geo (objs sy a))"

lemma keeps_refl [simp]: "keeps sy sy"
  by (simp add: keeps_def)

lemma keeps_trans: "keeps sy sy' \<Longrightarrow> keeps sy' sy'' \<Longrightarrow> keeps sy sy''"
  by (simp add: keeps_def geo_eq_iff)

lemma geo_load [simp]: "geo (load_vol sy a) = geo (objs sy a)" "geo (FATFS.truncate s) = geo s"
  by (simp_all add: load_vol_def FATFS.defs vol.defs geo_def)

lemma keeps_store: "keeps sy sy' \<Longrightarrow> good (load_vol sy' a) s \<Longrightarrow> keeps sy (store_vol sy' a s)"
  by (simp add: keeps_def good_def)

section \<open>Mounting\<close>

lemma mount_volume_wp [wp_intros]:
  assumes "sys_ok sy" "\<And>p. path = Some p \<Longrightarrow> cstring p"
    and Q: "\<And>r rfs path' sy'. \<lbrakk>sys_ok sy'; keeps sy sy'; mount_volume sy path mode = Some (r, rfs, path', sy');
            r = FR_OK \<longrightarrow> (\<exists>a p. rfs = Some a \<and> fs_type (objs sy' a) \<noteq> 0 \<and> path' = Some p \<and> cstring p)\<rbrakk>
      \<Longrightarrow> Q (r, rfs, path', sy')"
  shows "wp (mount_volume sy path mode) Q"
proof -
  have mf: "wp (mount_fs (load_vol sy a) i m) P"
    if "\<And>r i s'. \<lbrakk>vok s'; r = FR_OK \<longrightarrow> gok s' \<and> fs_type s' \<noteq> 0; r \<noteq> FR_OK \<longrightarrow> fs_type s' = 0\<rbrakk> \<Longrightarrow> P (r, i, s')" for a i m P
    using assms(1) by (intro mount_fs_wp that) (auto simp: sys_ok_def gok_def)
  have keeps_new: "keeps sy ((store_vol sy a s)\<lparr>Fsid := i\<rparr>)" if "fs_type (objs sy a) = 0" for a s i
    using that by (simp add: keeps_def)
  have "wp (mount_volume sy path mode) (\<lambda>(r, rfs, path', sy'). sys_ok sy' \<and> keeps sy sy' \<and> (r = FR_OK \<longrightarrow>
      (\<exists>a p. rfs = Some a \<and> fs_type (objs sy' a) \<noteq> 0 \<and> path' = Some p \<and> cstring p)))"
    unfolding mount_volume_def using assms(1,2)
    by (auto simp: wp_simps Let_def disk_status_def split: option.split
        intro!: get_ldnumber_wp mf sys_ok_store keeps_new)
  then show ?thesis using Q by (auto simp: wp_def)
qed

text \<open>An object registered with \<open>f_mount\<close> is memory of the caller: 512 bytes of window.\<close>

lemma f_mount_wp [wp_intros]:
  assumes "sys_ok sy" "\<And>p. path = Some p \<Longrightarrow> cstring p" and Q: "\<And>r sy'. sys_ok sy' \<Longrightarrow> Q (r, sy')"
  shows "wp (f_mount sy fs path opt) Q"
proof -
  have un: "sys_ok (sy\<lparr>FatFs := None, objs := (objs sy)(c := (objs sy c)\<lparr>fs_type := 0\<rparr>)\<rparr>)" if "FatFs sy = Some c" for c
    using assms(1) that by (auto simp: sys_ok_def)
  have reg: "sys_ok (sy\<lparr>objs := (objs sy)(a := (objs sy a)\<lparr>pdrv := v, fs_type := 0\<rparr>), FatFs := Some a\<rparr>)"
    if "FatFs sy = None \<or> FatFs sy = Some a" for a v
    using assms(1) that by (auto simp: sys_ok_def)
  have reg2: "sys_ok (sy\<lparr>objs := (objs sy)(c := (objs sy c)\<lparr>fs_type := 0\<rparr>,
        a := (objs sy a)\<lparr>pdrv := v, fs_type := 0\<rparr>), FatFs := Some a\<rparr>)" if "FatFs sy = Some c" for a c v
    using assms(1) that by (auto simp: sys_ok_def)
  show ?thesis
    unfolding f_mount_def using assms(1,2)
    by (auto simp: wp_simps Let_def reg reg2 un split: option.split
        intro!: get_ldnumber_wp mount_volume_wp Q)
qed

text \<open>A file or directory object that \<open>validate\<close> accepts belongs to a mounted volume.\<close>

lemma validate_cases:
  obtains (ok) a where "validate sy obj = (FR_OK, Some a)" "ofs_ptr obj = Some a"
      "fs_type (objs sy a) \<noteq> 0" "oid obj = fs_id (objs sy a)"
  | (bad) "validate sy obj = (FR_INVALID_OBJECT, None)"
proof (cases "\<exists>a. ofs_ptr obj = Some a \<and> fs_type (objs sy a) \<noteq> 0 \<and> oid obj = fs_id (objs sy a)")
  case True
  then show ?thesis by (auto simp: validate_def disk_status_def intro: ok)
next
  case False
  then show ?thesis by (intro bad) (auto simp: validate_def split: option.split)
qed

text \<open>The volume that a call finds or mounts does not wrap its second FAT into the first.\<close>

definition fat_safe :: "sys \<Rightarrow> buffer option \<Rightarrow> BYTE \<Rightarrow> bool" where
  "fat_safe sy path mode =
     (case mount_volume sy path mode of
        None \<Rightarrow> True
      | Some (r, rfs, _, sy') \<Rightarrow>
          (case rfs of None \<Rightarrow> True | Some a \<Rightarrow> r = FR_OK \<longrightarrow> mirror_ok (objs sy' a)))"

lemma fat_safeD:
  "fat_safe sy path mode \<Longrightarrow> mount_volume sy path mode = Some (FR_OK, Some a, p, sy') \<Longrightarrow>
     mirror_ok (objs sy' a)"
  by (simp add: fat_safe_def)

end
