(* ===== verification/FF_File.thy ===== *)
theory FF_File
  imports FF_Mount
begin

text \<open>
  The file operations of the API: \<open>f_open\<close>, \<open>f_read\<close>, \<open>f_write\<close>, \<open>f_sync\<close>, \<open>f_close\<close>,
  \<open>f_lseek\<close> and \<open>f_truncate\<close>.  Each takes the module state and the file object and returns
  its result code with both.  The buffer of a caller is the list of bytes behind the pointer;
  \<open>f_read\<close> returns it updated, with the number of bytes read.
\<close>

section \<open>Opening a file\<close>

text \<open>A local \<open>DIR\<close> object before any member is assigned.  Its members have indeterminate
  values in C and are all written before they are read.\<close>

definition blank_DIR :: "nat \<Rightarrow> DIR" where
  "blank_DIR a =
     \<lparr>dobj = \<lparr>ofs_ptr = Some a, oid = 0, attr = 0, stat = 0, sclust = 0, objsize = 0\<rparr>,
      dptr = 0, clust = 0, sect = 0, dir = 0, fn = replicate 12 0\<rparr>"

text \<open>Lines 3788 to 3826: reset the entry of a new or overwritten file.\<close>

definition f_open_trunc :: "vol \<Rightarrow> DIR \<Rightarrow> (FRESULT \<times> vol) option" where
  "f_open_trunc s dj = do {
     let tm = GET_FATTIME;
     b \<leftarrow> st_dword (win s) (dir dj + DIR_CrtTime) tm;
     b \<leftarrow> st_dword b (dir dj + DIR_ModTime) tm;
     cl \<leftarrow> ld_clust s b (dir dj);
     b \<leftarrow> stb b (dir dj + DIR_Attr) AM_ARC;
     b \<leftarrow> st_clust s b (dir dj) 0;
     b \<leftarrow> st_dword b (dir dj + DIR_FileSize) 0;
     let s = s\<lparr>win := b, wflag := 1\<rparr>;
     if cl \<noteq> 0 then do {
       let sc = winsect s;
       (res, s) \<leftarrow> remove_chain s cl 0;
       if res = FR_OK then do {
         (res, s) \<leftarrow> move_window s sc;
         Some (res, s\<lparr>last_clst := cl - 1\<rparr>)
       } else Some (res, s)
     } else Some (FR_OK, s)
   }"

text \<open>Lines 3769 to 3838: create or open; the access mode is returned with the additional
  flag of a created file.\<close>

definition f_open_target ::
    "vol \<Rightarrow> DIR \<Rightarrow> FRESULT \<Rightarrow> BYTE \<Rightarrow> (FRESULT \<times> BYTE \<times> DIR \<times> vol) option" where
  "f_open_target s dj res mode =
     (if mode AND (FA_CREATE_ALWAYS OR FA_OPEN_ALWAYS OR FA_CREATE_NEW) \<noteq> 0 then do {
        (res, mode, dj, s) \<leftarrow>
          (if res \<noteq> FR_OK then do {
             (res, dj, s) \<leftarrow> (if res = FR_NO_FILE then dir_register s dj else Some (res, dj, s));
             Some (res, mode OR FA_CREATE_ALWAYS, dj, s)
           }
           else if attr (dobj dj) AND (AM_RDO OR AM_DIR) \<noteq> 0 then Some (FR_DENIED, mode, dj, s)
           else if mode AND FA_CREATE_NEW \<noteq> 0 then Some (FR_EXIST, mode, dj, s)
           else Some (FR_OK, mode, dj, s));
        if res = FR_OK \<and> mode AND FA_CREATE_ALWAYS \<noteq> 0 then do {
          (res, s) \<leftarrow> f_open_trunc s dj;
          Some (res, mode, dj, s)
        } else Some (res, mode, dj, s)
      }
      else if res = FR_OK then
        if attr (dobj dj) AND AM_DIR \<noteq> 0 then Some (FR_NO_FILE, mode, dj, s)
        else if mode AND FA_WRITE \<noteq> 0 \<and> attr (dobj dj) AND AM_RDO \<noteq> 0
        then Some (FR_DENIED, mode, dj, s)
        else Some (FR_OK, mode, dj, s)
      else Some (res, mode, dj, s))"

text \<open>The loop that follows the chain to the end of the file for \<open>FA_OPEN_APPEND\<close>.\<close>

partial_function (option) f_open_seek_loop ::
    "vol \<Rightarrow> DWORD \<Rightarrow> DWORD \<Rightarrow> FSIZE_t \<Rightarrow> (FRESULT \<times> DWORD \<times> FSIZE_t \<times> vol) option" where
  "f_open_seek_loop s bcs clst ofs =
     (if ofs > bcs then do {
        (clst, s) \<leftarrow> get_fat s clst;
        let res = (if clst = 0xFFFFFFFF then FR_DISK_ERR
                   else if clst \<le> 1 then FR_INT_ERR else FR_OK);
        if res = FR_OK then f_open_seek_loop s bcs clst (ofs - bcs)
        else Some (res, clst, ofs - bcs, s)
      } else Some (FR_OK, clst, ofs, s))"

declare f_open_seek_loop.simps [code]

text \<open>Lines 3839 to 3912: the file object of an opened file.\<close>

definition f_open_finish ::
    "vol \<Rightarrow> nat \<Rightarrow> DIR \<Rightarrow> BYTE \<Rightarrow> FIL \<Rightarrow> (FRESULT \<times> FIL \<times> vol) option" where
  "f_open_finish s a dj mode fp = do {
     let mode = (if mode AND FA_CREATE_ALWAYS \<noteq> 0 then mode OR FA_MODIFIED else mode);
     let fp = fp\<lparr>dir_sect := winsect s, dir_ptr := dir dj\<rparr>;
     cl \<leftarrow> ld_clust s (win s) (dir dj);
     sz \<leftarrow> ld_dword (win s) (dir dj + DIR_FileSize);
     let fp = fp\<lparr>fobj := (fobj fp)\<lparr>sclust := cl, objsize := sz, ofs_ptr := Some a, oid := fs_id s\<rparr>,
                 fflag := mode, ferr := FR_OK, fsect := 0, fptr := 0\<rparr>;
     if mode AND FA_SEEKEND \<noteq> 0 \<and> objsize (fobj fp) > 0 then do {
       let fp = fp\<lparr>fptr := objsize (fobj fp)\<rparr>;
       let bcs = ucast (csize s) * SS;
       (res, clst, ofs, s) \<leftarrow> f_open_seek_loop s bcs (sclust (fobj fp)) (objsize (fobj fp));
       let fp = fp\<lparr>fclust := clst\<rparr>;
       if res = FR_OK \<and> ofs mod SS \<noteq> 0 then
         let sc = clst2sect s clst
         in if sc = 0 then Some (FR_INT_ERR, fp, s)
            else Some (FR_OK, fp\<lparr>fsect := sc + ofs div SS\<rparr>, s)
       else Some (res, fp, s)
     } else Some (FR_OK, fp, s)
   }"

text \<open>Lines 3760 to 3912: the object of an accepted path on the mounted volume.\<close>

definition f_open_vol ::
    "bool \<Rightarrow> vol \<Rightarrow> nat \<Rightarrow> FIL \<Rightarrow> buffer \<Rightarrow> BYTE \<Rightarrow> (FRESULT \<times> FIL \<times> vol) option" where
  "f_open_vol sc s a fp path mode = do {
     (res, dj, s) \<leftarrow> follow_path sc s (blank_DIR a) path;
     ns \<leftarrow> ldb (fn dj) NSFLAG;
     let res = (if res = FR_OK \<and> ns AND NS_NONAME \<noteq> 0 then FR_INVALID_NAME else res);
     (res, mode, dj, s) \<leftarrow> f_open_target s dj res mode;
     if res = FR_OK then f_open_finish s a dj mode fp else Some (res, fp, s)
   }"

text \<open>The bits of the access mode that are not masked off.\<close>

abbreviation (input) FA_OPEN_MASK :: BYTE where
  "FA_OPEN_MASK \<equiv> FA_READ OR FA_WRITE OR FA_CREATE_ALWAYS OR FA_CREATE_NEW
                   OR FA_OPEN_ALWAYS OR FA_OPEN_APPEND"

text \<open>Lines 3754 to 3917, for an object pointer that is not null.\<close>

definition f_open_obj ::
    "bool \<Rightarrow> sys \<Rightarrow> FIL \<Rightarrow> buffer option \<Rightarrow> BYTE \<Rightarrow> (FRESULT \<times> FIL \<times> sys) option" where
  "f_open_obj sc sy fp path mode = do {
     let mode = mode AND FA_OPEN_MASK;
     (res, rfs, path, sy) \<leftarrow> mount_volume sy path mode;
     (res, fp, sy) \<leftarrow>
       (if res = FR_OK then do {
          a \<leftarrow> rfs;
          p \<leftarrow> path;
          (res, fp, s) \<leftarrow> f_open_vol sc (load_vol sy a) a fp p mode;
          Some (res, fp, store_vol sy a s)
        } else Some (res, fp, sy));
     Some (res, if res \<noteq> FR_OK then fp\<lparr>fobj := (fobj fp)\<lparr>ofs_ptr := None\<rparr>\<rparr> else fp, sy)
   }"

definition f_open ::
    "bool \<Rightarrow> sys \<Rightarrow> FIL option \<Rightarrow> buffer option \<Rightarrow> BYTE \<Rightarrow> (FRESULT \<times> FIL option \<times> sys) option" where
  "f_open sc sy fp path mode =
     (case fp of
        None \<Rightarrow> Some (FR_INVALID_OBJECT, None, sy)
      | Some fp \<Rightarrow> do {
          (res, fp, sy) \<leftarrow> f_open_obj sc sy fp path mode;
          Some (res, Some fp, sy)
        })"

section \<open>Reading\<close>

text \<open>Lines 3953 to 3974: the sector at a sector boundary of the file, with the offset of the
  sector in its cluster; a result other than \<open>FR_OK\<close> is an \<open>ABORT\<close>.\<close>

definition f_read_sect :: "vol \<Rightarrow> FIL \<Rightarrow> (FRESULT \<times> LBA_t \<times> UINT \<times> FIL \<times> vol) option" where
  "f_read_sect s fp = do {
     let csect = (fptr fp div SS) AND (ucast (csize s) - 1);
     (res, fp, s) \<leftarrow>
       (if csect = 0 then do {
          (clst, s) \<leftarrow> (if fptr fp = 0 then Some (sclust (fobj fp), s) else get_fat s (fclust fp));
          if clst < 2 then Some (FR_INT_ERR, fp, s)
          else if clst = 0xFFFFFFFF then Some (FR_DISK_ERR, fp, s)
          else Some (FR_OK, fp\<lparr>fclust := clst\<rparr>, s)
        } else Some (FR_OK, fp, s));
     if res \<noteq> FR_OK then Some (res, 0, csect, fp, s)
     else do {
       let sector = clst2sect s (fclust fp);
       if sector = 0 then Some (FR_INT_ERR, 0, csect, fp, s)
       else Some (FR_OK, sector + csect, csect, fp, s)
     }
   }"

text \<open>Lines 3978 to 3980, and 4093 to 4095 in \<open>f_write\<close>: the number of whole sectors of a direct
  transfer, clipped at the end of the cluster.\<close>

definition clip_count :: "vol \<Rightarrow> UINT \<Rightarrow> UINT \<Rightarrow> UINT" where
  "clip_count s csect cc =
     (if csect + cc > ucast (csize s) then ucast (csize s) - csect else cc)"

text \<open>Lines 3981 to 3991: the direct transfer of \<open>cc\<close> sectors to the caller's buffer at \<open>br\<close>,
  with the sector of a dirty window copied over the stale data.\<close>

definition f_read_direct ::
    "vol \<Rightarrow> buffer \<Rightarrow> UINT \<Rightarrow> LBA_t \<Rightarrow> UINT \<Rightarrow> (DRESULT \<times> buffer) option" where
  "f_read_direct s buff br sector cc = do {
     (r, t) \<leftarrow> disk_read (vdisk s) (drop (unat br) buff) sector cc;
     let buff = take (unat br) buff @ t;
     if r = RES_OK \<and> wflag s \<noteq> 0 \<and> winsect s - sector < cc then do {
       w \<leftarrow> memread (win s) 0 512;
       buff \<leftarrow> memwrite buff (unat br + unat ((winsect s - sector) * SS)) w;
       Some (r, buff)
     } else Some (r, buff)
   }"

text \<open>Lines 4001 to 4009: copy from the window.\<close>

definition f_read_partial ::
    "vol \<Rightarrow> FIL \<Rightarrow> buffer \<Rightarrow> UINT \<Rightarrow> UINT \<Rightarrow> (FRESULT \<times> UINT \<times> buffer \<times> vol) option" where
  "f_read_partial s fp buff btr br = do {
     let rcnt = SS - fptr fp mod SS;
     let rcnt = (if rcnt > btr then btr else rcnt);
     (res, s) \<leftarrow> move_window s (fsect fp);
     if res \<noteq> FR_OK then Some (FR_DISK_ERR, rcnt, buff, s)
     else do {
       x \<leftarrow> memread (win s) (unat (fptr fp mod SS)) (unat rcnt);
       buff \<leftarrow> memwrite buff (unat br) x;
       Some (FR_OK, rcnt, buff, s)
     }
   }"

text \<open>One round of the loop, lines 3953 to 4012: the number of bytes transferred, or the
  argument of an \<open>ABORT\<close>.\<close>

definition f_read_step ::
    "vol \<Rightarrow> FIL \<Rightarrow> buffer \<Rightarrow> UINT \<Rightarrow> UINT \<Rightarrow> (FRESULT \<times> UINT \<times> FIL \<times> buffer \<times> vol) option" where
  "f_read_step s fp buff btr br =
     (if fptr fp mod SS = 0 then do {
        (res, sector, csect, fp, s) \<leftarrow> f_read_sect s fp;
        if res \<noteq> FR_OK then Some (res, 0, fp, buff, s)
        else do {
          let cc = btr div SS;
          if cc > 0 then do {
            let cc = clip_count s csect cc;
            (r, buff) \<leftarrow> f_read_direct s buff br sector cc;
            if r \<noteq> RES_OK then Some (FR_DISK_ERR, 0, fp, buff, s)
            else Some (FR_OK, SS * cc, fp, buff, s)
          }
          else do {
            let fp = fp\<lparr>fsect := sector\<rparr>;
            (res, rcnt, buff, s) \<leftarrow> f_read_partial s fp buff btr br;
            Some (res, rcnt, fp, buff, s)
          }
        }
      }
      else do {
        (res, rcnt, buff, s) \<leftarrow> f_read_partial s fp buff btr br;
        Some (res, rcnt, fp, buff, s)
      })"

partial_function (option) f_read_loop ::
    "vol \<Rightarrow> FIL \<Rightarrow> buffer \<Rightarrow> UINT \<Rightarrow> UINT \<Rightarrow> (FRESULT \<times> FIL \<times> buffer \<times> UINT \<times> vol) option" where
  "f_read_loop s fp buff btr br =
     (if btr > 0 then do {
        (res, rcnt, fp, buff, s) \<leftarrow> f_read_step s fp buff btr br;
        if res \<noteq> FR_OK then Some (res, fp\<lparr>ferr := res\<rparr>, buff, br, s)
        else f_read_loop s (fp\<lparr>fptr := fptr fp + rcnt\<rparr>) buff (btr - rcnt) (br + rcnt)
      } else Some (FR_OK, fp, buff, br, s))"

declare f_read_loop.simps [code]

definition f_read ::
    "sys \<Rightarrow> FIL \<Rightarrow> buffer \<Rightarrow> UINT \<Rightarrow> (FRESULT \<times> FIL \<times> buffer \<times> UINT \<times> sys) option" where
  "f_read sy fp buff btr =
     (case validate sy (fobj fp) of
        (res, rfs) \<Rightarrow>
          if res \<noteq> FR_OK then Some (res, fp, buff, 0, sy)
          else if ferr fp \<noteq> FR_OK then Some (ferr fp, fp, buff, 0, sy)
          else if fflag fp AND FA_READ = 0 then Some (FR_DENIED, fp, buff, 0, sy)
          else do {
            a \<leftarrow> rfs;
            let remain = objsize (fobj fp) - fptr fp;
            let btr = (if btr > remain then remain else btr);
            (res, fp, buff, br, s) \<leftarrow> f_read_loop (load_vol sy a) fp buff btr 0;
            Some (res, fp, buff, br, store_vol sy a s)
          })"

section \<open>Writing\<close>

text \<open>Lines 4056 to 4078: the cluster at a sector boundary, allocated if needed.  The boolean
  is the \<open>break\<close> on a full disk.\<close>

definition f_write_clust :: "vol \<Rightarrow> FIL \<Rightarrow> UINT \<Rightarrow> (bool \<times> FRESULT \<times> FIL \<times> vol) option" where
  "f_write_clust s fp csect =
     (if csect = 0 then do {
        (clst, s) \<leftarrow>
          (if fptr fp = 0 then
             let clst = sclust (fobj fp)
             in if clst = 0 then create_chain s 0 else Some (clst, s)
           else create_chain s (fclust fp));
        if clst = 0 then Some (True, FR_OK, fp, s)
        else if clst = 1 then Some (False, FR_INT_ERR, fp, s)
        else if clst = 0xFFFFFFFF then Some (False, FR_DISK_ERR, fp, s)
        else do {
          let fp = fp\<lparr>fclust := clst\<rparr>;
          let fp = (if sclust (fobj fp) = 0 then fp\<lparr>fobj := (fobj fp)\<lparr>sclust := clst\<rparr>\<rparr> else fp);
          Some (False, FR_OK, fp, s)
        }
      } else Some (False, FR_OK, fp, s))"

text \<open>Lines 4080 to 4089: write back the sector cache and get the current sector.\<close>

definition f_write_sect :: "vol \<Rightarrow> FIL \<Rightarrow> UINT \<Rightarrow> (FRESULT \<times> LBA_t \<times> vol) option" where
  "f_write_sect s fp csect = do {
     (res, s) \<leftarrow> (if winsect s = fsect fp then sync_window s else Some (FR_OK, s));
     if res \<noteq> FR_OK then Some (FR_DISK_ERR, 0, s)
     else do {
       let sector = clst2sect s (fclust fp);
       if sector = 0 then Some (FR_INT_ERR, 0, s) else Some (FR_OK, sector + csect, s)
     }
   }"

text \<open>Lines 4091 to 4110: the direct transfer of \<open>cc\<close> sectors from the caller's buffer at
  \<open>bw\<close>; the window is refilled if it shows one of them.\<close>

definition f_write_direct ::
    "vol \<Rightarrow> buffer \<Rightarrow> UINT \<Rightarrow> LBA_t \<Rightarrow> UINT \<Rightarrow> (DRESULT \<times> vol) option" where
  "f_write_direct s buff bw sector cc = do {
     (r, d) \<leftarrow> disk_write (vdisk s) (drop (unat bw) buff) sector cc;
     let s = s\<lparr>vdisk := d\<rparr>;
     if r = RES_OK \<and> winsect s - sector < cc then do {
       x \<leftarrow> memread buff (unat bw + unat ((winsect s - sector) * SS)) 512;
       w \<leftarrow> memwrite (win s) 0 x;
       Some (r, s\<lparr>win := w, wflag := 0\<rparr>)
     } else Some (r, s)
   }"

text \<open>The update clause of the \<open>for\<close> statement.\<close>

definition f_write_advance :: "FIL \<Rightarrow> UINT \<Rightarrow> FIL" where
  "f_write_advance fp wcnt =
     (let fp = fp\<lparr>fptr := fptr fp + wcnt\<rparr>
      in fp\<lparr>fobj := (fobj fp)\<lparr>objsize :=
              (if fptr fp > objsize (fobj fp) then fptr fp else objsize (fobj fp))\<rparr>\<rparr>)"

text \<open>Lines 4126 to 4131: copy into the window.\<close>

definition f_write_partial ::
    "vol \<Rightarrow> FIL \<Rightarrow> buffer \<Rightarrow> UINT \<Rightarrow> UINT \<Rightarrow> (FRESULT \<times> UINT \<times> vol) option" where
  "f_write_partial s fp buff btw bw = do {
     let wcnt = SS - fptr fp mod SS;
     let wcnt = (if wcnt > btw then btw else wcnt);
     (res, s) \<leftarrow> move_window s (fsect fp);
     if res \<noteq> FR_OK then Some (FR_DISK_ERR, wcnt, s)
     else do {
       x \<leftarrow> memread buff (unat bw) (unat wcnt);
       w \<leftarrow> memwrite (win s) (unat (fptr fp mod SS)) x;
       Some (FR_OK, wcnt, s\<lparr>win := w, wflag := 1\<rparr>)
     }
   }"

text \<open>Lines 4112 to 4116: at the growing edge the window moves to the sector without being
  filled.\<close>

definition f_write_edge :: "vol \<Rightarrow> FIL \<Rightarrow> LBA_t \<Rightarrow> (FRESULT \<times> vol) option" where
  "f_write_edge s fp sector =
     (if fptr fp \<ge> objsize (fobj fp) then do {
        (res, s) \<leftarrow> sync_window s;
        if res \<noteq> FR_OK then Some (FR_DISK_ERR, s) else Some (FR_OK, s\<lparr>winsect := sector\<rparr>)
      } else Some (FR_OK, s))"

text \<open>Lines 4091 to 4131, after the current sector is known.\<close>

definition f_write_xfer ::
    "vol \<Rightarrow> FIL \<Rightarrow> buffer \<Rightarrow> UINT \<Rightarrow> UINT \<Rightarrow> LBA_t \<Rightarrow> UINT \<Rightarrow>
     (FRESULT \<times> UINT \<times> FIL \<times> vol) option" where
  "f_write_xfer s fp buff btw bw sector csect = do {
     let cc = btw div SS;
     if cc > 0 then do {
       let cc = clip_count s csect cc;
       (r, s) \<leftarrow> f_write_direct s buff bw sector cc;
       if r \<noteq> RES_OK then Some (FR_DISK_ERR, 0, fp, s) else Some (FR_OK, SS * cc, fp, s)
     }
     else do {
       (res, s) \<leftarrow> f_write_edge s fp sector;
       if res \<noteq> FR_OK then Some (res, 0, fp, s)
       else do {
         let fp = fp\<lparr>fsect := sector\<rparr>;
         (res, wcnt, s) \<leftarrow> f_write_partial s fp buff btw bw;
         Some (res, wcnt, fp, s)
       }
     }
   }"

text \<open>One round of the loop, lines 4054 to 4135: the boolean is the \<open>break\<close>, a result other
  than \<open>FR_OK\<close> the argument of an \<open>ABORT\<close>.\<close>

definition f_write_step ::
    "vol \<Rightarrow> FIL \<Rightarrow> buffer \<Rightarrow> UINT \<Rightarrow> UINT \<Rightarrow> (bool \<times> FRESULT \<times> UINT \<times> FIL \<times> vol) option" where
  "f_write_step s fp buff btw bw =
     (if fptr fp mod SS = 0 then do {
        let csect = (fptr fp div SS) AND (ucast (csize s) - 1);
        (brk, res, fp, s) \<leftarrow> f_write_clust s fp csect;
        if brk \<or> res \<noteq> FR_OK then Some (brk, res, 0, fp, s)
        else do {
          (res, sector, s) \<leftarrow> f_write_sect s fp csect;
          if res \<noteq> FR_OK then Some (False, res, 0, fp, s)
          else do {
            (res, wcnt, fp, s) \<leftarrow> f_write_xfer s fp buff btw bw sector csect;
            Some (False, res, wcnt, fp, s)
          }
        }
      }
      else do {
        (res, wcnt, s) \<leftarrow> f_write_partial s fp buff btw bw;
        Some (False, res, wcnt, fp, s)
      })"

partial_function (option) f_write_loop ::
    "vol \<Rightarrow> FIL \<Rightarrow> buffer \<Rightarrow> UINT \<Rightarrow> UINT \<Rightarrow> (FRESULT \<times> FIL \<times> UINT \<times> vol) option" where
  "f_write_loop s fp buff btw bw =
     (if btw > 0 then do {
        (brk, res, wcnt, fp, s) \<leftarrow> f_write_step s fp buff btw bw;
        if brk then Some (FR_OK, fp, bw, s)
        else if res \<noteq> FR_OK then Some (res, fp\<lparr>ferr := res\<rparr>, bw, s)
        else f_write_loop s (f_write_advance fp wcnt) buff (btw - wcnt) (bw + wcnt)
      } else Some (FR_OK, fp, bw, s))"

declare f_write_loop.simps [code]

text \<open>The flag of a modified file is set when the loop ends, not on an \<open>ABORT\<close>.\<close>

definition f_write ::
    "sys \<Rightarrow> FIL \<Rightarrow> buffer \<Rightarrow> UINT \<Rightarrow> (FRESULT \<times> FIL \<times> UINT \<times> sys) option" where
  "f_write sy fp buff btw =
     (case validate sy (fobj fp) of
        (res, rfs) \<Rightarrow>
          if res \<noteq> FR_OK then Some (res, fp, 0, sy)
          else if ferr fp \<noteq> FR_OK then Some (ferr fp, fp, 0, sy)
          else if fflag fp AND FA_WRITE = 0 then Some (FR_DENIED, fp, 0, sy)
          else do {
            a \<leftarrow> rfs;
            let btw = (if fptr fp + btw < fptr fp then 0xFFFFFFFF - fptr fp else btw);
            (res, fp, bw, s) \<leftarrow> f_write_loop (load_vol sy a) fp buff btw 0;
            Some (res, if res = FR_OK then fp\<lparr>fflag := fflag fp OR FA_MODIFIED\<rparr> else fp, bw,
                  store_vol sy a s)
          })"

section \<open>Synchronisation and closing\<close>

definition f_sync_vol :: "vol \<Rightarrow> FIL \<Rightarrow> (FRESULT \<times> FIL \<times> vol) option" where
  "f_sync_vol s fp =
     (if fflag fp AND FA_MODIFIED \<noteq> 0 then do {
        let tm = GET_FATTIME;
        (res, s) \<leftarrow> move_window s (dir_sect fp);
        if res = FR_OK then do {
          let p = dir_ptr fp;
          a \<leftarrow> ldb (win s) (p + DIR_Attr);
          b \<leftarrow> stb (win s) (p + DIR_Attr) (a OR AM_ARC);
          b \<leftarrow> st_clust s b p (sclust (fobj fp));
          b \<leftarrow> st_dword b (p + DIR_FileSize) (objsize (fobj fp));
          b \<leftarrow> st_dword b (p + DIR_ModTime) tm;
          b \<leftarrow> st_word b (p + DIR_LstAccDate) 0;
          (res, s) \<leftarrow> sync_fs (s\<lparr>win := b, wflag := 1\<rparr>);
          Some (res, fp\<lparr>fflag := fflag fp AND NOT FA_MODIFIED\<rparr>, s)
        } else Some (res, fp, s)
      } else Some (FR_OK, fp, s))"

definition f_sync :: "sys \<Rightarrow> FIL \<Rightarrow> (FRESULT \<times> FIL \<times> sys) option" where
  "f_sync sy fp =
     (case validate sy (fobj fp) of
        (res, rfs) \<Rightarrow>
          if res = FR_OK then do {
            a \<leftarrow> rfs;
            (res, fp, s) \<leftarrow> f_sync_vol (load_vol sy a) fp;
            Some (res, fp, store_vol sy a s)
          } else Some (res, fp, sy))"

definition f_close :: "sys \<Rightarrow> FIL \<Rightarrow> (FRESULT \<times> FIL \<times> sys) option" where
  "f_close sy fp = do {
     (res, fp, sy) \<leftarrow> f_sync sy fp;
     if res = FR_OK then
       case validate sy (fobj fp) of
         (res, _) \<Rightarrow>
           Some (res, if res = FR_OK then fp\<lparr>fobj := (fobj fp)\<lparr>ofs_ptr := None\<rparr>\<rparr> else fp, sy)
     else Some (res, fp, sy)
   }"

section \<open>Seeking\<close>

text \<open>The cluster following loop of \<open>f_lseek\<close>, lines 4555 to 4575.\<close>

partial_function (option) f_lseek_loop ::
    "vol \<Rightarrow> FIL \<Rightarrow> DWORD \<Rightarrow> DWORD \<Rightarrow> FSIZE_t \<Rightarrow>
     (FRESULT \<times> FIL \<times> DWORD \<times> FSIZE_t \<times> vol) option" where
  "f_lseek_loop s fp bcs clst ofs =
     (if ofs > bcs then do {
        let ofs = ofs - bcs;
        let fp = fp\<lparr>fptr := fptr fp + bcs\<rparr>;
        (clst, s) \<leftarrow> (if fflag fp AND FA_WRITE \<noteq> 0 then create_chain s clst else get_fat s clst);
        if fflag fp AND FA_WRITE \<noteq> 0 \<and> clst = 0 then Some (FR_OK, fp, clst, 0, s)
        else if clst = 0xFFFFFFFF then Some (FR_DISK_ERR, fp, clst, ofs, s)
        else if clst \<le> 1 \<or> clst \<ge> n_fatent s then Some (FR_INT_ERR, fp, clst, ofs, s)
        else f_lseek_loop s (fp\<lparr>fclust := clst\<rparr>) bcs clst ofs
      } else Some (FR_OK, fp, clst, ofs, s))"

declare f_lseek_loop.simps [code]

text \<open>Lines 4536 to 4553: where the search starts; the remaining offset and the cluster.\<close>

definition f_lseek_start ::
    "vol \<Rightarrow> FIL \<Rightarrow> FSIZE_t \<Rightarrow> FSIZE_t \<Rightarrow> DWORD \<Rightarrow>
     (FRESULT \<times> FIL \<times> DWORD \<times> FSIZE_t \<times> vol) option" where
  "f_lseek_start s fp ifptr ofs bcs =
     (if ifptr > 0 \<and> (ofs - 1) div bcs \<ge> (ifptr - 1) div bcs then
        let fp = fp\<lparr>fptr := (ifptr - 1) AND NOT (bcs - 1)\<rparr>
        in Some (FR_OK, fp, fclust fp, ofs - fptr fp, s)
      else do {
        let clst = sclust (fobj fp);
        (res, clst, fp, s) \<leftarrow>
          (if clst = 0 then do {
             (clst, s) \<leftarrow> create_chain s 0;
             if clst = 1 then Some (FR_INT_ERR, clst, fp, s)
             else if clst = 0xFFFFFFFF then Some (FR_DISK_ERR, clst, fp, s)
             else Some (FR_OK, clst, fp\<lparr>fobj := (fobj fp)\<lparr>sclust := clst\<rparr>\<rparr>, s)
           } else Some (FR_OK, clst, fp, s));
        if res \<noteq> FR_OK then Some (res, fp, clst, ofs, s)
        else Some (FR_OK, fp\<lparr>fclust := clst\<rparr>, clst, ofs, s)
      })"

text \<open>Lines 4535 to 4583: move the file pointer to \<open>ofs\<close>; the sector of the new position, 0 on
  a sector boundary.  A result other than \<open>FR_OK\<close> is an \<open>ABORT\<close>.\<close>

definition f_lseek_move ::
    "vol \<Rightarrow> FIL \<Rightarrow> FSIZE_t \<Rightarrow> FSIZE_t \<Rightarrow> (FRESULT \<times> FIL \<times> LBA_t \<times> vol) option" where
  "f_lseek_move s fp ifptr ofs =
     (if ofs > 0 then do {
        let bcs = ucast (csize s) * SS;
        (res, fp, clst, ofs, s) \<leftarrow> f_lseek_start s fp ifptr ofs bcs;
        if res \<noteq> FR_OK then Some (res, fp, 0, s)
        else if clst \<noteq> 0 then do {
          (res, fp, clst, ofs, s) \<leftarrow> f_lseek_loop s fp bcs clst ofs;
          if res \<noteq> FR_OK then Some (res, fp, 0, s)
          else do {
            let fp = fp\<lparr>fptr := fptr fp + ofs\<rparr>;
            if ofs mod SS \<noteq> 0 then
              let nsect = clst2sect s clst
              in if nsect = 0 then Some (FR_INT_ERR, fp, 0, s)
                 else Some (FR_OK, fp, nsect + ofs div SS, s)
            else Some (FR_OK, fp, 0, s)
          }
        }
        else Some (FR_OK, fp, 0, s)
      } else Some (FR_OK, fp, 0, s))"

definition f_lseek_vol :: "vol \<Rightarrow> FIL \<Rightarrow> FSIZE_t \<Rightarrow> (FRESULT \<times> FIL \<times> vol) option" where
  "f_lseek_vol s fp ofs = do {
     let ofs = (if ofs > objsize (fobj fp) \<and> fflag fp AND FA_WRITE = 0
                then objsize (fobj fp) else ofs);
     let ifptr = fptr fp;
     (res, fp, nsect, s) \<leftarrow> f_lseek_move s (fp\<lparr>fptr := 0\<rparr>) ifptr ofs;
     if res \<noteq> FR_OK then Some (res, fp\<lparr>ferr := res\<rparr>, s)
     else do {
       let fp = (if fptr fp > objsize (fobj fp)
                 then fp\<lparr>fobj := (fobj fp)\<lparr>objsize := fptr fp\<rparr>, fflag := fflag fp OR FA_MODIFIED\<rparr>
                 else fp);
       let fp = (if fptr fp mod SS \<noteq> 0 \<and> nsect \<noteq> fsect fp then fp\<lparr>fsect := nsect\<rparr> else fp);
       Some (FR_OK, fp, s)
     }
   }"

definition f_lseek :: "sys \<Rightarrow> FIL \<Rightarrow> FSIZE_t \<Rightarrow> (FRESULT \<times> FIL \<times> sys) option" where
  "f_lseek sy fp ofs =
     (case validate sy (fobj fp) of
        (res, rfs) \<Rightarrow>
          let res = (if res = FR_OK then ferr fp else res)
          in if res \<noteq> FR_OK then Some (res, fp, sy)
             else do {
               a \<leftarrow> rfs;
               (res, fp, s) \<leftarrow> f_lseek_vol (load_vol sy a) fp ofs;
               Some (res, fp, store_vol sy a s)
             })"

section \<open>Truncation\<close>

definition f_truncate_vol :: "vol \<Rightarrow> FIL \<Rightarrow> (FRESULT \<times> FIL \<times> vol) option" where
  "f_truncate_vol s fp =
     (if fptr fp < objsize (fobj fp) then do {
        (res, fp, s) \<leftarrow>
          (if fptr fp = 0 then do {
             (res, s) \<leftarrow> remove_chain s (sclust (fobj fp)) 0;
             Some (res, fp\<lparr>fobj := (fobj fp)\<lparr>sclust := 0\<rparr>\<rparr>, s)
           }
           else do {
             (ncl, s) \<leftarrow> get_fat s (fclust fp);
             let res = (if ncl = 1 then FR_INT_ERR
                        else if ncl = 0xFFFFFFFF then FR_DISK_ERR else FR_OK);
             if res = FR_OK \<and> ncl < n_fatent s then do {
               (res, s) \<leftarrow> remove_chain s ncl (fclust fp);
               Some (res, fp, s)
             } else Some (res, fp, s)
           });
        let fp = fp\<lparr>fobj := (fobj fp)\<lparr>objsize := fptr fp\<rparr>, fflag := fflag fp OR FA_MODIFIED\<rparr>;
        if res \<noteq> FR_OK then Some (res, fp\<lparr>ferr := res\<rparr>, s) else Some (res, fp, s)
      } else Some (FR_OK, fp, s))"

definition f_truncate :: "sys \<Rightarrow> FIL \<Rightarrow> (FRESULT \<times> FIL \<times> sys) option" where
  "f_truncate sy fp =
     (case validate sy (fobj fp) of
        (res, rfs) \<Rightarrow>
          if res \<noteq> FR_OK then Some (res, fp, sy)
          else if ferr fp \<noteq> FR_OK then Some (ferr fp, fp, sy)
          else if fflag fp AND FA_WRITE = 0 then Some (FR_DENIED, fp, sy)
          else do {
            a \<leftarrow> rfs;
            (res, fp, s) \<leftarrow> f_truncate_vol (load_vol sy a) fp;
            Some (res, fp, store_vol sy a s)
          })"

end
