(* ===== verification/FF_ReadWrite.thy ===== *)
theory FF_ReadWrite
  imports FF_File
begin

text \<open>
  Safety of the file operations on an arbitrary volume image: each returns, makes no access
  outside its buffers, keeps the invariant of the module state, and moves the file pointer as
  its contract says.
\<close>

section \<open>Reading\<close>

text \<open>A file object of an opened file points at a directory entry inside the window.\<close>

definition fok :: "FIL \<Rightarrow> bool" where
  "fok fp \<longleftrightarrow> dir_ptr fp \<le> 480"

lemma csect_less:
  assumes "csize s \<noteq> 0"
  shows "unat ((x :: DWORD) AND (ucast (csize s) - 1)) < unat (csize s)"
proof -
  have "unat (csize s) \<noteq> 0" using assms by (simp add: unat_gt_0)
  then have p: "(1::DWORD) \<le> ucast (csize s)" by (simp add: word_le_nat_alt unat_ucast_up)
  have "x AND (ucast (csize s) - 1) \<le> ucast (csize s) - 1" by (rule word_and_le1)
  then have "unat (x AND (ucast (csize s) - 1)) \<le> unat (csize s) - 1"
    using p by (simp add: word_le_nat_alt unat_sub unat_ucast_up)
  then show ?thesis using \<open>unat (csize s) \<noteq> 0\<close> by linarith
qed

text \<open>The number of whole sectors of a direct transfer: at least one, within the request and
  within the cluster.\<close>

lemma clip_count_bounds:
  fixes btr csect :: DWORD
  assumes "unat csect < unat (csize s)" "btr div 512 > 0"
  defines "cc \<equiv> clip_count s csect (btr div 512)"
  shows "0 < unat cc" "512 * unat cc \<le> unat btr" "unat cc < 0x800000" "unat (512 * cc) = 512 * unat cc"
    "unat csect + unat cc \<le> unat (csize s)"
proof -
  have b: "unat (btr div 512) = unat btr div 512" by (simp add: unat_div)
  have b0: "0 < unat btr div 512" using assms(2) by (simp add: word_less_nat_alt b)
  have sm: "unat (csize s) < 65536" "unat btr < 4294967296" by simp_all
  have "unat csect + unat (btr div 512) < 4294967296"
    unfolding b using sm assms(1) by linarith
  then have "unat csect + unat (btr div 512) < 2 ^ LENGTH(32)" by simp
  then have a: "unat (csect + btr div 512) = unat csect + unat btr div 512"
    by (simp add: unat_add_lem [THEN iffD1] b)
  have d: "unat (ucast (csize s) - csect) = unat (csize s) - unat csect"
    using assms(1) by (subst unat_sub) (simp_all add: word_le_nat_alt unat_ucast_up)
  show c: "0 < unat cc" "512 * unat cc \<le> unat btr" "unat csect + unat cc \<le> unat (csize s)"
    using assms(1) b0 by (auto simp: cc_def clip_count_def a b d word_less_nat_alt unat_ucast_up)
  then show "unat cc < 0x800000" using sm(2) by linarith
  then show "unat (512 * cc) = 512 * unat cc" by (simp add: unat_word_ariths)
qed

lemma f_read_direct_wp:
  assumes "vok s" "unat br + 512 * unat cc \<le> length buff" "unat cc < 0x800000"
    and Q: "\<And>r b'. length b' = length buff \<Longrightarrow> Q (r, b')"
  shows "wp (f_read_direct s buff br sector cc) Q"
proof -
  have o: "unat (x * 512) = 512 * unat x" "unat br + 512 * unat x + 512 \<le> length buff"
    if "x < cc" for x :: DWORD
    using that assms(2,3) by (simp_all add: word_less_nat_alt unat_word_ariths)
  show ?thesis
    unfolding f_read_direct_def using assms(1,2) o [of "winsect s - sector"]
    by (auto simp: wp_simps Let_def simp del: left_diff_distrib_numeral intro!: disk_read_wp Q)
qed

lemma good_vok: "good s s' \<Longrightarrow> vok s'"
  by (simp add: good_def)

definition fsame :: "FIL \<Rightarrow> FIL \<Rightarrow> bool" where
  "fsame fp fp' \<longleftrightarrow> fobj fp' = fobj fp \<and> fflag fp' = fflag fp \<and> dir_ptr fp' = dir_ptr fp \<and>
     dir_sect fp' = dir_sect fp"

lemma f_read_sect_wp:
  assumes "vok s"
    and Q: "\<And>r sec csect fp' s'. \<lbrakk>good s s'; fsame fp fp'; fptr fp' = fptr fp; ferr fp' = ferr fp;
            csect = (fptr fp div 512) AND (ucast (csize s) - 1)\<rbrakk> \<Longrightarrow> Q (r, sec, csect, fp', s')"
  shows "wp (f_read_sect s fp) Q"
  unfolding f_read_sect_def using assms(1)
  by (auto simp: wp_simps Let_def fsame_def intro!: get_fat_wp Q)


lemma part_count:
  fixes p btr :: DWORD
  assumes "0 < btr" "cnt = (if 512 - p mod 512 > btr then btr else 512 - p mod 512)"
  shows "0 < unat cnt" "unat cnt \<le> unat btr" "unat (p mod 512) + unat cnt \<le> 512"
proof -
  have m: "unat (p mod 512) < 512" by (simp add: unat_mod)
  have d: "unat (512 - p mod 512) = 512 - unat (p mod 512)"
    using less_imp_le [OF m] by (subst unat_sub) (simp_all add: word_le_nat_alt)
  show "0 < unat cnt" "unat cnt \<le> unat btr"
    using assms m by (auto simp: word_less_nat_alt d)
  have "unat cnt \<le> 512 - unat (p mod 512)"
    using assms m by (auto simp: word_less_nat_alt d)
  then show "unat (p mod 512) + unat cnt \<le> 512" using m by linarith
qed

text \<open>One round of the loop moves \<open>cnt\<close> bytes.\<close>

lemma count_step:
  fixes btr br cnt :: DWORD
  assumes "0 < unat cnt" "unat cnt \<le> unat btr" "unat br + unat btr \<le> n" "unat br + unat btr < 4294967296"
  shows "unat (btr - cnt) < unat btr" "unat (br + cnt) + unat (btr - cnt) \<le> n"
    "unat (br + cnt) + unat (btr - cnt) < 4294967296" "(br + cnt) + (btr - cnt) = br + btr"
    "unat (br + cnt) = unat br + unat cnt" "unat (btr - cnt) = unat btr - unat cnt"
proof -
  show d: "unat (btr - cnt) = unat btr - unat cnt"
    using assms(2) by (simp add: unat_sub word_le_nat_alt)
  have "unat br + unat cnt < 2 ^ LENGTH(32)" using assms(2,4) by simp
  then show a: "unat (br + cnt) = unat br + unat cnt" by (simp add: unat_add_lem [THEN iffD1])
  show "unat (btr - cnt) < unat btr" "unat (br + cnt) + unat (btr - cnt) \<le> n"
    "unat (br + cnt) + unat (btr - cnt) < 4294967296"
    using assms unfolding a d by linarith+
qed simp

lemma f_read_partial_wp:
  assumes "vok s" "0 < btr" "unat br + unat btr \<le> length buff"
    and Q: "\<And>r cnt b' s'. \<lbrakk>good s s'; 0 < unat cnt; unat cnt \<le> unat btr; length b' = length buff\<rbrakk>
             \<Longrightarrow> Q (r, cnt, b', s')"
  shows "wp (f_read_partial s fp buff btr br) Q"
  unfolding f_read_partial_def Let_def wp_simps
  apply (rule move_window_wp [OF assms(1)])
  using part_count [OF assms(2) refl, of "fptr fp"] assms(3)
  by (auto simp: wp_simps frame_simps intro!: Q simp del: split_paired_All)

lemma f_read_step_wp:
  assumes "vok s" "csize s \<noteq> 0" "0 < btr" "unat br + unat btr \<le> length buff"
    and Q: "\<And>r cnt fp' b' s'. \<lbrakk>good s s'; r = FR_OK \<longrightarrow> 0 < unat cnt; unat cnt \<le> unat btr; length b' = length buff;
              fsame fp fp'; fptr fp' = fptr fp; ferr fp' = ferr fp\<rbrakk> \<Longrightarrow> Q (r, cnt, fp', b', s')"
  shows "wp (f_read_step s fp buff btr br) Q"
proof -
  define cs where "cs = fptr fp div 512 AND (ucast (csize s) - 1)"
  have c: "unat cs < unat (csize s)" unfolding cs_def using assms(2) by (rule csect_less)
  have dc: "0 < unat (512 * clip_count s' cs (btr div 512))"
      "unat (512 * clip_count s' cs (btr div 512)) \<le> unat btr"
      "unat (clip_count s' cs (btr div 512)) < 0x800000"
      "unat br + 512 * unat (clip_count s' cs (btr div 512)) \<le> length buff"
    if "good s s'" "0 < btr div 512" for s'
    using clip_count_bounds [of cs s' btr] c that assms(4) by (simp_all add: frame_simps)
  have dir: "wp (f_read_direct s' buff br sec (clip_count s' cs (btr div 512))) R"
    if "good s s'" "0 < btr div 512" "\<And>r b. length b = length buff \<Longrightarrow> R (r, b)" for s' sec R
    using that dc [OF that(1,2)] good_vok [OF that(1)] by (intro f_read_direct_wp) auto
  have par: "wp (f_read_partial s' fp' buff btr br) R"
    if "good s s'" "\<And>r cnt b' s''. \<lbrakk>good s s''; 0 < unat cnt; unat cnt \<le> unat btr; length b' = length buff\<rbrakk>
       \<Longrightarrow> R (r, cnt, b', s'')" for s' fp' R
    by (rule f_read_partial_wp [OF good_vok [OF that(1)] assms(3,4)], rule that(2))
      (auto intro: good_trans [OF that(1)])
  have sec: "wp (f_read_sect s fp) R"
    if "\<And>r sec fp' s'. \<lbrakk>good s s'; fsame fp fp'; fptr fp' = fptr fp; ferr fp' = ferr fp\<rbrakk> \<Longrightarrow> R (r, sec, cs, fp', s')" for R
    unfolding cs_def by (rule f_read_sect_wp [OF assms(1)]) (simp add: that [unfolded cs_def])
  show ?thesis
    unfolding f_read_step_def wp_simps Let_def
    using assms(1) by (auto simp: wp_simps fsame_def dc intro!: sec dir par Q)
qed

definition rpost :: "vol \<Rightarrow> FIL \<Rightarrow> buffer \<Rightarrow> UINT \<Rightarrow> UINT \<Rightarrow> FRESULT \<times> FIL \<times> buffer \<times> UINT \<times> vol \<Rightarrow> bool" where
  "rpost s0 fp buff btr br = (\<lambda>(r, fp', buff', br', s').
     good s0 s' \<and> fsame fp fp' \<and> length buff' = length buff \<and>
     fptr fp' - fptr fp = br' - br \<and> unat br \<le> unat br' \<and> unat br' \<le> unat br + unat btr \<and>
     ferr fp' = (if r = FR_OK then ferr fp else r) \<and> (r = FR_OK \<longrightarrow> br' = br + btr))"

lemma f_read_loop_wp:
  assumes "good s0 s" "csize s0 \<noteq> 0" "unat br + unat btr \<le> length buff" "unat br + unat btr < 4294967296"
  shows "wp (f_read_loop s fp buff btr br) (rpost s0 fp buff btr br)"
  using assms
proof (induction "unat btr" arbitrary: s fp buff btr br rule: less_induct)
  case less
  have rec: "wp (f_read_loop s' (fp'\<lparr>fptr := fptr fp' + cnt\<rparr>) buff' (btr - cnt) (br + cnt)) (rpost s0 fp buff btr br)"
    if "good s0 s'" "fsame fp fp'" "fptr fp' = fptr fp" "ferr fp' = ferr fp" "0 < unat cnt" "unat cnt \<le> unat btr"
      "length buff' = length buff"
    for s' fp' buff' cnt
  proof -
    note st = count_step [OF that(5,6) less.prems(3,4)]
    have "wp (f_read_loop s' (fp'\<lparr>fptr := fptr fp' + cnt\<rparr>) buff' (btr - cnt) (br + cnt))
       (rpost s0 (fp'\<lparr>fptr := fptr fp' + cnt\<rparr>) buff' (btr - cnt) (br + cnt))"
      using that st less.prems(2) by (intro less.hyps) simp_all
    then show ?thesis
      by (rule wp_mono) (use that st in \<open>auto simp: rpost_def fsame_def algebra_simps\<close>)
  qed
  show ?case
    apply (subst f_read_loop.simps)
    using less.prems
    apply (auto simp: wp_simps Let_def frame_simps intro!: f_read_step_wp rec)
    apply (simp_all add: rpost_def frame_simps fsame_def not_less)
    done
qed

lemma f_read_wp:
  assumes "sys_ok sy" "unat btr \<le> length buff"
    and Q: "\<And>r fp' buff' br sy'. \<lbrakk>sys_ok sy'; keeps sy sy'; length buff' = length buff; unat br \<le> unat btr; fsame fp fp';
              fptr fp' = fptr fp + br; ferr fp' = ferr fp \<or> ferr fp' = r\<rbrakk> \<Longrightarrow> Q (r, fp', buff', br, sy')"
  shows "wp (f_read sy fp buff btr) Q"
proof (cases rule: validate_cases [of sy "fobj fp"])
  case (ok a)
  note m = sys_ok_mounted [OF assms(1) ok(3)]
  have lp: "wp (f_read_loop (load_vol sy a) fp buff n 0) (rpost (load_vol sy a) fp buff n 0)"
    if "unat n \<le> unat btr" for n
    using that assms(2) m by (intro f_read_loop_wp) (auto simp: vdir_def)
  have "wp (f_read_loop (load_vol sy a) fp buff n 0) (\<lambda>(r, fp', b', br, s'). Q (r, fp', b', br, store_vol sy a s'))"
    if "unat n \<le> unat btr" for n
    using lp [OF that] by (rule wp_mono)
      (use that in \<open>auto simp: rpost_def algebra_simps intro!: Q sys_ok_store_good keeps_store assms(1) ok(3)\<close>)
  then show ?thesis
    using ok assms(1) by (auto simp: f_read_def wp_simps Let_def fsame_def word_less_nat_alt intro!: Q)
next
  case bad
  then show ?thesis using assms(1) by (auto simp: f_read_def wp_simps fsame_def intro!: Q)
qed

section \<open>Writing\<close>

lemma disk_bytes_store_range:
  assumes "c * 512 \<le> length b"
  shows "disk_bytes (disk_store d (m * 512) (take (c * 512) b)) (n * 512) 512 =
    (if m \<le> n \<and> n < m + c then take 512 (drop ((n - m) * 512) b) else disk_bytes d (n * 512) 512)"
proof (cases "m \<le> n \<and> n < m + c")
  case True
  then have c: "n - m < c" by linarith
  have lb: "(n - m) * 512 + 512 \<le> length b" using c assms by linarith
  have "disk_bytes (disk_store d (m * 512) (take (c * 512) b)) (n * 512) 512 ! j = b ! ((n - m) * 512 + j)"
    if "j < 512" for j
  proof -
    have i: "m * 512 \<le> n * 512 + j" "n * 512 + j < m * 512 + c * 512" using True that by linarith+
    have e: "n * 512 + j - m * 512 = (n - m) * 512 + j" using True by (simp add: diff_mult_distrib)
    have l: "(n - m) * 512 + j < c * 512" using c that by linarith
    show ?thesis using that i l e assms by (simp add: disk_store_def min_absorb2)
  qed
  then show ?thesis using True lb by (intro nth_equalityI) simp_all
next
  case False
  have "disk_bytes (disk_store d (m * 512) (take (c * 512) b)) (n * 512) 512 ! j = d (n * 512 + j)"
    if "j < 512" for j
  proof -
    have "\<not> (m * 512 \<le> n * 512 + j \<and> n * 512 + j < m * 512 + c * 512)"
      using False that by linarith
    then show ?thesis using that assms by (auto simp: disk_store_def min_absorb2)
  qed
  then show ?thesis using False by (intro nth_equalityI) auto
qed

lemma window_range:
  fixes w n c :: LBA_t
  assumes "unat n + unat c \<le> DISK_SECTORS"
  shows "w - n < c \<longleftrightarrow> unat n \<le> unat w \<and> unat w < unat n + unat c"
    "n \<le> w \<Longrightarrow> unat (w - n) = unat w - unat n"
proof -
  show d: "n \<le> w \<Longrightarrow> unat (w - n) = unat w - unat n" by (simp add: unat_sub)
  show "w - n < c \<longleftrightarrow> unat n \<le> unat w \<and> unat w < unat n + unat c"
  proof (cases "n \<le> w")
    case True
    then show ?thesis by (auto simp: word_less_nat_alt d word_le_nat_alt)
  next
    case False
    then have "unat w < unat n" by (simp add: word_le_nat_alt)
    then have "unat (w - n) = 4294967296 + unat w - unat n"
      using unat_sub_if' [of w n] by simp
    then show ?thesis using False assms by (simp add: word_less_nat_alt word_le_nat_alt)
  qed
qed

lemma f_write_direct_wp:
  assumes "vok s" "unat bw + 512 * unat cc \<le> length buff" "unat cc < 0x800000"
    and Q: "\<And>r s'. good s s' \<Longrightarrow> Q (r, s')"
  shows "wp (f_write_direct s buff bw sector cc) Q"
proof -
  define x where "x = winsect s - sector"
  have o: "unat (x * 512) = unat x * 512" "unat bw + unat x * 512 + 512 \<le> length buff"
    if "x < cc"
    using that assms(2,3) by (simp_all add: word_less_nat_alt unat_word_ariths)
  let ?d = "disk_store (vdisk s) (unat sector * 512) (take (unat cc * 512) (drop (unat bw) buff))"
  have len: "unat cc * 512 \<le> length (drop (unat bw) buff)" using assms(2) by simp
  have hit: "good s (s\<lparr>vdisk := ?d, win := take 512 (drop (unat bw + unat (x * 512)) buff), wflag := 0\<rparr>)"
    if "x < cc" "unat sector + unat cc \<le> DISK_SECTORS"
    using that o window_range [OF that(2), of "winsect s"] disk_bytes_store_range [OF len]
    by (simp add: frame_simps vok_def coh_def x_def word_le_nat_alt add.commute)
  have miss: "good s (s\<lparr>vdisk := ?d\<rparr>)"
    if "\<not> x < cc" "unat sector + unat cc \<le> DISK_SECTORS"
    using that assms(1) window_range [OF that(2), of "winsect s"] disk_bytes_store_range [OF len]
    by (auto simp: frame_simps vok_def coh_def x_def)
  have l: "length (win s) = 512" using assms(1) by (simp add: vok_def)
  show ?thesis
    unfolding f_write_direct_def Let_def wp_simps using assms(1) len o hit miss l
    by (auto simp: wp_simps x_def [symmetric] intro!: disk_write_wp Q)
qed

lemma f_write_partial_wp:
  assumes "vok s \<or> length (win s) = 512 \<and> winsect s = fsect fp" "0 < btw" "unat bw + unat btw \<le> length buff"
    and Q: "\<And>r cnt s'. \<lbrakk>good s s'; 0 < unat cnt; unat cnt \<le> unat btw\<rbrakk>
             \<Longrightarrow> Q (r, cnt, s')"
  shows "wp (f_write_partial s fp buff btw bw) Q"
proof -
  have mv: "wp (move_window s (fsect fp)) R"
    if "\<And>r s'. \<lbrakk>geo s' = geo s; length (win s') = 512; r = FR_OK \<or> vok s'\<rbrakk> \<Longrightarrow> R (r, s')" for R
    using assms(1)
  proof
    assume "vok s"
    then show ?thesis by (rule move_window_wp) (auto intro!: that simp: good_def vok_def)
  next
    assume "length (win s) = 512 \<and> winsect s = fsect fp"
    then show ?thesis using that by (simp add: move_window_def)
  qed
  show ?thesis
    unfolding f_write_partial_def Let_def wp_simps
    using part_count [OF assms(2) refl, of "fptr fp"] assms(3)
    by (auto simp: wp_simps frame_simps intro!: mv Q simp del: split_paired_All)
qed

definition wsame :: "FIL \<Rightarrow> FIL \<Rightarrow> bool" where
  "wsame fp fp' \<longleftrightarrow> fflag fp' = fflag fp \<and> dir_ptr fp' = dir_ptr fp \<and> dir_sect fp' = dir_sect fp \<and>
     ofs_ptr (fobj fp') = ofs_ptr (fobj fp) \<and> oid (fobj fp') = oid (fobj fp)"

lemma wsame_refl [simp]: "wsame a a"
  by (simp add: wsame_def)

lemma wsame_trans: "wsame a b \<Longrightarrow> wsame b c \<Longrightarrow> wsame a c"
  by (simp add: wsame_def)

lemma f_write_clust_wp:
  assumes "vdir s"
    and Q: "\<And>k r fp' s'. \<lbrakk>good s s'; wsame fp fp'; fptr fp' = fptr fp; ferr fp' = ferr fp;
              objsize (fobj fp') = objsize (fobj fp)\<rbrakk> \<Longrightarrow> Q (k, r, fp', s')"
  shows "wp (f_write_clust s fp csect) Q"
  unfolding f_write_clust_def using assms(1)
  by (auto simp: wp_simps Let_def wsame_def vdir_def intro!: create_chain_wp Q)

lemma f_write_sect_wp:
  assumes "vok s" and Q: "\<And>r sec s'. good s s' \<Longrightarrow> Q (r, sec, s')"
  shows "wp (f_write_sect s fp csect) Q"
  unfolding f_write_sect_def using assms(1)
  by (auto simp: wp_simps Let_def intro!: sync_window_wp Q)

lemma f_write_xfer_wp:
  assumes "vok s" "0 < btw" "unat bw + unat btw \<le> length buff" "unat csect < unat (csize s)"
    and Q: "\<And>r cnt fp' s'. \<lbrakk>good s s'; r = FR_OK \<longrightarrow> 0 < unat cnt; unat cnt \<le> unat btw; wsame fp fp';
              fptr fp' = fptr fp; ferr fp' = ferr fp; objsize (fobj fp') = objsize (fobj fp)\<rbrakk>
             \<Longrightarrow> Q (r, cnt, fp', s')"
  shows "wp (f_write_xfer s fp buff btw bw sector csect) Q"
proof (cases "0 < btw div 512")
  case True
  note dc = clip_count_bounds [OF assms(4) True]
  have dir: "wp (f_write_direct s buff bw sector (clip_count s csect (btw div 512))) R"
    if "\<And>r s'. good s s' \<Longrightarrow> R (r, s')" for R
    using dc assms(3) by (intro f_write_direct_wp that assms(1)) simp_all
  show ?thesis
    unfolding f_write_xfer_def Let_def wp_simps using True assms(1) dc
    by (auto simp: wp_simps wsame_def intro!: dir Q)
next
  case False
  show ?thesis
    unfolding f_write_xfer_def f_write_edge_def Let_def wp_simps using False assms(1-3)
    by (auto simp: wp_simps wsame_def frame_simps vok_length intro!: sync_window_wp f_write_partial_wp Q)
qed

lemma f_write_step_wp:
  assumes "vdir s" "0 < btw" "unat bw + unat btw \<le> length buff"
    and Q: "\<And>k r cnt fp' s'. \<lbrakk>good s s'; \<not> k \<and> r = FR_OK \<longrightarrow> 0 < unat cnt; unat cnt \<le> unat btw; wsame fp fp';
              fptr fp' = fptr fp; ferr fp' = ferr fp; objsize (fobj fp') = objsize (fobj fp)\<rbrakk>
             \<Longrightarrow> Q (k, r, cnt, fp', s')"
  shows "wp (f_write_step s fp buff btw bw) Q"
proof -
  define cs where "cs = fptr fp div 512 AND (ucast (csize s) - 1)"
  have c: "unat cs < unat (csize s)" unfolding cs_def using assms(1) by (intro csect_less) (simp add: vdir_def)
  have xf: "wp (f_write_xfer s' fp' buff btw bw sec cs) R"
    if "good s s'" "\<And>r cnt fp'' s''. \<lbrakk>good s s''; r = FR_OK \<longrightarrow> 0 < unat cnt; unat cnt \<le> unat btw; wsame fp' fp'';
              fptr fp'' = fptr fp'; ferr fp'' = ferr fp'; objsize (fobj fp'') = objsize (fobj fp')\<rbrakk>
             \<Longrightarrow> R (r, cnt, fp'', s'')" for s' fp' sec R
    using c that(1) by (intro f_write_xfer_wp that(2) good_vok [OF that(1)] assms(2,3))
      (auto intro: good_trans [OF that(1)] simp: frame_simps)
  have se: "wp (f_write_sect s' fp' cs) R"
    if "good s s'" "\<And>r sec s''. good s s'' \<Longrightarrow> R (r, sec, s'')" for s' fp' R
    by (rule f_write_sect_wp [OF good_vok [OF that(1)]], rule that(2)) (rule good_trans [OF that(1)])
  show ?thesis
    unfolding f_write_step_def Let_def wp_simps cs_def [symmetric] using assms
    by (auto simp: wp_simps vdir_def intro!: f_write_clust_wp se xf f_write_partial_wp Q intro: wsame_trans)
qed

text \<open>The object after \<open>n\<close> bytes have been written at its pointer.\<close>

definition wpost :: "vol \<Rightarrow> FIL \<Rightarrow> UINT \<Rightarrow> UINT \<Rightarrow> FRESULT \<times> FIL \<times> UINT \<times> vol \<Rightarrow> bool" where
  "wpost s0 fp btw bw = (\<lambda>(r, fp', bw', s').
     good s0 s' \<and> wsame fp fp' \<and>
     fptr fp' - fptr fp = bw' - bw \<and> unat bw \<le> unat bw' \<and> unat bw' \<le> unat bw + unat btw \<and>
     ferr fp' = (if r = FR_OK then ferr fp else r) \<and>
     (unat (fptr fp) + unat btw < 4294967296 \<longrightarrow>
        objsize (fobj fp') = (if bw' = bw then objsize (fobj fp) else max (objsize (fobj fp)) (fptr fp'))))"

lemma wpost_stop:
  "\<lbrakk>good s0 s'; wsame fp fp'; fptr fp' = fptr fp; objsize (fobj fp') = objsize (fobj fp);
    ferr fp' = (if r = FR_OK then ferr fp else r)\<rbrakk> \<Longrightarrow> wpost s0 fp btw bw (r, fp', bw, s')"
  by (simp add: wpost_def)

lemma f_write_advance_simps [simp]:
  "fptr (f_write_advance fp n) = fptr fp + n" "ferr (f_write_advance fp n) = ferr fp"
  "wsame fp (f_write_advance fp n)" "wsame (f_write_advance fp n) fp' = wsame fp fp'"
  "objsize (fobj (f_write_advance fp n)) = max (objsize (fobj fp)) (fptr fp + n)"
  by (auto simp: f_write_advance_def Let_def wsame_def max_def)

lemma unat_plus:
  "unat a + unat b < 4294967296 \<Longrightarrow> unat (a + b) = unat a + unat (b :: DWORD)"
  by (simp add: unat_add_lem [THEN iffD1])

lemma clip_wrap:
  fixes p n :: DWORD
  shows "unat (if p + n < p then 0xFFFFFFFF - p else n) \<le> unat n"
    "unat p + unat (if p + n < p then 0xFFFFFFFF - p else n) < 4294967296"
proof -
  have le: "unat p \<le> 4294967295" using unat_32_less [of p] by linarith
  then have x: "unat (0xFFFFFFFF - p) = 4294967295 - unat p"
    by (subst unat_sub) (simp_all add: word_le_nat_alt)
  have w: "unat p + unat n \<ge> 4294967296" if "p + n < p"
    using that unat_plus [of p n] by (cases "unat p + unat n < 4294967296") (auto simp: word_less_nat_alt)
  have nw: "unat p + unat n < 4294967296" if "\<not> p + n < p"
  proof (rule ccontr)
    assume "\<not> unat p + unat n < 4294967296"
    then have ge: "4294967296 \<le> unat p + unat n" by simp
    have lt: "unat p + unat n - 4294967296 < unat p" using unat_32_less [of n] ge by linarith
    have "unat (p + n) = (unat p + unat n) mod 4294967296" by (simp add: unat_word_ariths)
    also have "\<dots> = unat p + unat n - 4294967296"
      unfolding le_mod_geq [OF ge] using lt unat_32_less [of p] by (intro mod_less) linarith
    finally show False using that lt by (simp add: word_less_nat_alt)
  qed
  show "unat (if p + n < p then 0xFFFFFFFF - p else n) \<le> unat n"
    "unat p + unat (if p + n < p then 0xFFFFFFFF - p else n) < 4294967296"
    using w nw le by (auto simp: x)
qed

lemma wpost_step:
  assumes "wpost s0 (f_write_advance fp' cnt) (btw - cnt) (bw + cnt) (r, fp'', bw', s'')"
    "wsame fp fp'" "fptr fp' = fptr fp" "ferr fp' = ferr fp" "objsize (fobj fp') = objsize (fobj fp)"
    "0 < unat cnt" "unat cnt \<le> unat btw" "unat bw + unat btw < 4294967296"
  shows "wpost s0 fp btw bw (r, fp'', bw', s'')"
proof -
  note st = count_step [OF assms(6,7) order.refl assms(8)]
  note w = assms(1) [unfolded wpost_def, simplified]
  have b: "unat bw + unat cnt \<le> unat bw'" "unat bw' \<le> unat bw + unat btw"
    using w st assms(7) by simp_all
  have p: "fptr fp'' = fptr fp + (bw' - bw)" using w assms(3) by (simp add: algebra_simps)
  have d: "unat (bw' - bw) = unat bw' - unat bw" using b by (simp add: unat_sub word_le_nat_alt)
  have "objsize (fobj fp'') = max (objsize (fobj fp)) (fptr fp'')"
    if f: "unat (fptr fp) + unat btw < 4294967296"
  proof -
    have u: "unat (fptr fp + cnt) = unat (fptr fp) + unat cnt"
      using f assms(7) by (intro unat_plus) linarith
    have "unat (fptr fp'') = unat (fptr fp) + unat (bw' - bw)"
      unfolding p using f b d by (intro unat_plus) linarith
    then have "fptr fp + cnt \<le> fptr fp''"
      unfolding word_le_nat_alt u using b d by linarith
    moreover have "unat (fptr fp + cnt) + unat (btw - cnt) < 4294967296"
      using f assms(7) unfolding u st(6) by linarith
    moreover have "fptr fp'' = fptr fp + cnt" if "bw' = bw + cnt" using that p by simp
    ultimately show ?thesis using w assms(3,5) by (auto simp: max_def split: if_splits)
  qed
  then show ?thesis
    using w assms(2,3,4,6) b p by (auto simp: wpost_def intro: wsame_trans)
qed

lemma f_write_loop_wp:
  assumes "good s0 s" "vdir s0" "unat bw + unat btw \<le> length buff" "unat bw + unat btw < 4294967296"
  shows "wp (f_write_loop s fp buff btw bw) (wpost s0 fp btw bw)"
  using assms
proof (induction "unat btw" arbitrary: s fp btw bw rule: less_induct)
  case less
  have rec: "wp (f_write_loop s' (f_write_advance fp' cnt) buff (btw - cnt) (bw + cnt)) (wpost s0 fp btw bw)"
    if "good s0 s'" "wsame fp fp'" "fptr fp' = fptr fp" "ferr fp' = ferr fp"
      "objsize (fobj fp') = objsize (fobj fp)" "0 < unat cnt" "unat cnt \<le> unat btw"
    for s' fp' cnt
  proof -
    note st = count_step [OF that(6,7) less.prems(3,4)]
    have "wp (f_write_loop s' (f_write_advance fp' cnt) buff (btw - cnt) (bw + cnt))
       (wpost s0 (f_write_advance fp' cnt) (btw - cnt) (bw + cnt))"
      using that st less.prems(2) by (intro less.hyps) simp_all
    then show ?thesis
      by (rule wp_mono) (use that less.prems(4) in \<open>auto elim!: wpost_step\<close>)
  qed
  have st: "wp (f_write_step s fp buff btw bw) R"
    if "0 < btw" "\<And>k r cnt fp' s'. \<lbrakk>good s0 s'; \<not> k \<and> r = FR_OK \<longrightarrow> 0 < unat cnt; unat cnt \<le> unat btw; wsame fp fp';
              fptr fp' = fptr fp; ferr fp' = ferr fp; objsize (fobj fp') = objsize (fobj fp)\<rbrakk>
             \<Longrightarrow> R (k, r, cnt, fp', s')" for R
    by (rule f_write_step_wp [OF vdir_good [OF less.prems(1,2)] that(1) less.prems(3)], rule that(2))
      (auto intro: good_trans [OF less.prems(1)])
  show ?case
    apply (subst f_write_loop.simps)
    using less.prems(1)
    by (auto simp: wp_simps wsame_def intro!: st rec wpost_stop)
qed

lemma f_write_wp:
  assumes "sys_ok sy" "unat btw \<le> length buff"
    and Q: "\<And>r fp' bw sy'. \<lbrakk>sys_ok sy'; keeps sy sy'; unat bw \<le> unat btw; wsame (fp\<lparr>fflag := fflag fp'\<rparr>) fp';
              fptr fp' = fptr fp + bw; ferr fp' = ferr fp \<or> ferr fp' = r;
              objsize (fobj fp') = (if bw = 0 then objsize (fobj fp) else max (objsize (fobj fp)) (fptr fp'))\<rbrakk>
             \<Longrightarrow> Q (r, fp', bw, sy')"
  shows "wp (f_write sy fp buff btw) Q"
proof (cases rule: validate_cases [of sy "fobj fp"])
  case (ok a)
  note m = sys_ok_mounted [OF assms(1) ok(3)]
  define n where "n = (if fptr fp + btw < fptr fp then 0xFFFFFFFF - fptr fp else btw)"
  have n: "unat n \<le> unat btw" "unat (fptr fp) + unat n < 4294967296"
    unfolding n_def using clip_wrap [of "fptr fp" btw] by simp_all
  have "wp (f_write_loop (load_vol sy a) fp buff n 0) (wpost (load_vol sy a) fp n 0)"
    using n(1) assms(2) m by (intro f_write_loop_wp) auto
  then have "wp (f_write_loop (load_vol sy a) fp buff n 0) (\<lambda>(r, fp', bw, s').
      Q (r, if r = FR_OK then fp'\<lparr>fflag := fflag fp' OR FA_MODIFIED\<rparr> else fp', bw, store_vol sy a s'))"
    by (rule wp_mono) (use n in \<open>auto simp: wpost_def wsame_def algebra_simps
        intro!: Q sys_ok_store_good keeps_store assms(1) ok(3) split: if_splits\<close>)
  then show ?thesis
    using ok assms(1) by (auto simp: f_write_def n_def wp_simps Let_def case_prod_beta' intro!: Q)
next
  case bad
  then show ?thesis using assms(1) by (auto simp: f_write_def wp_simps intro!: Q)
qed

end
