(* ===== verification/FF_FileOps.thy ===== *)
theory FF_FileOps
  imports FF_ReadWrite
begin

text \<open>
  Safety of the remaining file operations, \<open>f_sync\<close>, \<open>f_close\<close>, \<open>f_lseek\<close>, \<open>f_truncate\<close> and
  \<open>f_open\<close>, on an arbitrary volume image.
\<close>

section \<open>Synchronisation and closing\<close>

text \<open>The two objects agree in all but the flags.\<close>

definition flag_only :: "FIL \<Rightarrow> FIL \<Rightarrow> bool" where
  "flag_only fp fp' \<longleftrightarrow> fp' = fp\<lparr>fflag := fflag fp'\<rparr>"

lemma flag_onlyI [simp]: "flag_only fp fp" "flag_only fp (fp\<lparr>fflag := f\<rparr>)"
  by (simp_all add: flag_only_def)

lemma flag_onlyD:
  assumes "flag_only fp fp'"
  shows "fobj fp' = fobj fp" "dir_ptr fp' = dir_ptr fp" "fptr fp' = fptr fp" "ferr fp' = ferr fp"
  by (subst assms [unfolded flag_only_def], simp)+

lemma f_sync_vol_wp:
  assumes "vok s" "fok fp"
    and Q: "\<And>r fp' s'. \<lbrakk>good s s'; flag_only fp fp';
            r = FR_OK \<longrightarrow> fflag fp' = (fflag fp AND NOT FA_MODIFIED) \<or> fp' = fp \<and> fflag fp AND FA_MODIFIED = 0\<rbrakk>
            \<Longrightarrow> Q (r, fp', s')"
  shows "wp (f_sync_vol s fp) Q"
  unfolding f_sync_vol_def Let_def using assms(1,2)
  by (auto simp: wp_simps frame_simps fok_def vok_length
      intro!: move_window_wp st_clust_wp st_dword_wp st_word_wp sync_fs_wp Q)

lemma validate_store:
  assumes "good (load_vol sy a) s"
  shows "validate (store_vol sy a s) obj = validate sy obj"
  using assms by (simp add: validate_def frame_simps disk_status_def split: option.split)

lemma f_sync_wp:
  assumes "sys_ok sy" "fok fp"
    and Q: "\<And>r fp' sy'. \<lbrakk>sys_ok sy'; keeps sy sy'; flag_only fp fp'; validate sy' (fobj fp) = validate sy (fobj fp);
         r = FR_OK \<longrightarrow> validate sy (fobj fp) \<noteq> (FR_INVALID_OBJECT, None)\<rbrakk> \<Longrightarrow> Q (r, fp', sy')"
  shows "wp (f_sync sy fp) Q"
proof (cases rule: validate_cases [of sy "fobj fp"])
  case (ok a)
  note m = sys_ok_mounted [OF assms(1) ok(3)]
  show ?thesis
    unfolding f_sync_def using ok m assms(1,2)
    by (auto simp: wp_simps validate_store intro!: f_sync_vol_wp Q sys_ok_store_good keeps_store)
next
  case bad
  then show ?thesis using assms(1) by (auto simp: f_sync_def wp_simps intro!: Q)
qed

lemma f_close_wp:
  assumes "sys_ok sy" "fok fp"
    and Q: "\<And>r fp' sy'. \<lbrakk>sys_ok sy'; keeps sy sy'; fok fp'; r = FR_OK \<longrightarrow> ofs_ptr (fobj fp') = None\<rbrakk> \<Longrightarrow> Q (r, fp', sy')"
  shows "wp (f_close sy fp) Q"
  unfolding f_close_def wp_simps
  by (rule f_sync_wp [OF assms(1,2)])
    (use assms(2) in \<open>auto simp: wp_simps fok_def split: prod.split intro!: Q dest: flag_onlyD\<close>)

section \<open>Seeking\<close>

text \<open>Following the chain ends because each round takes one cluster from the offset.\<close>

lemma ofs_step:
  fixes ofs bcs :: DWORD
  assumes "bcs < ofs" "bcs \<noteq> 0"
  shows "unat (ofs - bcs) < unat ofs"
proof -
  have "0 < unat bcs" using assms(2) by (simp add: unat_gt_0)
  then show ?thesis using assms(1) by (simp add: unat_sub word_less_nat_alt word_le_nat_alt)
qed

lemma f_lseek_loop_wp:
  assumes "good s0 s" "vdir s0" "bcs \<noteq> 0"
  shows "wp (f_lseek_loop s fp bcs clst ofs)
     (\<lambda>(r, fp', c, o', s'). good s0 s' \<and> wsame fp fp' \<and> fobj fp' = fobj fp \<and>
        (fflag fp AND FA_WRITE = 0 \<longrightarrow> r = FR_OK \<longrightarrow> fptr fp' + o' = fptr fp + ofs))"
  using assms
proof (induction "unat ofs" arbitrary: s fp clst ofs rule: less_induct)
  case less
  have st: "unat (ofs - bcs) < unat ofs" if "bcs < ofs" using that less.prems(3) by (rule ofs_step)
  note v = vdir_good [OF less.prems(1,2)]
  have rec: "wp (f_lseek_loop s' (fp\<lparr>fptr := fptr fp + bcs, fclust := c\<rparr>) bcs c (ofs - bcs))
     (\<lambda>(r, fp', c, o', s'). good s0 s' \<and> wsame fp fp' \<and> fobj fp' = fobj fp \<and>
        (fflag fp AND FA_WRITE = 0 \<longrightarrow> r = FR_OK \<longrightarrow> fptr fp' + o' = fptr fp + ofs))"
    if "good s s'" "bcs < ofs" for s' c
    by (rule wp_mono [OF less.hyps [OF st [OF that(2)] good_trans [OF less.prems(1) that(1)] less.prems(2,3)]])
      (auto simp: wsame_def)
  show ?case
    apply (subst f_lseek_loop.simps)
    using less.prems(1) v rec
    by (auto simp: wp_simps Let_def vdir_def wsame_def intro!: create_chain_wp get_fat_wp intro: good_trans)
qed

lemma f_lseek_start_wp:
  assumes "vdir s"
    and Q: "\<And>r fp' c o' s'. \<lbrakk>good s s'; wsame fp fp'; objsize (fobj fp') = objsize (fobj fp);
            r = FR_OK \<longrightarrow> fptr fp = 0 \<longrightarrow> fptr fp' + o' = ofs\<rbrakk> \<Longrightarrow> Q (r, fp', c, o', s')"
  shows "wp (f_lseek_start s fp ifptr ofs bcs) Q"
  unfolding f_lseek_start_def using assms(1)
  by (auto simp: wp_simps Let_def vdir_def wsame_def intro!: create_chain_wp Q)

lemma bcs_nonzero: "csize s \<noteq> 0 \<Longrightarrow> (ucast (csize s) * 512 :: DWORD) \<noteq> 0"
  by (simp add: unat_eq_zero [symmetric] csize_bytes)

lemma f_lseek_move_wp:
  assumes "vdir s"
    and Q: "\<And>r fp' n s'. \<lbrakk>good s s'; wsame fp fp'; objsize (fobj fp') = objsize (fobj fp)\<rbrakk> \<Longrightarrow> Q (r, fp', n, s')"
  shows "wp (f_lseek_move s fp ifptr ofs) Q"
proof -
  have b: "(ucast (csize s) * 512 :: DWORD) \<noteq> 0" using assms(1) by (simp add: bcs_nonzero vdir_def)
  have lp: "wp (f_lseek_loop s' fp' (ucast (csize s) * 512) c o') R"
    if "good s s'" "\<And>r fp'' c o' s''. \<lbrakk>good s s''; wsame fp' fp''; fobj fp'' = fobj fp'\<rbrakk> \<Longrightarrow> R (r, fp'', c, o', s'')"
    for s' fp' c o' R
    by (rule wp_mono [OF f_lseek_loop_wp [OF that(1) assms(1) b]]) (auto intro!: that(2))
  show ?thesis
    unfolding f_lseek_move_def Let_def wp_simps using assms(1)
    by (auto simp: wp_simps wsame_def vdir_def intro!: f_lseek_start_wp lp Q)
qed

lemma f_lseek_vol_wp:
  assumes "vdir s"
    and Q: "\<And>r fp' s'. \<lbrakk>good s s'; wsame (fp\<lparr>fflag := fflag fp'\<rparr>) fp'; objsize (fobj fp') = max (objsize (fobj fp)) (fptr fp') \<or> r \<noteq> FR_OK\<rbrakk>
            \<Longrightarrow> Q (r, fp', s')"
  shows "wp (f_lseek_vol s fp ofs) Q"
  unfolding f_lseek_vol_def Let_def wp_simps using assms(1)
  by (auto simp: wp_simps wsame_def max_def not_le intro!: f_lseek_move_wp Q split: if_splits)

lemma f_lseek_wp:
  assumes "sys_ok sy" "fok fp"
    and Q: "\<And>r fp' sy'. \<lbrakk>sys_ok sy'; keeps sy sy'; fok fp'; ofs_ptr (fobj fp') = ofs_ptr (fobj fp);
              r = FR_OK \<longrightarrow> fptr fp' \<le> objsize (fobj fp')\<rbrakk> \<Longrightarrow> Q (r, fp', sy')"
  shows "wp (f_lseek sy fp ofs) Q"
proof (cases rule: validate_cases [of sy "fobj fp"])
  case (ok a)
  note m = sys_ok_mounted [OF assms(1) ok(3)]
  show ?thesis
    unfolding f_lseek_def using ok m assms(1,2)
    by (auto simp: wp_simps Let_def wsame_def fok_def intro!: f_lseek_vol_wp Q sys_ok_store_good keeps_store)
next
  case bad
  then show ?thesis using assms(1,2) by (auto simp: f_lseek_def wp_simps intro!: Q)
qed

section \<open>Truncation\<close>

lemma f_truncate_vol_wp:
  assumes "vok s" "gok s" "mirror_ok s"
    and Q: "\<And>r fp' s'. \<lbrakk>good s s'; wsame (fp\<lparr>fflag := fflag fp'\<rparr>) fp'; fptr fp' = fptr fp;
              fptr fp \<le> objsize (fobj fp) \<longrightarrow> objsize (fobj fp') = fptr fp\<rbrakk> \<Longrightarrow> Q (r, fp', s')"
  shows "wp (f_truncate_vol s fp) Q"
proof -
  have rc: "wp (remove_chain s' c p) R" if "good s s'" "\<And>r s''. good s s'' \<Longrightarrow> R (r, s'')" for s' c p R
    by (rule remove_chain_wp [OF good_vok [OF that(1)]], simp_all add: gok_good [OF that(1)] mirror_ok_good [OF that(1)] assms)
      (auto intro!: that(2) intro: good_trans [OF that(1)])
  show ?thesis
    unfolding f_truncate_vol_def Let_def wp_simps using assms(1)
    by (auto simp: wp_simps wsame_def not_less intro!: rc get_fat_wp Q)
qed

lemma f_truncate_wp:
  assumes "sys_ok sy" "fok fp" "\<And>a. ofs_ptr (fobj fp) = Some a \<Longrightarrow> mirror_ok (objs sy a)"
    and Q: "\<And>r fp' sy'. \<lbrakk>sys_ok sy'; keeps sy sy'; fok fp'; ofs_ptr (fobj fp') = ofs_ptr (fobj fp); fptr fp' = fptr fp\<rbrakk> \<Longrightarrow> Q (r, fp', sy')"
  shows "wp (f_truncate sy fp) Q"
proof (cases rule: validate_cases [of sy "fobj fp"])
  case (ok a)
  note m = sys_ok_mounted [OF assms(1) ok(3)]
  show ?thesis
    unfolding f_truncate_def using ok m assms(1-3)
    by (auto simp: wp_simps Let_def wsame_def fok_def intro!: f_truncate_vol_wp Q sys_ok_store_good keeps_store)
next
  case bad
  then show ?thesis using assms(1,2) by (auto simp: f_truncate_def wp_simps intro!: Q)
qed

section \<open>Opening\<close>

lemma f_open_trunc_wp:
  assumes "vok s" "gok s" "mirror_ok s" "dir dj \<le> 480" and Q: "\<And>r s'. good s s' \<Longrightarrow> Q (r, s')"
  shows "wp (f_open_trunc s dj) Q"
proof -
  have rc: "wp (remove_chain (s\<lparr>win := b, wflag := 1\<rparr>) c p) R"
    if "length b = 512" "\<And>r s''. good s s'' \<Longrightarrow> R (r, s'')" for b c p R
    using that(1) assms(2,3)
    by (intro remove_chain_wp) (auto intro!: that(2) simp: gok_def mirror_ok_def frame_simps)
  show ?thesis
    unfolding f_open_trunc_def Let_def using assms(1,4)
    by (auto simp: wp_simps vok_length frame_simps
        intro!: st_dword_wp st_clust_wp ld_clust_wp rc move_window_wp Q)
qed

text \<open>The flags with which \<open>f_open\<close> may create or overwrite a file.\<close>

abbreviation (input) FA_NEW :: BYTE where
  "FA_NEW \<equiv> FA_CREATE_ALWAYS OR FA_OPEN_ALWAYS OR FA_CREATE_NEW"

lemma f_open_target_wp:
  assumes "vdir s" "gok s" "mode AND FA_NEW \<noteq> 0 \<longrightarrow> mirror_ok s" "length (fn dj) = 12" "res = FR_OK \<longrightarrow> dok dj"
    and Q: "\<And>r m dj' s'. \<lbrakk>good s s'; r = FR_OK \<longrightarrow> dir dj' \<le> 480\<rbrakk> \<Longrightarrow> Q (r, m, dj', s')"
  shows "wp (f_open_target s dj res mode) Q"
proof -
  have tr: "wp (f_open_trunc s' dj') R"
    if "mode AND FA_NEW \<noteq> 0" "good s s'" "dir dj' \<le> 480" "\<And>r s''. good s s'' \<Longrightarrow> R (r, s'')" for s' dj' R
    by (rule f_open_trunc_wp [OF good_vok [OF that(2)] _ _ that(3)],
        simp_all add: gok_good [OF that(2)] mirror_ok_good [OF that(2)] assms(2) assms(3) [rule_format, OF that(1)])
      (auto intro!: that(4) intro: good_trans [OF that(2)])
  show ?thesis
    unfolding f_open_target_def wp_simps using assms(1,4,5)
    by (auto simp: wp_simps vdir_def dok_def intro!: dir_register_wp tr Q)
qed

lemma f_open_seek_loop_wp:
  assumes "good s0 s" "bcs \<noteq> 0"
  shows "wp (f_open_seek_loop s bcs clst ofs) (\<lambda>(r, c, o', s'). good s0 s')"
  using assms
proof (induction "unat ofs" arbitrary: s clst ofs rule: less_induct)
  case less
  have rec: "wp (f_open_seek_loop s' bcs c (ofs - bcs)) (\<lambda>(r, c, o', s'). good s0 s')"
    if "good s s'" "bcs < ofs" for s' c
    using less.hyps [OF ofs_step [OF that(2) less.prems(2)] good_trans [OF less.prems(1) that(1)] less.prems(2)] .
  show ?case
    apply (subst f_open_seek_loop.simps)
    using less.prems(1) rec
    by (auto simp: wp_simps Let_def intro!: get_fat_wp good_vok intro: good_trans)
qed

lemma f_open_finish_wp:
  assumes "vdir s" "dir dj \<le> 480"
    and Q: "\<And>r fp' s'. \<lbrakk>good s s'; fok fp'; ofs_ptr (fobj fp') = Some a; oid (fobj fp') = fs_id s;
              ferr fp' = FR_OK; fptr fp' \<le> objsize (fobj fp')\<rbrakk> \<Longrightarrow> Q (r, fp', s')"
  shows "wp (f_open_finish s a dj mode fp) Q"
proof -
  have b: "(ucast (csize s) * 512 :: DWORD) \<noteq> 0" using assms(1) by (simp add: bcs_nonzero vdir_def)
  have lp: "wp (f_open_seek_loop s (ucast (csize s) * 512) c o') R"
    if "\<And>r c o' s''. good s s'' \<Longrightarrow> R (r, c, o', s'')" for c o' R
    by (rule wp_mono [OF f_open_seek_loop_wp [of s s, OF _ b]]) (use assms(1) in \<open>auto simp: vdir_def intro!: that\<close>)
  show ?thesis
    unfolding f_open_finish_def Let_def using assms(1,2)
    by (auto simp: wp_simps vdir_def vok_length fok_def intro!: ld_clust_wp ld_dword_wp lp Q)
qed

lemma blank_DIR_fn [simp]: "length (fn (blank_DIR a)) = 12"
  by (simp add: blank_DIR_def)

lemma f_open_vol_wp:
  assumes "vdir s" "gok s" "mode AND FA_NEW \<noteq> 0 \<longrightarrow> mirror_ok s" "cstring p"
    and Q: "\<And>r fp' s'. \<lbrakk>good s s'; r = FR_OK \<longrightarrow> fok fp' \<and> ofs_ptr (fobj fp') = Some a \<and>
         oid (fobj fp') = fs_id s' \<and> ferr fp' = FR_OK \<and> fptr fp' \<le> objsize (fobj fp')\<rbrakk> \<Longrightarrow> Q (r, fp', s')"
  shows "wp (f_open_vol sc s a fp p mode) Q"
proof -
  have tg: "wp (f_open_target s1 dj res mode) P" if "good s s1" "length (fn dj) = 12" "res = FR_OK \<longrightarrow> dok dj"
    "\<And>r m dj' s'. \<lbrakk>good s s'; r = FR_OK \<longrightarrow> dir dj' \<le> 480\<rbrakk> \<Longrightarrow> P (r, m, dj', s')" for s1 dj res P
    using assms(2,3) by (intro f_open_target_wp vdir_good [OF that(1) assms(1)] that(2,3) that(4) good_trans [OF that(1)])
      (simp_all add: gok_good [OF that(1)] mirror_ok_good [OF that(1)])
  have fi: "wp (f_open_finish s1 a dj mo fp) P" if "good s s1" "dir dj \<le> 480"
    "\<And>r fp' s'. \<lbrakk>good s s'; fok fp'; ofs_ptr (fobj fp') = Some a; oid (fobj fp') = fs_id s';
            ferr fp' = FR_OK; fptr fp' \<le> objsize (fobj fp')\<rbrakk> \<Longrightarrow> P (r, fp', s')" for s1 dj mo P
    by (rule f_open_finish_wp [OF vdir_good [OF that(1) assms(1)] that(2)], rule that(3))
      (auto intro: good_trans [OF that(1)] simp: goodD that(1))
  show ?thesis
    unfolding f_open_vol_def Let_def
    using assms(1,4) by (auto simp: wp_simps intro!: follow_path_wp tg fi Q)
qed

lemma f_open_obj_wp:
  assumes "sys_ok sy" "\<And>p. path = Some p \<Longrightarrow> cstring p" and safe: "mode AND FA_NEW \<noteq> 0 \<longrightarrow> fat_safe sy path (mode AND FA_OPEN_MASK)"
    and Q: "\<And>r fp' sy'. \<lbrakk>sys_ok sy'; keeps sy sy'; r \<noteq> FR_OK \<longrightarrow> ofs_ptr (fobj fp') = None;
              r = FR_OK \<longrightarrow> fok fp' \<and> validate sy' (fobj fp') = (FR_OK, ofs_ptr (fobj fp')) \<and> ferr fp' = FR_OK \<and>
                 fptr fp' \<le> objsize (fobj fp')\<rbrakk> \<Longrightarrow> Q (r, fp', sy')"
  shows "wp (f_open_obj sc sy fp path mode) Q"
proof -
  have go: "wp (f_open_vol sc (load_vol sy' a) a fp p m) R"
    if "sys_ok sy'" "mount_volume sy path m = Some (FR_OK, Some a, Some p, sy')"
      "fs_type (objs sy' a) \<noteq> 0" "cstring p" "m AND FA_NEW \<noteq> 0 \<longrightarrow> fat_safe sy path m"
      "\<And>r fp' s'. \<lbrakk>good (load_vol sy' a) s'; r = FR_OK \<longrightarrow> fok fp' \<and> ofs_ptr (fobj fp') = Some a \<and>
         oid (fobj fp') = fs_id s' \<and> ferr fp' = FR_OK \<and> fptr fp' \<le> objsize (fobj fp')\<rbrakk>
         \<Longrightarrow> R (r, fp', s')" for sy' a p R m
    using sys_ok_mounted [OF that(1,3)] that(5) fat_safeD [OF _ that(2)]
    by (intro f_open_vol_wp that(4,6)) auto
  have v: "validate (store_vol sy' a s') obj = (FR_OK, ofs_ptr obj)"
    if "ofs_ptr obj = Some a" "oid obj = fs_id s'" "good (load_vol sy' a) s'" "fs_type (objs sy' a) \<noteq> 0"
    for sy' a s' obj
    using that by (simp add: validate_def disk_status_def frame_simps)
  show ?thesis
    unfolding f_open_obj_def Let_def using safe
    by (auto simp: wp_simps v and.assoc intro!: mount_volume_wp assms(1,2) go Q sys_ok_store_good keeps_store)
qed

lemma f_open_wp:
  assumes "sys_ok sy" "\<And>p. path = Some p \<Longrightarrow> cstring p" "mode AND FA_NEW \<noteq> 0 \<longrightarrow> fat_safe sy path (mode AND FA_OPEN_MASK)"
    and Q: "\<And>r fp' sy'. \<lbrakk>sys_ok sy'; keeps sy sy'; (fp' = None) = (fp = None); fp = None \<longrightarrow> r = FR_INVALID_OBJECT;
              \<And>f. fp' = Some f \<Longrightarrow> r \<noteq> FR_OK \<Longrightarrow> ofs_ptr (fobj f) = None;
              \<And>f. fp' = Some f \<Longrightarrow> r = FR_OK \<Longrightarrow>
                 fok f \<and> validate sy' (fobj f) = (FR_OK, ofs_ptr (fobj f)) \<and> ferr f = FR_OK \<and>
                 fptr f \<le> objsize (fobj f)\<rbrakk> \<Longrightarrow> Q (r, fp', sy')"
  shows "wp (f_open sc sy fp path mode) Q"
  unfolding f_open_def using assms(1)
  by (cases fp) (auto simp: wp_simps intro!: f_open_obj_wp assms(1-3) Q)

end
