(* ===== verification/FF_DirApi.thy ===== *)
theory FF_DirApi
  imports FF_File
begin

text \<open>
  The directory and volume operations of the API: \<open>f_opendir\<close>, \<open>f_closedir\<close>, \<open>f_readdir\<close>,
  \<open>f_stat\<close>, \<open>f_getfree\<close>, \<open>f_unlink\<close>, \<open>f_mkdir\<close> and \<open>f_rename\<close>.
\<close>

section \<open>Directories\<close>

text \<open>Lines 4627 to 4664: the object of an accepted path on the mounted volume.\<close>

definition f_opendir_vol ::
    "bool \<Rightarrow> vol \<Rightarrow> nat \<Rightarrow> DIR \<Rightarrow> buffer \<Rightarrow> (FRESULT \<times> DIR \<times> vol) option" where
  "f_opendir_vol sc s a dp path = do {
     let dp = dp\<lparr>dobj := (dobj dp)\<lparr>ofs_ptr := Some a\<rparr>\<rparr>;
     (res, dp, s) \<leftarrow> follow_path sc s dp path;
     (res, dp, s) \<leftarrow>
       (if res = FR_OK then do {
          ns \<leftarrow> ldb (fn dp) NSFLAG;
          (res, dp) \<leftarrow>
            (if ns AND NS_NONAME = 0 then
               if attr (dobj dp) AND AM_DIR \<noteq> 0 then do {
                 cl \<leftarrow> ld_clust s (win s) (dir dp);
                 Some (FR_OK, dp\<lparr>dobj := (dobj dp)\<lparr>sclust := cl\<rparr>\<rparr>)
               } else Some (FR_NO_PATH, dp)
             else Some (FR_OK, dp));
          if res = FR_OK then
            dir_sdi s (dp\<lparr>dobj := (dobj dp)\<lparr>oid := fs_id s\<rparr>\<rparr>) 0
          else Some (res, dp, s)
        } else Some (res, dp, s));
     Some (if res = FR_NO_FILE then FR_NO_PATH else res, dp, s)
   }"

text \<open>Lines 4625 to 4668, for an object pointer that is not null.\<close>

definition f_opendir_obj ::
    "bool \<Rightarrow> sys \<Rightarrow> DIR \<Rightarrow> buffer option \<Rightarrow> (FRESULT \<times> DIR \<times> sys) option" where
  "f_opendir_obj sc sy dp path = do {
     (res, rfs, path, sy) \<leftarrow> mount_volume sy path 0;
     (res, dp, sy) \<leftarrow>
       (if res = FR_OK then do {
          a \<leftarrow> rfs;
          p \<leftarrow> path;
          (res, dp, s) \<leftarrow> f_opendir_vol sc (load_vol sy a) a dp p;
          Some (res, dp, store_vol sy a s)
        } else Some (res, dp, sy));
     Some (res, if res \<noteq> FR_OK then dp\<lparr>dobj := (dobj dp)\<lparr>ofs_ptr := None\<rparr>\<rparr> else dp, sy)
   }"

definition f_opendir ::
    "bool \<Rightarrow> sys \<Rightarrow> DIR option \<Rightarrow> buffer option \<Rightarrow> (FRESULT \<times> DIR option \<times> sys) option" where
  "f_opendir sc sy dp path =
     (case dp of
        None \<Rightarrow> Some (FR_INVALID_OBJECT, None, sy)
      | Some dp \<Rightarrow> do {
          (res, dp, sy) \<leftarrow> f_opendir_obj sc sy dp path;
          Some (res, Some dp, sy)
        })"

definition f_closedir :: "sys \<Rightarrow> DIR \<Rightarrow> FRESULT \<times> DIR" where
  "f_closedir sy dp =
     (case validate sy (dobj dp) of
        (res, _) \<Rightarrow>
          (res, if res = FR_OK then dp\<lparr>dobj := (dobj dp)\<lparr>ofs_ptr := None\<rparr>\<rparr> else dp))"

text \<open>\<open>fno\<close> is \<open>None\<close> for the null pointer, which rewinds the directory.\<close>

definition f_readdir ::
    "sys \<Rightarrow> DIR \<Rightarrow> FILINFO option \<Rightarrow> (FRESULT \<times> DIR \<times> FILINFO option \<times> sys) option" where
  "f_readdir sy dp fno =
     (case validate sy (dobj dp) of
        (res, rfs) \<Rightarrow>
          if res = FR_OK then do {
            a \<leftarrow> rfs;
            let s = load_vol sy a;
            case fno of
              None \<Rightarrow> do {
                (res, dp, s) \<leftarrow> dir_sdi s dp 0;
                Some (res, dp, None, store_vol sy a s)
              }
            | Some f \<Rightarrow> do {
                (res, dp, s) \<leftarrow> dir_read s dp False;
                let res = (if res = FR_NO_FILE then FR_OK else res);
                if res = FR_OK then do {
                  f \<leftarrow> get_fileinfo s dp f;
                  (res, dp, s) \<leftarrow> dir_next s dp False;
                  Some (if res = FR_NO_FILE then FR_OK else res, dp, Some f, store_vol sy a s)
                }
                else Some (res, dp, Some f, store_vol sy a s)
              }
          } else Some (res, dp, fno, sy))"

text \<open>Lines 4809 to 4818: the information about the object of an accepted path.\<close>

definition f_stat_vol ::
    "bool \<Rightarrow> vol \<Rightarrow> nat \<Rightarrow> buffer \<Rightarrow> FILINFO option \<Rightarrow> (FRESULT \<times> FILINFO option \<times> vol) option" where
  "f_stat_vol sc s a path fno = do {
     (res, dj, s) \<leftarrow> follow_path sc s (blank_DIR a) path;
     if res = FR_OK then do {
       ns \<leftarrow> ldb (fn dj) NSFLAG;
       if ns AND NS_NONAME \<noteq> 0 then Some (FR_INVALID_NAME, fno, s)
       else case fno of
         None \<Rightarrow> Some (FR_OK, None, s)
       | Some f \<Rightarrow> do {
           f \<leftarrow> get_fileinfo s dj f;
           Some (FR_OK, Some f, s)
         }
     } else Some (res, fno, s)
   }"

definition f_stat ::
    "bool \<Rightarrow> sys \<Rightarrow> buffer option \<Rightarrow> FILINFO option \<Rightarrow> (FRESULT \<times> FILINFO option \<times> sys) option" where
  "f_stat sc sy path fno = do {
     (res, rfs, path, sy) \<leftarrow> mount_volume sy path 0;
     if res = FR_OK then do {
       a \<leftarrow> rfs;
       p \<leftarrow> path;
       (res, fno, s) \<leftarrow> f_stat_vol sc (load_vol sy a) a p fno;
       Some (res, fno, store_vol sy a s)
     } else Some (res, fno, sy)
   }"

section \<open>Free clusters\<close>

text \<open>The scan of a FAT12, entry by entry.\<close>

partial_function (option) getfree_loop12 ::
    "vol \<Rightarrow> DWORD \<Rightarrow> DWORD \<Rightarrow> (FRESULT \<times> DWORD \<times> vol) option" where
  "getfree_loop12 s clst nfree = do {
     (st, s) \<leftarrow> get_fat s clst;
     if st = 0xFFFFFFFF then Some (FR_DISK_ERR, nfree, s)
     else if st = 1 then Some (FR_INT_ERR, nfree, s)
     else do {
       let nfree = (if st = 0 then nfree + 1 else nfree);
       let clst = clst + 1;
       if clst < n_fatent s then getfree_loop12 s clst nfree else Some (FR_OK, nfree, s)
     }
   }"

declare getfree_loop12.simps [code]

text \<open>The scan of a FAT16 or FAT32, sector by sector; \<open>clst\<close> counts the entries left.\<close>

partial_function (option) getfree_loop ::
    "vol \<Rightarrow> DWORD \<Rightarrow> LBA_t \<Rightarrow> UINT \<Rightarrow> DWORD \<Rightarrow> (FRESULT \<times> DWORD \<times> vol) option" where
  "getfree_loop s clst sector i nfree = do {
     (res, sector, s) \<leftarrow>
       (if i = 0 then do {
          (res, s) \<leftarrow> move_window s sector;
          Some (res, sector + 1, s)
        } else Some (FR_OK, sector, s));
     if res \<noteq> FR_OK then Some (res, nfree, s)
     else do {
       (nfree, i) \<leftarrow>
         (if fs_type s = FS_FAT16 then do {
            v \<leftarrow> ld_word (win s) (unat i);
            Some (if v = 0 then nfree + 1 else nfree, i + 2)
          } else do {
            v \<leftarrow> ld_dword (win s) (unat i);
            Some (if v AND 0x0FFFFFFF = 0 then nfree + 1 else nfree, i + 4)
          });
       let i = i mod SS;
       let clst = clst - 1;
       if clst \<noteq> 0 then getfree_loop s clst sector i nfree else Some (FR_OK, nfree, s)
     }
   }"

declare getfree_loop.simps [code]

text \<open>The number of free clusters, \<open>None\<close> if \<open>*nclst\<close> is not assigned.\<close>

definition f_getfree_vol :: "vol \<Rightarrow> (FRESULT \<times> DWORD option \<times> vol) option" where
  "f_getfree_vol s =
     (if free_clst s \<le> n_fatent s - 2 then Some (FR_OK, Some (free_clst s), s)
      else do {
        (res, nfree, s) \<leftarrow> (if fs_type s = FS_FAT12 then getfree_loop12 s 2 0
                            else getfree_loop s (n_fatent s) (fatbase s) 0 0);
        if res = FR_OK
        then Some (FR_OK, Some nfree, s\<lparr>free_clst := nfree, fsi_flag := fsi_flag s OR 1\<rparr>)
        else Some (res, None, s)
      })"

definition f_getfree ::
    "sys \<Rightarrow> buffer option \<Rightarrow> (FRESULT \<times> DWORD option \<times> fsptr \<times> sys) option" where
  "f_getfree sy path = do {
     (res, rfs, path, sy) \<leftarrow> mount_volume sy path 0;
     if res = FR_OK then do {
       a \<leftarrow> rfs;
       (res, n, s) \<leftarrow> f_getfree_vol (load_vol sy a);
       Some (res, n, Some a, store_vol sy a s)
     } else Some (res, None, None, sy)
   }"

section \<open>Deleting\<close>

text \<open>Lines 5011 to 5045: may the object be deleted, and its start cluster.\<close>

definition f_unlink_check :: "vol \<Rightarrow> nat \<Rightarrow> DIR \<Rightarrow> (FRESULT \<times> DWORD \<times> vol) option" where
  "f_unlink_check s a dj = do {
     dclst \<leftarrow> ld_clust s (win s) (dir dj);
     if attr (dobj dj) AND AM_DIR \<noteq> 0 then do {
       let sdj = blank_DIR a;
       let sdj = sdj\<lparr>dobj := (dobj sdj)\<lparr>sclust := dclst\<rparr>\<rparr>;
       (res, sdj, s) \<leftarrow> dir_sdi s sdj 0;
       if res = FR_OK then do {
         (res, sdj, s) \<leftarrow> dir_read s sdj False;
         let res = (if res = FR_OK then FR_DENIED else res);
         let res = (if res = FR_NO_FILE then FR_OK else res);
         Some (res, dclst, s)
       } else Some (res, dclst, s)
     } else Some (FR_OK, dclst, s)
   }"

definition f_unlink_vol :: "bool \<Rightarrow> vol \<Rightarrow> nat \<Rightarrow> buffer \<Rightarrow> (FRESULT \<times> vol) option" where
  "f_unlink_vol sc s a p = do {
     (res, dj, s) \<leftarrow> follow_path sc s (blank_DIR a) p;
     if res = FR_OK then do {
       ns \<leftarrow> ldb (fn dj) NSFLAG;
       let res = (if ns AND NS_NONAME \<noteq> 0 then FR_INVALID_NAME
                  else if attr (dobj dj) AND AM_RDO \<noteq> 0 then FR_DENIED else FR_OK);
       (res, dclst, s) \<leftarrow> (if res = FR_OK then f_unlink_check s a dj else Some (res, 0, s));
       if res = FR_OK then do {
         (res, s) \<leftarrow> dir_remove s dj;
         (res, s) \<leftarrow> (if res = FR_OK \<and> dclst \<noteq> 0 then remove_chain s dclst 0 else Some (res, s));
         if res = FR_OK then sync_fs s else Some (res, s)
       } else Some (res, s)
     } else Some (res, s)
   }"

definition f_unlink :: "bool \<Rightarrow> sys \<Rightarrow> buffer option \<Rightarrow> (FRESULT \<times> sys) option" where
  "f_unlink sc sy path = do {
     (res, rfs, path, sy) \<leftarrow> mount_volume sy path FA_WRITE;
     if res = FR_OK then do {
       a \<leftarrow> rfs;
       p \<leftarrow> path;
       (res, s) \<leftarrow> f_unlink_vol sc (load_vol sy a) a p;
       Some (res, store_vol sy a s)
     } else Some (res, sy)
   }"

section \<open>Creating a directory\<close>

text \<open>Lines 5103 to 5113: the dot entries in the cleared window.\<close>

definition f_mkdir_dots :: "vol \<Rightarrow> DWORD \<Rightarrow> DWORD \<Rightarrow> vol option" where
  "f_mkdir_dots s dcl pcl = do {
     b \<leftarrow> memset (win s) DIR_Name 0x20 11;
     b \<leftarrow> stb b DIR_Name 0x2E;
     b \<leftarrow> stb b DIR_Attr AM_DIR;
     b \<leftarrow> st_dword b DIR_ModTime GET_FATTIME;
     b \<leftarrow> st_clust s b 0 dcl;
     e \<leftarrow> memread b 0 SZDIRE;
     b \<leftarrow> memwrite b SZDIRE e;
     b \<leftarrow> stb b (SZDIRE + 1) 0x2E;
     b \<leftarrow> st_clust s b SZDIRE pcl;
     Some (s\<lparr>win := b, wflag := 1\<rparr>)
   }"

text \<open>Lines 5117 to 5137: the entry of the new directory in its parent.\<close>

definition f_mkdir_entry :: "vol \<Rightarrow> DIR \<Rightarrow> DWORD \<Rightarrow> (FRESULT \<times> vol) option" where
  "f_mkdir_entry s dj dcl = do {
     b \<leftarrow> st_dword (win s) (dir dj + DIR_ModTime) GET_FATTIME;
     b \<leftarrow> st_clust s b (dir dj) dcl;
     b \<leftarrow> stb b (dir dj + DIR_Attr) AM_DIR;
     sync_fs (s\<lparr>win := b, wflag := 1\<rparr>)
   }"

definition f_mkdir_vol :: "bool \<Rightarrow> vol \<Rightarrow> nat \<Rightarrow> buffer \<Rightarrow> (FRESULT \<times> vol) option" where
  "f_mkdir_vol sc s a p = do {
     (res, dj, s) \<leftarrow> follow_path sc s (blank_DIR a) p;
     let res = (if res = FR_OK then FR_EXIST else res);
     if res = FR_NO_FILE then do {
       (dcl, s) \<leftarrow> create_chain s 0;
       let res = (if dcl = 0 then FR_DENIED
                  else if dcl = 1 then FR_INT_ERR
                  else if dcl = 0xFFFFFFFF then FR_DISK_ERR else FR_OK);
       (res, dj, s) \<leftarrow>
         (if res = FR_OK then do {
            (res, s) \<leftarrow> dir_clear s dcl;
            if res = FR_OK then do {
              s \<leftarrow> f_mkdir_dots s dcl (sclust (dobj dj));
              dir_register s dj
            } else Some (res, dj, s)
          } else Some (res, dj, s));
       if res = FR_OK then f_mkdir_entry s dj dcl
       else do {
         (_, s) \<leftarrow> remove_chain s dcl 0;
         Some (res, s)
       }
     } else Some (res, s)
   }"

definition f_mkdir :: "bool \<Rightarrow> sys \<Rightarrow> buffer option \<Rightarrow> (FRESULT \<times> sys) option" where
  "f_mkdir sc sy path = do {
     (res, rfs, path, sy) \<leftarrow> mount_volume sy path FA_WRITE;
     if res = FR_OK then do {
       a \<leftarrow> rfs;
       p \<leftarrow> path;
       (res, s) \<leftarrow> f_mkdir_vol sc (load_vol sy a) a p;
       Some (res, store_vol sy a s)
     } else Some (res, sy)
   }"

section \<open>Renaming\<close>

text \<open>Lines 5216 to 5236: fill the new entry from the saved one, and the \<open>..\<close> entry of a moved
  directory.\<close>

definition f_rename_entry ::
    "vol \<Rightarrow> DIR \<Rightarrow> DIR \<Rightarrow> buffer \<Rightarrow> (FRESULT \<times> vol) option" where
  "f_rename_entry s djo djn buf = do {
     let p = dir djn;
     x \<leftarrow> memread buf 13 (SZDIRE - 13);
     b \<leftarrow> memwrite (win s) (p + 13) x;
     a \<leftarrow> ldb buf DIR_Attr;
     let a = (if a AND AM_DIR = 0 then a OR AM_ARC else a);
     b \<leftarrow> stb b (p + DIR_Attr) a;
     let s = s\<lparr>win := b, wflag := 1\<rparr>;
     if a AND AM_DIR \<noteq> 0 \<and> sclust (dobj djo) \<noteq> sclust (dobj djn) then do {
       cl \<leftarrow> ld_clust s (win s) p;
       let sector = clst2sect s cl;
       if sector = 0 then Some (FR_INT_ERR, s)
       else do {
         (res, s) \<leftarrow> move_window s sector;
         c \<leftarrow> ldb (win s) (SZDIRE + 1);
         if res = FR_OK \<and> c = 0x2E then do {
           b \<leftarrow> st_clust s (win s) SZDIRE (sclust (dobj djn));
           Some (res, s\<lparr>win := b, wflag := 1\<rparr>)
         } else Some (res, s)
       }
     } else Some (FR_OK, s)
   }"

definition f_rename_vol :: "bool \<Rightarrow> vol \<Rightarrow> nat \<Rightarrow> buffer \<Rightarrow> buffer option \<Rightarrow> (FRESULT \<times> vol) option" where
  "f_rename_vol sc s a path_old path_new = do {
     (res, djo, s) \<leftarrow> follow_path sc s (blank_DIR a) path_old;
     ns \<leftarrow> ldb (fn djo) NSFLAG;
     let res = (if res = FR_OK \<and> ns AND (NS_DOT OR NS_NONAME) \<noteq> 0 then FR_INVALID_NAME else res);
     if res = FR_OK then do {
       buf \<leftarrow> memread (win s) (dir djo) SZDIRE;
       pn \<leftarrow> path_new;
       (res, djn, s) \<leftarrow> follow_path sc s djo pn;
       let res = (if res = FR_OK
                  then if sclust (dobj djn) = sclust (dobj djo) \<and> dptr djn = dptr djo
                       then FR_NO_FILE else FR_EXIST
                  else res);
       (res, s) \<leftarrow>
         (if res = FR_NO_FILE then do {
            (res, djn, s) \<leftarrow> dir_register s djn;
            if res = FR_OK then f_rename_entry s djo djn buf else Some (res, s)
          } else Some (res, s));
       if res = FR_OK then do {
         (res, s) \<leftarrow> dir_remove s djo;
         if res = FR_OK then sync_fs s else Some (res, s)
       } else Some (res, s)
     } else Some (res, s)
   }"

definition f_rename ::
    "bool \<Rightarrow> sys \<Rightarrow> buffer option \<Rightarrow> buffer option \<Rightarrow> (FRESULT \<times> sys) option" where
  "f_rename sc sy path_old path_new = do {
     (_, path_new) \<leftarrow> get_ldnumber path_new;
     (res, rfs, path_old, sy) \<leftarrow> mount_volume sy path_old FA_WRITE;
     if res = FR_OK then do {
       a \<leftarrow> rfs;
       p \<leftarrow> path_old;
       (res, s) \<leftarrow> f_rename_vol sc (load_vol sy a) a p path_new;
       Some (res, store_vol sy a s)
     } else Some (res, sy)
   }"

end
