(* ===== verification/FF_DirOps.thy ===== *)
theory FF_DirOps
  imports FF_FileOps FF_DirApi
begin

text \<open>
  Safety of the directory and volume operations on an arbitrary volume image: \<open>f_opendir\<close>,
  \<open>f_readdir\<close>, \<open>f_closedir\<close>, \<open>f_stat\<close>, \<open>f_getfree\<close>, \<open>f_unlink\<close>, \<open>f_mkdir\<close>, \<open>f_rename\<close>.
\<close>

section \<open>Directories\<close>

lemma dir_sdi_fail:
  assumes "dir_sdi s dp ofs = Some (r, dp', s')" "dok dp" "r \<noteq> FR_OK"
  shows "dok dp'"
proof -
  have o: "32 dvd unat ofs \<and> unat ofs < 0x200000" if "\<not> (0x200000 \<le> ofs \<or> ofs mod 32 \<noteq> 0)"
    using that by (auto simp: word_unat_eq_iff word_le_nat_alt unat_mod dvd_eq_mod_eq_0)
  show ?thesis
    using assms o
    by (auto simp: dir_sdi_def dir_sdi_set_def Let_def dok_def bind_eq_Some_conv
        split: if_splits sum.splits prod.splits)
qed

lemma dir_sdi_dok_wp:
  assumes "vdir s" "dok dp" and Q: "\<And>r dp' s'. \<lbrakk>good s s'; dobj dp' = dobj dp; dok dp'\<rbrakk> \<Longrightarrow> Q (r, dp', s')"
  shows "wp (dir_sdi s dp ofs) Q"
proof -
  have "wp (dir_sdi s dp ofs) (\<lambda>(r, dp', s'). good s s' \<and> dobj dp' = dobj dp \<and> (r = FR_OK \<longrightarrow> dok dp'))"
    using assms(1,2) by (intro dir_sdi_wp) (auto simp: vdir_def dok_def)
  then show ?thesis
    by (elim wpE) (auto simp: wp_def intro!: Q dest: dir_sdi_fail [OF _ assms(2)])
qed

lemma f_opendir_vol_wp:
  assumes "vdir s" "cstring p" "length (fn dp) = 12"
    and Q: "\<And>r dp' s'. \<lbrakk>good s s'; length (fn dp') = 12;
         r = FR_OK \<longrightarrow> dok dp' \<and> ofs_ptr (dobj dp') = Some a \<and> oid (dobj dp') = fs_id s'\<rbrakk> \<Longrightarrow> Q (r, dp', s')"
  shows "wp (f_opendir_vol sc s a dp p) Q"
proof -
  have fp: "wp (follow_path sc s (dp\<lparr>dobj := (dobj dp)\<lparr>ofs_ptr := Some a\<rparr>\<rparr>) p) R"
    if "\<And>r dp' s'. \<lbrakk>good s s'; length (fn dp') = 12; ofs_ptr (dobj dp') = Some a; r = FR_OK \<longrightarrow> dok dp'\<rbrakk> \<Longrightarrow> R (r, dp', s')" for R
    using assms(1-3) by (intro follow_path_wp that) (auto simp: downer_def)
  have sdi: "wp (dir_sdi s1 dp1 0) R"
    if "good s s1" "length (fn dp1) = 12"
      "\<And>r dp' s'. \<lbrakk>good s s'; fn dp' = fn dp1; dobj dp' = dobj dp1; r = FR_OK \<longrightarrow> dok dp'\<rbrakk> \<Longrightarrow> R (r, dp', s')" for dp1 R s1
    using vdir_good [OF that(1) assms(1)] that(2)
    by (intro dir_sdi_wp that(3) good_trans [OF that(1)]) (auto simp: vdir_def)
  show ?thesis
    unfolding f_opendir_vol_def Let_def
    by (auto simp: wp_simps goodD dok_def vok_length good_vok intro!: fp ld_clust_wp sdi Q split: if_splits)
qed

text \<open>A volume found or mounted by a call with a path.\<close>

lemma validate_new:
  assumes "ofs_ptr obj = Some a" "oid obj = fs_id s'" "good (load_vol sy a) s'" "fs_type (objs sy a) \<noteq> 0"
  shows "validate (store_vol sy a s') obj = (FR_OK, Some a)"
  using assms by (simp add: validate_def disk_status_def frame_simps)

lemma f_opendir_obj_wp:
  assumes "sys_ok sy" "\<And>p. path = Some p \<Longrightarrow> cstring p" "length (fn dp) = 12"
    and Q: "\<And>r dp' sy'. \<lbrakk>sys_ok sy'; keeps sy sy'; length (fn dp') = 12; r \<noteq> FR_OK \<longrightarrow> ofs_ptr (dobj dp') = None;
              r = FR_OK \<longrightarrow> dok dp' \<and> validate sy' (dobj dp') = (FR_OK, ofs_ptr (dobj dp'))\<rbrakk> \<Longrightarrow> Q (r, dp', sy')"
  shows "wp (f_opendir_obj sc sy dp path) Q"
  unfolding f_opendir_obj_def
  by (auto simp: wp_simps validate_new assms(3)
      intro!: mount_volume_wp assms(1,2) f_opendir_vol_wp sys_ok_mounted Q sys_ok_store_good keeps_store)

lemma f_closedir_ok:
  assumes "f_closedir sy dp = (r, dp')"
  shows "r = FR_OK \<longrightarrow> ofs_ptr (dobj dp') = None" "r \<noteq> FR_OK \<longrightarrow> dp' = dp" "fn dp' = fn dp"
  using assms by (auto simp: f_closedir_def split: prod.splits if_splits)

lemma f_readdir_wp:
  assumes "sys_ok sy" "dok dp" "\<And>f. fno = Some f \<Longrightarrow> length (fname f) = 13"
    and Q: "\<And>r dp' fno' sy'. \<lbrakk>sys_ok sy'; keeps sy sy'; dok dp'; ofs_ptr (dobj dp') = ofs_ptr (dobj dp);
               \<And>f. fno' = Some f \<Longrightarrow> length (fname f) = 13\<rbrakk> \<Longrightarrow> Q (r, dp', fno', sy')"
  shows "wp (f_readdir sy dp fno) Q"
proof (cases rule: validate_cases [of sy "dobj dp"])
  case (ok a)
  note m = sys_ok_mounted [OF assms(1) ok(3)]
  show ?thesis
  proof (cases fno)
    case None
    then show ?thesis unfolding f_readdir_def using ok m assms(1,2)
      by (auto simp: wp_simps Let_def intro!: dir_sdi_dok_wp Q sys_ok_store_good keeps_store)
  next
    case (Some f)
    have nx: "wp (dir_next s' dp' False) R"
      if "good (load_vol sy a) s'" "dok dp'"
        "\<And>r dp'' s''. \<lbrakk>good (load_vol sy a) s''; dobj dp'' = dobj dp'; dok dp''\<rbrakk> \<Longrightarrow> R (r, dp'', s'')" for s' dp' R
      using vdir_good [OF that(1) m(3)] that(2)
      by (intro dir_next_wp that(3) good_trans [OF that(1)]) (auto simp: vdir_def)
    have rd: "wp (dir_read (load_vol sy a) dp False) R"
      if "\<And>r dp'' s''. \<lbrakk>good (load_vol sy a) s''; ofs_ptr (dobj dp'') = ofs_ptr (dobj dp); dok dp''\<rbrakk> \<Longrightarrow> R (r, dp'', s'')" for R
      using m(3) assms(2) by (intro dir_read_wp that) (auto dest!: dsame_downer simp: downer_def)
    show ?thesis unfolding f_readdir_def using ok Some assms(1,3)
      by (auto simp: wp_simps Let_def good_vok vok_length dok_def intro!: rd nx get_fileinfo_wp Q sys_ok_store_good keeps_store)
  qed
next
  case bad
  then show ?thesis using assms(1-3) by (auto simp: f_readdir_def wp_simps intro!: Q)
qed

lemma f_stat_vol_wp:
  assumes "vdir s" "cstring p" "\<And>f. fno = Some f \<Longrightarrow> length (fname f) = 13"
    and Q: "\<And>r fno' s'. \<lbrakk>good s s'; \<And>f. fno' = Some f \<Longrightarrow> length (fname f) = 13\<rbrakk> \<Longrightarrow> Q (r, fno', s')"
  shows "wp (f_stat_vol sc s a p fno) Q"
  unfolding f_stat_vol_def using assms(1-3)
  by (auto simp: wp_simps good_vok vok_length dok_def split: option.split intro!: follow_path_wp get_fileinfo_wp Q)

lemma f_stat_wp:
  assumes "sys_ok sy" "\<And>p. path = Some p \<Longrightarrow> cstring p" "\<And>f. fno = Some f \<Longrightarrow> length (fname f) = 13"
    and Q: "\<And>r fno' sy'. \<lbrakk>sys_ok sy'; keeps sy sy'; \<And>f. fno' = Some f \<Longrightarrow> length (fname f) = 13\<rbrakk> \<Longrightarrow> Q (r, fno', sy')"
  shows "wp (f_stat sc sy path fno) Q"
  unfolding f_stat_def using assms(3)
  by (auto simp: wp_simps intro!: mount_volume_wp assms(1,2) f_stat_vol_wp sys_ok_mounted Q sys_ok_store_good keeps_store)

section \<open>Progress of a walk through a directory\<close>

text \<open>The entries that a directory object has still in front of it: none behind the end.\<close>

definition dleft :: "DIR \<Rightarrow> nat" where
  "dleft dp = (if sect dp = 0 then 0 else 0x200000 - unat (dptr dp))"

lemma dir_next_end: "dir_next s dp st = Some (FR_NO_FILE, dp', s') \<Longrightarrow> sect dp' = 0"
  by (auto simp: dir_next_def dir_next_clust_def dir_next_set_def Let_def split: if_splits Option.bind_splits)

lemma dir_next_left:
  assumes "vdir s" "dok dp" "sect dp \<noteq> 0"
    and Q: "\<And>r dp' s'. \<lbrakk>good s s'; dobj dp' = dobj dp; dok dp'; r = FR_OK \<or> r = FR_NO_FILE \<longrightarrow> dleft dp' < dleft dp\<rbrakk> \<Longrightarrow> Q (r, dp', s')"
  shows "wp (dir_next s dp st) Q"
proof -
  have "wp (dir_next s dp st) (\<lambda>(r, dp', s'). good s s' \<and> dobj dp' = dobj dp \<and> dok dp' \<and> (r = FR_OK \<longrightarrow> unat (dptr dp') = unat (dptr dp) + 32))"
    using assms(1,2) by (intro dir_next_wp) (auto simp: vdir_def)
  then obtain r dp' s' where d: "dir_next s dp st = Some (r, dp', s')" "good s s'" "dobj dp' = dobj dp" "dok dp'"
    "r = FR_OK \<longrightarrow> unat (dptr dp') = unat (dptr dp) + 32" by (auto simp: wp_def)
  have "dleft dp' < dleft dp" if "r = FR_OK \<or> r = FR_NO_FILE"
    using that d assms(2,3) dir_next_end [of s dp st dp' s'] by (auto simp: dleft_def dok_def)
  then show ?thesis using d Q by (simp add: wp_def)
qed

lemma dleft_attr [simp]: "dleft (dp\<lparr>dobj := x\<rparr>) = dleft dp"
  by (simp add: dleft_def)

lemma dir_read_loop_left:
  assumes "vdir s" "dok dp"
  shows "wp (dir_read_loop s dp vl res) (\<lambda>(r, dp', s'). r = FR_OK \<longrightarrow> dleft dp' \<le> dleft dp)"
  using assms
proof (induction "dleft dp" arbitrary: s dp res rule: less_induct)
  case less
  have IH: "wp (dir_read_loop s' dp' vl r) (\<lambda>(r, dp', s'). r = FR_OK \<longrightarrow> dleft dp' \<le> dleft dp)"
    if "vdir s'" "dok dp'" "dleft dp' < dleft dp" for s' dp' r
    by (rule wp_mono [OF less.hyps [OF that(3,1,2)]]) (use that(3) in auto)
  have mv: "wp (move_window s (sect dp)) P" if "\<And>r s'. vdir s' \<Longrightarrow> length (win s') = 512 \<Longrightarrow> P (r, s')" for P
    using less.prems(1) by (intro move_window_wp that) (auto simp: vdir_def frame_simps)
  have nx: "wp (dir_next s' (dp\<lparr>dobj := x\<rparr>) False) P"
    if "sect dp \<noteq> 0" "vdir s'" "\<And>r dp' s''. \<lbrakk>vdir s''; dok dp'; r = FR_OK \<longrightarrow> dleft dp' < dleft dp\<rbrakk> \<Longrightarrow> P (r, dp', s'')" for s' x P
    using less.prems(2) that(1,2) by (intro dir_next_left that(3)) (auto simp: dok_def intro: vdir_good)
  show ?case
    using less.prems(2) dok_dir [OF less.prems(2)]
    by (subst dir_read_loop.simps) (auto simp: wp_simps Let_def intro!: mv nx IH)
qed

lemma dir_read_left:
  assumes "vdir s" "dok dp"
  shows "wp (dir_read s dp vl) (\<lambda>(r, dp1, s1). good s s1 \<and> dok dp1 \<and>
    (r = FR_OK \<longrightarrow> dleft dp1 \<le> dleft dp) \<and> (r \<noteq> FR_OK \<longrightarrow> sect dp1 = 0))"
proof -
  have "wp (dir_read s dp vl) (\<lambda>(r, dp1, s1). good s s1 \<and> dok dp1)"
    using assms by (intro dir_read_wp) auto
  moreover have "wp (dir_read s dp vl) (\<lambda>(r, dp1, s1). (r = FR_OK \<longrightarrow> dleft dp1 \<le> dleft dp) \<and> (r \<noteq> FR_OK \<longrightarrow> sect dp1 = 0))"
    unfolding dir_read_def wp_bind by (rule wp_mono [OF dir_read_loop_left [OF assms]]) auto
  ultimately show ?thesis by (auto simp: wp_def)
qed

lemma get_fileinfo_string:
  assumes "get_fileinfo s dp fno = Some f"
  shows "0 \<in> set (fname f)" "sect dp = 0 \<Longrightarrow> fname f ! 0 = 0"
proof -
  have z: "0 \<in> set (xs[i := 0])" if "i < length xs" for i and xs :: buffer
    using that by (simp add: set_update_memI)
  show "0 \<in> set (fname f)" "sect dp = 0 \<Longrightarrow> fname f ! 0 = 0"
    using assms by (auto simp: get_fileinfo_def stb_def bind_eq_Some_conv Let_def z split: if_splits)
qed

text \<open>A call of \<open>f_readdir\<close> that returns an entry leaves fewer entries in front of the object.\<close>

lemma f_readdir_left:
  assumes "sys_ok sy" "dok dp" "length (fname f) = 13"
    and Q: "\<And>r dp' f' sy'. \<lbrakk>sys_ok sy'; keeps sy sy'; dok dp'; length (fname f') = 13;
              r = FR_OK \<longrightarrow> 0 \<in> set (fname f') \<and> (fname f' ! 0 \<noteq> 0 \<longrightarrow> dleft dp' < dleft dp)\<rbrakk> \<Longrightarrow> Q (r, dp', Some f', sy')"
  shows "wp (f_readdir sy dp (Some f)) Q"
proof -
  have "wp (f_readdir sy dp (Some f)) (\<lambda>(r, dp', fno', sy'). sys_ok sy' \<and> keeps sy sy' \<and> dok dp' \<and> (\<forall>f. fno' = Some f \<longrightarrow> length (fname f) = 13))"
    using assms(1-3) by (intro f_readdir_wp) auto
  then obtain r dp' fno' sy' where c: "f_readdir sy dp (Some f) = Some (r, dp', fno', sy')" "sys_ok sy'" "keeps sy sy'" "dok dp'"
    "\<forall>f. fno' = Some f \<longrightarrow> length (fname f) = 13" by (auto simp: wp_def)
  have n: "\<exists>f'. fno' = Some f'" using c(1) by (auto simp: f_readdir_def bind_eq_Some_conv Let_def split: prod.splits if_splits)
  have "r = FR_OK \<longrightarrow> 0 \<in> set (fname (the fno')) \<and> (fname (the fno') ! 0 \<noteq> 0 \<longrightarrow> dleft dp' < dleft dp)"
  proof (cases rule: validate_cases [of sy "dobj dp"])
    case (ok a)
    note m = sys_ok_mounted [OF assms(1) ok(3)]
    note rd = dir_read_left [OF m(3) assms(2), of False]
    from rd obtain r1 dp1 s1 where d: "dir_read (load_vol sy a) dp False = Some (r1, dp1, s1)" "good (load_vol sy a) s1" "dok dp1"
      "r1 = FR_OK \<longrightarrow> dleft dp1 \<le> dleft dp" "r1 \<noteq> FR_OK \<longrightarrow> sect dp1 = 0" by (auto simp: wp_def)
    show ?thesis
    proof (cases "r1 = FR_OK \<or> r1 = FR_NO_FILE")
      case True
      then obtain f1 where f1: "get_fileinfo s1 dp1 f = Some f1"
        using c(1) ok(1) d(1) by (cases "get_fileinfo s1 dp1 f") (auto simp: f_readdir_def)
      then obtain r2 dp2 s2 where nx: "dir_next s1 dp1 False = Some (r2, dp2, s2)"
        using True c(1) ok(1) d(1) by (cases "dir_next s1 dp1 False") (auto simp: f_readdir_def)
      have e: "fno' = Some f1" "dp' = dp2" "r = (if r2 = FR_NO_FILE then FR_OK else r2)"
        using True c(1) ok(1) d(1) f1 nx by (auto simp: f_readdir_def)
      note s = get_fileinfo_string [OF f1]
      show ?thesis
      proof (cases "sect dp1 = 0")
        case True
        then show ?thesis using s e(1) by simp
      next
        case False
        have "wp (dir_next s1 dp1 False) (\<lambda>(r, dp', s'). r = FR_OK \<or> r = FR_NO_FILE \<longrightarrow> dleft dp' < dleft dp1)"
          using vdir_good [OF d(2) m(3)] d(3) False by (intro dir_next_left) auto
        then show ?thesis using s e nx d(4,5) False by (auto simp: wp_def split: if_splits)
      qed
    next
      case False
      then show ?thesis using c(1) ok(1) d(1) by (auto simp: f_readdir_def)
    qed
  next
    case bad
    then show ?thesis using c(1) by (auto simp: f_readdir_def)
  qed
  then show ?thesis using c n Q by (auto simp: wp_def)
qed

section \<open>Free clusters\<close>

lemma getfree_loop12_wp:
  assumes "good s0 s" "clst < n_fatent s0"
  shows "wp (getfree_loop12 s clst nf) (\<lambda>(r, n, s'). good s0 s')"
  using assms
proof (induction "unat (n_fatent s0) - unat clst" arbitrary: s clst nf rule: less_induct)
  case less
  have "unat clst + 1 < 4294967296"
    using less.prems(2) [unfolded word_less_nat_alt] unat_32_less [of "n_fatent s0"] by linarith
  then have u: "unat (clst + 1) = unat clst + 1" by (simp add: unat_plus)
  have rec: "wp (getfree_loop12 s' (clst + 1) n) (\<lambda>(r, n, s'). good s0 s')"
    if "good s s'" "clst + 1 < n_fatent s0" for s' n
    using less.prems(2) that(2) u
    by (intro less.hyps good_trans [OF less.prems(1) that(1)]) (simp_all add: word_less_nat_alt)
  show ?case
    apply (subst getfree_loop12.simps)
    using less.prems(1) rec
    by (auto simp: wp_simps Let_def goodD intro!: get_fat_wp good_vok intro: good_trans)
qed

lemma getfree_loop_wp:
  assumes "good s0 s" "clst \<noteq> 0" "unat i < 512" "if fs_type s0 = FS_FAT16 then 2 dvd unat i else 4 dvd unat i"
  shows "wp (getfree_loop s clst sec i nf) (\<lambda>(r, n, s'). good s0 s')"
  using assms
proof (induction "unat clst" arbitrary: s clst sec i nf rule: less_induct)
  case less
  have c: "unat (clst - 1) < unat clst"
    using less.prems(2) unat_gt_0 [of clst] by (simp add: unat_minus_one)
  have i: "unat i + 1 < 512" "fs_type s0 \<noteq> FS_FAT16 \<Longrightarrow> unat i + 3 < 512"
    using less.prems(3,4) by (auto split: if_splits elim!: dvdE)
  have rec: "wp (getfree_loop s' (clst - 1) sec' (j mod 512) n) (\<lambda>(r, n, s'). good s0 s')"
    if "good s s'" "clst - 1 \<noteq> 0" "j = (if fs_type s0 = FS_FAT16 then i + 2 else i + 4)" for s' n sec' j
  proof (rule less.hyps [OF c good_trans [OF less.prems(1) that(1)] that(2)])
    show "unat (j mod 512) < 512" by (simp add: unat_mod)
    have "unat (i + 2) = unat i + 2" "unat (i + 4) = unat i + 4"
      using less.prems(3) by (simp_all add: unat_plus)
    then show "if fs_type s0 = FS_FAT16 then 2 dvd unat (j mod 512) else 4 dvd unat (j mod 512)"
      using less.prems(4) that(3) by (auto simp: unat_mod dvd_mod_iff split: if_splits)
  qed
  have m: "wp (move_window s sec) R" if "\<And>r s'. good s s' \<Longrightarrow> R (r, s')" for R
    by (rule move_window_wp [OF good_vok [OF less.prems(1)]]) (rule that)
  note v = good_vok [OF less.prems(1)]
  show ?case
    apply (subst getfree_loop.simps)
    using v i rec goodD(2) [OF less.prems(1)]
    by (auto simp: wp_simps Let_def goodD vok_length good_vok intro!: m ld_word_wp ld_dword_wp
        intro: good_trans [OF less.prems(1)])
qed

lemma f_getfree_vol_wp:
  assumes "vdir s" and Q: "\<And>r n s'. good s s' \<Longrightarrow> Q (r, n, s')"
  shows "wp (f_getfree_vol s) Q"
proof -
  have n: "2 < n_fatent s" "n_fatent s \<noteq> 0"
    using assms(1) by (auto simp: vdir_def word_less_nat_alt word_le_nat_alt)
  have "wp (if fs_type s = FS_FAT12 then getfree_loop12 s 2 0 else getfree_loop s (n_fatent s) (fatbase s) 0 0)
     (\<lambda>(r, n, s'). good s s')"
    using assms(1) n by (auto simp: vdir_def intro!: getfree_loop12_wp getfree_loop_wp)
  then have l: "wp (if fs_type s = FS_FAT12 then getfree_loop12 s 2 0 else getfree_loop s (n_fatent s) (fatbase s) 0 0) R"
    if "\<And>r n s'. good s s' \<Longrightarrow> R (r, n, s')" for R
    by (rule wp_mono) (auto intro: that)
  show ?thesis
    unfolding f_getfree_vol_def using assms(1) l
    by (simp add: wp_bind wp_case_prod vdir_def Q)
qed

lemma f_getfree_wp:
  assumes "sys_ok sy" "\<And>p. path = Some p \<Longrightarrow> cstring p"
    and Q: "\<And>r n a sy'. sys_ok sy' \<Longrightarrow> keeps sy sy' \<Longrightarrow> Q (r, n, a, sy')"
  shows "wp (f_getfree sy path) Q"
  unfolding f_getfree_def
  by (auto simp: wp_simps intro!: mount_volume_wp assms(1,2) f_getfree_vol_wp sys_ok_mounted Q sys_ok_store_good keeps_store)

section \<open>Deleting, creating, renaming\<close>

lemma sys_ok_gok: "sys_ok sy \<Longrightarrow> fs_type (objs sy a) \<noteq> 0 \<Longrightarrow> gok (objs sy a)"
  by (simp add: sys_ok_def)

lemma remove_chain_good_wp:
  assumes "good s s'" "gok s" "mirror_ok s" and Q: "\<And>r s''. good s s'' \<Longrightarrow> Q (r, s'')"
  shows "wp (remove_chain s' c p) Q"
  by (rule remove_chain_wp [OF good_vok [OF assms(1)]])
    (use assms(2,3) in \<open>auto simp: gok_good [OF assms(1)] mirror_ok_good [OF assms(1)]
       intro!: Q good_trans [OF assms(1)]\<close>)

lemma f_unlink_check_wp:
  assumes "vdir s" "dir dj \<le> 480" and Q: "\<And>r c s'. good s s' \<Longrightarrow> Q (r, c, s')"
  shows "wp (f_unlink_check s a dj) Q"
proof -
  have rd: "wp (dir_read s' dp False) R" if "good s s'" "dok dp" "\<And>r dp' s''. good s s'' \<Longrightarrow> R (r, dp', s'')" for s' dp R
    by (rule dir_read_wp [OF vdir_good [OF that(1) assms(1)] that(2)]) (auto intro!: that(3) intro: good_trans [OF that(1)])
  show ?thesis
    unfolding f_unlink_check_def Let_def using assms(1,2)
    by (auto simp: wp_simps vdir_def vok_length intro!: ld_clust_wp dir_sdi_wp rd Q)
qed

lemma f_unlink_vol_wp:
  assumes "vdir s" "gok s" "mirror_ok s" "cstring p" and Q: "\<And>r s'. good s s' \<Longrightarrow> Q (r, s')"
  shows "wp (f_unlink_vol sc s a p) Q"
proof -
  have ck: "wp (f_unlink_check s' a dj) R" if "good s s'" "dir dj \<le> 480" "\<And>r c s''. good s s'' \<Longrightarrow> R (r, c, s'')" for s' dj R
    by (rule f_unlink_check_wp [OF vdir_good [OF that(1) assms(1)] that(2)]) (auto intro!: that(3) intro: good_trans [OF that(1)])
  have rm: "wp (dir_remove s' dj) R" if "good s s'" "dir dj \<le> 480" "\<And>r s''. good s s'' \<Longrightarrow> R (r, s'')" for s' dj R
    by (rule dir_remove_wp [OF good_vok [OF that(1)] that(2)]) (auto intro!: that(3) intro: good_trans [OF that(1)])
  have sy: "wp (sync_fs s') Q" if "good s s'" for s'
    by (rule sync_fs_wp [OF good_vok [OF that]]) (auto intro!: Q intro: good_trans [OF that])
  show ?thesis
    unfolding f_unlink_vol_def Let_def using assms(1,4)
    by (auto simp: wp_simps dok_def intro!: follow_path_wp ck rm remove_chain_good_wp [OF _ assms(2,3)] sy Q)
qed

lemma f_unlink_wp:
  assumes "sys_ok sy" "\<And>p. path = Some p \<Longrightarrow> cstring p" and safe: "fat_safe sy path FA_WRITE"
    and Q: "\<And>r sy'. sys_ok sy' \<Longrightarrow> keeps sy sy' \<Longrightarrow> Q (r, sy')"
  shows "wp (f_unlink sc sy path) Q"
  unfolding f_unlink_def
  by (auto simp: wp_simps sys_ok_mounted sys_ok_gok fat_safeD [OF safe]
      intro!: mount_volume_wp assms(1,2) f_unlink_vol_wp Q sys_ok_store_good keeps_store)

lemma f_mkdir_dots_wp:
  assumes "vok s" and Q: "\<And>s'. good s s' \<Longrightarrow> Q s'"
  shows "wp (f_mkdir_dots s dcl pcl) Q"
  unfolding f_mkdir_dots_def using assms(1)
  by (auto simp: wp_simps frame_simps vok_length intro!: st_dword_wp st_clust_wp Q)

lemma f_mkdir_entry_wp:
  assumes "vok s" "dir dj \<le> 480" and Q: "\<And>r s'. good s s' \<Longrightarrow> Q (r, s')"
  shows "wp (f_mkdir_entry s dj dcl) Q"
  unfolding f_mkdir_entry_def using assms(1,2)
  by (auto simp: wp_simps frame_simps vok_length intro!: st_dword_wp st_clust_wp sync_fs_wp Q)

lemma f_mkdir_vol_wp:
  assumes "vdir s" "gok s" "mirror_ok s" "cstring p" and Q: "\<And>r s'. good s s' \<Longrightarrow> Q (r, s')"
  shows "wp (f_mkdir_vol sc s a p) Q"
proof -
  have cc: "wp (create_chain s' c) R" if "good s s'" "\<And>v s''. good s s'' \<Longrightarrow> R (v, s'')" for s' c R
    by (rule create_chain_wp) (use vdir_good [OF that(1) assms(1)] in \<open>auto simp: vdir_def intro!: that(2) intro: good_trans [OF that(1)]\<close>)
  have cl: "wp (dir_clear s' c) R" if "good s s'" "\<And>v s''. good s s'' \<Longrightarrow> R (v, s'')" for s' c R
    by (rule dir_clear_wp) (use vdir_good [OF that(1) assms(1)] in \<open>auto simp: vdir_def intro!: that(2) intro: good_trans [OF that(1)]\<close>)
  have dt: "wp (f_mkdir_dots s' c d) R" if "good s s'" "\<And>s''. good s s'' \<Longrightarrow> R s''" for s' c d R
    by (rule f_mkdir_dots_wp [OF good_vok [OF that(1)]]) (auto intro!: that(2) intro: good_trans [OF that(1)])
  have rg: "wp (dir_register s' dj) R" if "good s s'" "length (fn dj) = 12"
    "\<And>r dj' s''. good s s'' \<Longrightarrow> r = FR_OK \<longrightarrow> dir dj' \<le> 480 \<Longrightarrow> R (r, dj', s'')" for s' dj R
    by (rule dir_register_wp [OF vdir_good [OF that(1) assms(1)] that(2)])
      (auto simp: dok_def intro!: that(3) intro: good_trans [OF that(1)])
  have en: "wp (f_mkdir_entry s' dj c) Q" if "good s s'" "dir dj \<le> 480" for s' dj c
    by (rule f_mkdir_entry_wp [OF good_vok [OF that(1)] that(2)]) (auto intro!: Q intro: good_trans [OF that(1)])
  show ?thesis
    unfolding f_mkdir_vol_def Let_def using assms(1,4)
    by (auto simp: wp_simps intro!: follow_path_wp cc cl dt rg en remove_chain_good_wp [OF _ assms(2,3)] Q)
qed

lemma f_mkdir_wp:
  assumes "sys_ok sy" "\<And>p. path = Some p \<Longrightarrow> cstring p" and safe: "fat_safe sy path FA_WRITE"
    and Q: "\<And>r sy'. sys_ok sy' \<Longrightarrow> keeps sy sy' \<Longrightarrow> Q (r, sy')"
  shows "wp (f_mkdir sc sy path) Q"
  unfolding f_mkdir_def
  by (auto simp: wp_simps sys_ok_mounted sys_ok_gok fat_safeD [OF safe]
      intro!: mount_volume_wp assms(1,2) f_mkdir_vol_wp Q sys_ok_store_good keeps_store)

lemma f_rename_entry_wp:
  assumes "vok s" "dir djn \<le> 480" "length buf = 32" and Q: "\<And>r s'. good s s' \<Longrightarrow> Q (r, s')"
  shows "wp (f_rename_entry s djo djn buf) Q"
  unfolding f_rename_entry_def Let_def using assms(1-3)
  by (auto simp: wp_simps frame_simps vok_length intro!: ld_clust_wp st_clust_wp move_window_wp Q)

lemma f_rename_vol_wp:
  assumes "vdir s" "cstring p" "\<exists>q. pn = Some q \<and> cstring q" and Q: "\<And>r s'. good s s' \<Longrightarrow> Q (r, s')"
  shows "wp (f_rename_vol sc s a p pn) Q"
proof -
  obtain q where q: "pn = Some q" "cstring q" using assms(3) by blast
  have fo: "wp (follow_path sc s' dj q) R" if "good s s'" "length (fn dj) = 12"
    "\<And>r dj' s''. \<lbrakk>good s s''; length (fn dj') = 12; r = FR_OK \<longrightarrow> dok dj'\<rbrakk> \<Longrightarrow> R (r, dj', s'')" for s' dj R
    by (rule follow_path_wp [OF vdir_good [OF that(1) assms(1)] that(2) q(2)]) (auto intro!: that(3) intro: good_trans [OF that(1)])
  have rg: "wp (dir_register s' dj) R" if "good s s'" "length (fn dj) = 12"
    "\<And>r dj' s''. good s s'' \<Longrightarrow> r = FR_OK \<longrightarrow> dir dj' \<le> 480 \<Longrightarrow> R (r, dj', s'')" for s' dj R
    by (rule dir_register_wp [OF vdir_good [OF that(1) assms(1)] that(2)])
      (auto simp: dok_def intro!: that(3) intro: good_trans [OF that(1)])
  have en: "wp (f_rename_entry s' djo djn buf) R" if "good s s'" "dir djn \<le> 480" "length buf = 32" "\<And>r s''. good s s'' \<Longrightarrow> R (r, s'')" for s' djo djn buf R
    by (rule f_rename_entry_wp [OF good_vok [OF that(1)] that(2,3)]) (auto intro!: that(4) intro: good_trans [OF that(1)])
  have rm: "wp (dir_remove s' dj) R" if "good s s'" "dir dj \<le> 480" "\<And>r s''. good s s'' \<Longrightarrow> R (r, s'')" for s' dj R
    by (rule dir_remove_wp [OF good_vok [OF that(1)] that(2)]) (auto intro!: that(3) intro: good_trans [OF that(1)])
  have sy: "wp (sync_fs s') Q" if "good s s'" for s'
    by (rule sync_fs_wp [OF good_vok [OF that]]) (auto intro!: Q intro: good_trans [OF that])
  show ?thesis
    unfolding f_rename_vol_def Let_def using assms(1,2) q(1)
    by (auto simp: wp_simps dok_def vok_length good_vok intro!: follow_path_wp fo rg en rm sy Q)
qed

lemma get_ldnumber_Some: "get_ldnumber (Some p) = Some (v, p') \<Longrightarrow> p' \<noteq> None"
  by (auto simp: get_ldnumber_def bind_eq_Some_conv Let_def split: if_splits prod.splits option.splits)

lemma f_rename_wp:
  assumes "sys_ok sy" "\<And>p. path = Some p \<Longrightarrow> cstring p" "cstring q"
    and Q: "\<And>r sy'. sys_ok sy' \<Longrightarrow> keeps sy sy' \<Longrightarrow> Q (r, sy')"
  shows "wp (f_rename sc sy path (Some q)) Q"
proof -
  have g: "wp (get_ldnumber (Some q)) R" if "\<And>v p'. cstring p' \<Longrightarrow> R (v, Some p')" for R
  proof -
    have "wp (get_ldnumber (Some q)) (\<lambda>(v, p'). \<forall>x. p' = Some x \<longrightarrow> cstring x)"
      using assms(3) by (intro get_ldnumber_wp) auto
    then show ?thesis by (elim wpE) (auto simp: wp_def intro!: that dest: get_ldnumber_Some)
  qed
  show ?thesis
    unfolding f_rename_def
    by (auto simp: wp_simps sys_ok_mounted intro!: g mount_volume_wp assms(1,2) f_rename_vol_wp Q sys_ok_store_good keeps_store)
qed

end
