(* ===== verification/FF_Mkfs.thy ===== *)
theory FF_Mkfs
  imports FF_Mount
begin

text \<open>
  Formatting: \<open>create_partition\<close> (the MBR branch) and \<open>f_mkfs\<close> (FAT12/16/32) of \<open>ff.c\<close>.  The
  working buffer of the caller is \<open>work\<close>, \<open>None\<close> for the null pointer; its content after the
  call is not returned, every write into it is checked against its length.
\<close>

abbreviation (input) N_SEC_TRACK :: DWORD where "N_SEC_TRACK \<equiv> 63"

section \<open>Partition table\<close>

text \<open>The loop that doubles the number of heads, an 8-bit counter.\<close>

partial_function (option) n_hd_loop :: "DWORD \<Rightarrow> DWORD \<Rightarrow> BYTE \<Rightarrow> BYTE option" where
  "n_hd_loop sz_drv32 n_sc n_hd =
     (if n_hd \<noteq> 0 \<and> sz_drv32 div ucast n_hd div n_sc > 1024
      then n_hd_loop sz_drv32 n_sc (n_hd * 2) else Some n_hd)"

declare n_hd_loop.simps [code]

text \<open>One entry of the table at offset \<open>pte\<close>: lines 5870 to 5886.\<close>

definition put_pte ::
    "buffer \<Rightarrow> nat \<Rightarrow> BYTE \<Rightarrow> DWORD \<Rightarrow> DWORD \<Rightarrow> DWORD \<Rightarrow> DWORD \<Rightarrow> buffer option" where
  "put_pte b pte sys n_sc n_hd nxt_alloc32 sz_part32 = do {
     b \<leftarrow> st_dword b (pte + PTE_StLba) nxt_alloc32;
     b \<leftarrow> st_dword b (pte + PTE_SizLba) sz_part32;
     b \<leftarrow> stb b (pte + PTE_System) sys;
     let cy = nxt_alloc32 div n_sc div n_hd;
     let hd = (ucast (nxt_alloc32 div n_sc mod n_hd) :: BYTE);
     let sc = (ucast (nxt_alloc32 mod n_sc + 1) :: BYTE);
     b \<leftarrow> stb b (pte + PTE_StHead) hd;
     b \<leftarrow> stb b (pte + PTE_StSec) (ucast ((drop_bit 2 cy AND 0xC0) OR ucast sc));
     b \<leftarrow> stb b (pte + PTE_StCyl) (ucast cy);
     let cy = (nxt_alloc32 + sz_part32 - 1) div n_sc div n_hd;
     let hd = (ucast ((nxt_alloc32 + sz_part32 - 1) div n_sc mod n_hd) :: BYTE);
     let sc = (ucast ((nxt_alloc32 + sz_part32 - 1) mod n_sc + 1) :: BYTE);
     b \<leftarrow> stb b (pte + PTE_EdHead) hd;
     b \<leftarrow> stb b (pte + PTE_EdSec) (ucast ((drop_bit 2 cy AND 0xC0) OR ucast sc));
     stb b (pte + PTE_EdCyl) (ucast cy)
   }"

text \<open>The size of a partition: a percentage up to 100, clipped at the drive size.\<close>

definition part_size :: "DWORD \<Rightarrow> DWORD \<Rightarrow> DWORD \<Rightarrow> DWORD" where
  "part_size sz_drv32 nxt_alloc32 psz =
     (let sz_part32 = (if psz \<le> 100 then if psz = 100 then sz_drv32 else sz_drv32 div 100 * psz
                       else psz)
      in if nxt_alloc32 + sz_part32 > sz_drv32 \<or> nxt_alloc32 + sz_part32 < nxt_alloc32
         then sz_drv32 - nxt_alloc32 else sz_part32)"

text \<open>The loop over the partition list; \<open>k\<close> counts the entries left of the four.  Reading the
  list beyond its end is \<open>None\<close>.\<close>

fun create_partition_loop ::
    "nat \<Rightarrow> DWORD list \<Rightarrow> buffer \<Rightarrow> nat \<Rightarrow> BYTE \<Rightarrow> DWORD \<Rightarrow> DWORD \<Rightarrow> DWORD \<Rightarrow> DWORD \<Rightarrow> buffer option" where
  "create_partition_loop 0 plst b pte sys n_sc n_hd sz_drv32 nxt_alloc32 = Some b"
| "create_partition_loop (Suc k) plst b pte sys n_sc n_hd sz_drv32 nxt_alloc32 =
     (if nxt_alloc32 \<noteq> 0 \<and> nxt_alloc32 < sz_drv32 then
        case plst of
          [] \<Rightarrow> None
        | psz # plst' \<Rightarrow> do {
            let sz_part32 = part_size sz_drv32 nxt_alloc32 psz;
            if sz_part32 = 0 then Some b
            else do {
              b \<leftarrow> put_pte b pte sys n_sc n_hd nxt_alloc32 sz_part32;
              create_partition_loop k plst' b (pte + SZ_PTE) sys n_sc n_hd sz_drv32
                (nxt_alloc32 + sz_part32)
            }
          }
      else Some b)"

definition create_partition ::
    "disk \<Rightarrow> DWORD list \<Rightarrow> BYTE \<Rightarrow> buffer \<Rightarrow> (FRESULT \<times> buffer \<times> disk) option" where
  "create_partition d plst sys b =
     (case disk_ioctl GET_SECTOR_COUNT of
        (r, v) \<Rightarrow>
          if r \<noteq> RES_OK then Some (FR_DISK_ERR, b, d)
          else do {
            sz_drv32 \<leftarrow> v;
            let n_sc = N_SEC_TRACK;
            n_hd \<leftarrow> n_hd_loop sz_drv32 n_sc 8;
            let n_hd = (if n_hd = 0 then 255 else n_hd);
            b \<leftarrow> memset b 0 0 512;
            b \<leftarrow> create_partition_loop 4 plst b MBR_Table sys n_sc (ucast n_hd) sz_drv32 n_sc;
            b \<leftarrow> st_word b BS_55AA 0xAA55;
            (r, d) \<leftarrow> disk_write d b 0 1;
            if r \<noteq> RES_OK then Some (FR_DISK_ERR, b, d) else Some (FR_OK, b, d)
          })"

section \<open>The layout of the volume\<close>

text \<open>The values that the layout loop of \<open>f_mkfs\<close> determines.\<close>

record layout =
  l_fsty :: BYTE
  l_pau :: DWORD
  l_n_clst :: DWORD
  l_sz_fat :: DWORD
  l_sz_rsv :: DWORD
  l_sz_dir :: DWORD
  l_b_fat :: LBA_t
  l_b_data :: LBA_t

definition cst :: "DWORD list" where
  "cst = [1, 4, 16, 64, 256, 512, 0]"

definition cst32 :: "DWORD list" where
  "cst32 = [1, 2, 4, 8, 16, 32, 0]"

text \<open>The table lookup \<open>for (i = 0, pau = 1; cst[i] && cst[i] <= n; i++, pau <<= 1)\<close>.\<close>

fun pau_of :: "DWORD list \<Rightarrow> DWORD \<Rightarrow> DWORD \<Rightarrow> DWORD option" where
  "pau_of [] n pau = None"
| "pau_of (c # cs) n pau = (if c \<noteq> 0 \<and> c \<le> n then pau_of cs n (push_bit 1 pau) else Some pau)"

text \<open>The size of the FAT in sectors, lines 6215, 6225 to 6231.\<close>

definition mkfs_sz_fat :: "BYTE \<Rightarrow> DWORD \<Rightarrow> DWORD" where
  "mkfs_sz_fat fsty n_clst =
     (if fsty = FS_FAT32 then (n_clst * 4 + 8 + SS - 1) div SS
      else let n = (if n_clst > MAX_FAT12 then n_clst * 2 + 4 else (n_clst * 3 + 1) div 2 + 3)
           in (n + SS - 1) div SS)"

text \<open>Lines 6238 to 6246: the data area is aligned to the erase block by moving the FAT of a FAT32
  volume, or by expanding the FAT; the sizes of the reserved area and the FAT and the base of the
  FAT.\<close>

definition mkfs_align ::
    "BYTE \<Rightarrow> LBA_t \<Rightarrow> DWORD \<Rightarrow> UINT \<Rightarrow> DWORD \<Rightarrow> LBA_t \<Rightarrow> DWORD \<Rightarrow> DWORD \<times> LBA_t \<times> DWORD" where
  "mkfs_align fsty b_data sz_blk n_fat sz_rsv b_fat sz_fat =
     (let n = ((b_data + sz_blk - 1) AND NOT (sz_blk - 1)) - b_data
      in if fsty = FS_FAT32 then (sz_rsv + n, b_fat + n, sz_fat)
         else if n mod n_fat \<noteq> 0 then (sz_rsv + 1, b_fat + 1, sz_fat + (n - 1) div n_fat)
         else (sz_rsv, b_fat, sz_fat + n div n_fat))"

text \<open>Lines 6213 to 6251 for the cluster size \<open>pau\<close>: \<open>None\<close> is \<open>FR_MKFS_ABORTED\<close>.\<close>

definition mkfs_fit ::
    "BYTE \<Rightarrow> DWORD \<Rightarrow> DWORD \<Rightarrow> LBA_t \<Rightarrow> DWORD \<Rightarrow> UINT \<Rightarrow> UINT \<Rightarrow> layout option" where
  "mkfs_fit fsty pau sz_vol b_vol sz_blk n_fat n_root =
     (let n_clst = sz_vol div pau;
          sz_fat = mkfs_sz_fat fsty n_clst;
          sz_rsv = (if fsty = FS_FAT32 then 32 else 1);
          sz_dir = (if fsty = FS_FAT32 then 0 else n_root * of_nat SZDIRE div SS)
      in if fsty = FS_FAT32 \<and> (n_clst \<le> MAX_FAT16 \<or> n_clst > MAX_FAT32) then None
         else let fsty = (if fsty \<noteq> FS_FAT32 \<and> \<not> n_clst > MAX_FAT12 then FS_FAT12 else fsty);
                  b_fat = b_vol + sz_rsv;
                  b_data = b_fat + sz_fat * n_fat + sz_dir
              in case mkfs_align fsty b_data sz_blk n_fat sz_rsv b_fat sz_fat of
                   (sz_rsv, b_fat, sz_fat) \<Rightarrow>
                     if sz_vol < b_data + pau * 16 - b_vol then None
                     else Some \<lparr>l_fsty = fsty, l_pau = pau,
                            l_n_clst = (sz_vol - sz_rsv - sz_fat * n_fat - sz_dir) div pau,
                            l_sz_fat = sz_fat, l_sz_rsv = sz_rsv, l_sz_dir = sz_dir,
                            l_b_fat = b_fat, l_b_data = b_data\<rparr>)"

text \<open>Lines 6206 to 6251, one pass of the loop.\<close>

definition mkfs_pass ::
    "BYTE \<Rightarrow> DWORD \<Rightarrow> DWORD \<Rightarrow> LBA_t \<Rightarrow> DWORD \<Rightarrow> UINT \<Rightarrow> UINT \<Rightarrow> layout option option" where
  "mkfs_pass fsty sz_au sz_vol b_vol sz_blk n_fat n_root = do {
     pau \<leftarrow> (if sz_au = 0 then
               if fsty = FS_FAT32 then pau_of cst32 (sz_vol div 0x20000) 1
               else pau_of cst (sz_vol div 0x1000) 1
             else Some sz_au);
     Some (mkfs_fit fsty pau sz_vol b_vol sz_blk n_fat n_root)
   }"

text \<open>Lines 6205 to 6277, the loop: passes with an adjusted cluster size or FAT type until the
  number of clusters fits the type.\<close>

partial_function (option) mkfs_layout ::
    "BYTE \<Rightarrow> BYTE \<Rightarrow> DWORD \<Rightarrow> DWORD \<Rightarrow> LBA_t \<Rightarrow> DWORD \<Rightarrow> UINT \<Rightarrow> UINT \<Rightarrow> layout option option" where
  "mkfs_layout fsopt fsty sz_au sz_vol b_vol sz_blk n_fat n_root = do {
     r \<leftarrow> mkfs_pass fsty sz_au sz_vol b_vol sz_blk n_fat n_root;
     case r of
       None \<Rightarrow> Some None
     | Some l \<Rightarrow>
         let fsty = l_fsty l; pau = l_pau l; n_clst = l_n_clst l
         in if fsty = FS_FAT32 \<and> n_clst \<le> MAX_FAT16 then
              if sz_au = 0 \<and> pau div 2 \<noteq> 0
              then mkfs_layout fsopt fsty (pau div 2) sz_vol b_vol sz_blk n_fat n_root
              else Some None
            else if fsty = FS_FAT16 \<and> n_clst > MAX_FAT16 then
              if sz_au = 0 \<and> pau * 2 \<le> 64
              then mkfs_layout fsopt fsty (pau * 2) sz_vol b_vol sz_blk n_fat n_root
              else if fsopt AND FM_FAT32 \<noteq> 0
              then mkfs_layout fsopt FS_FAT32 sz_au sz_vol b_vol sz_blk n_fat n_root
              else if sz_au = 0 \<and> pau * 2 \<le> 128
              then mkfs_layout fsopt fsty (pau * 2) sz_vol b_vol sz_blk n_fat n_root
              else Some None
            else if fsty = FS_FAT16 \<and> n_clst \<le> MAX_FAT12 then
              if sz_au = 0 \<and> pau * 2 \<le> 128
              then mkfs_layout fsopt fsty (pau * 2) sz_vol b_vol sz_blk n_fat n_root
              else Some None
            else if fsty = FS_FAT12 \<and> n_clst > MAX_FAT12 then Some None
            else Some (Some l)
   }"

declare mkfs_layout.simps [code]

section \<open>The sectors of the volume\<close>

text \<open>Lines 6283 to 6316: the volume boot record in the first sector of the buffer.\<close>

definition mkfs_vbr ::
    "buffer \<Rightarrow> layout \<Rightarrow> DWORD \<Rightarrow> LBA_t \<Rightarrow> UINT \<Rightarrow> UINT \<Rightarrow> DWORD \<Rightarrow> buffer option" where
  "mkfs_vbr b l sz_vol b_vol n_fat n_root vsn = do {
     b \<leftarrow> memset b 0 0 512;
     b \<leftarrow> memwrite b BS_JmpBoot ([0xEB, 0xFE, 0x90] @ bytes_of ''MSDOS5.0'');
     b \<leftarrow> st_word b BPB_BytsPerSec 512;
     b \<leftarrow> stb b BPB_SecPerClus (ucast (l_pau l));
     b \<leftarrow> st_word b BPB_RsvdSecCnt (ucast (l_sz_rsv l));
     b \<leftarrow> stb b BPB_NumFATs (ucast n_fat);
     b \<leftarrow> st_word b BPB_RootEntCnt (if l_fsty l = FS_FAT32 then 0 else ucast n_root);
     b \<leftarrow> (if sz_vol < 0x10000 then st_word b BPB_TotSec16 (ucast sz_vol)
           else st_dword b BPB_TotSec32 sz_vol);
     b \<leftarrow> stb b BPB_Media 0xF8;
     b \<leftarrow> st_word b BPB_SecPerTrk 63;
     b \<leftarrow> st_word b BPB_NumHeads 255;
     b \<leftarrow> st_dword b BPB_HiddSec b_vol;
     b \<leftarrow> (if l_fsty l = FS_FAT32 then do {
             b \<leftarrow> st_dword b BS_VolID32 vsn;
             b \<leftarrow> st_dword b BPB_FATSz32 (l_sz_fat l);
             b \<leftarrow> st_dword b BPB_RootClus32 2;
             b \<leftarrow> st_word b BPB_FSInfo32 1;
             b \<leftarrow> st_word b BPB_BkBootSec32 6;
             b \<leftarrow> stb b BS_DrvNum32 0x80;
             b \<leftarrow> stb b BS_BootSig32 0x29;
             memwrite b BS_VolLab32 (bytes_of ''NO NAME    FAT32   '')
           } else do {
             b \<leftarrow> st_dword b BS_VolID vsn;
             b \<leftarrow> st_word b BPB_FATSz16 (ucast (l_sz_fat l));
             b \<leftarrow> stb b BS_DrvNum 0x80;
             b \<leftarrow> stb b BS_BootSig 0x29;
             memwrite b BS_VolLab (bytes_of ''NO NAME    FAT     '')
           });
     st_word b BS_55AA 0xAA55
   }"

text \<open>Lines 6322 to 6327: the FSINFO record in the first sector of the buffer.\<close>

definition mkfs_fsinfo :: "buffer \<Rightarrow> DWORD \<Rightarrow> buffer option" where
  "mkfs_fsinfo b n_clst = do {
     b \<leftarrow> memset b 0 0 512;
     b \<leftarrow> st_dword b FSI_LeadSig 0x41615252;
     b \<leftarrow> st_dword b FSI_StrucSig 0x61417272;
     b \<leftarrow> st_dword b FSI_Free_Count (n_clst - 1);
     b \<leftarrow> st_dword b FSI_Nxt_Free 2;
     st_word b BS_55AA 0xAA55
   }"

text \<open>The \<open>do\<close> loop that fills the sectors of one FAT: the first write carries the entries in
  the buffer, the rest of the area is zero.\<close>

partial_function (option) mkfs_fill_fat ::
    "disk \<Rightarrow> buffer \<Rightarrow> DWORD \<Rightarrow> LBA_t \<Rightarrow> DWORD \<Rightarrow> (FRESULT \<times> LBA_t \<times> buffer \<times> disk) option" where
  "mkfs_fill_fat d b sz_buf sector nsect = do {
     let n = (if nsect > sz_buf then sz_buf else nsect);
     (r, d) \<leftarrow> disk_write d b sector n;
     if r \<noteq> RES_OK then Some (FR_DISK_ERR, sector, b, d)
     else do {
       b \<leftarrow> memset b 0 0 512;
       let sector = sector + n;
       let nsect = nsect - n;
       if nsect \<noteq> 0 then mkfs_fill_fat d b sz_buf sector nsect else Some (FR_OK, sector, b, d)
     }
   }"

declare mkfs_fill_fat.simps [code]

text \<open>Lines 6335 to 6350: initialise each of the \<open>k\<close> FATs left.\<close>

fun mkfs_init_fats ::
    "nat \<Rightarrow> disk \<Rightarrow> buffer \<Rightarrow> BYTE \<Rightarrow> DWORD \<Rightarrow> DWORD \<Rightarrow> LBA_t \<Rightarrow>
     (FRESULT \<times> LBA_t \<times> buffer \<times> disk) option" where
  "mkfs_init_fats 0 d b fsty sz_buf sz_fat sector = Some (FR_OK, sector, b, d)"
| "mkfs_init_fats (Suc k) d b fsty sz_buf sz_fat sector = do {
     b \<leftarrow> (if fsty = FS_FAT32 then do {
             b \<leftarrow> st_dword b 0 0xFFFFFFF8;
             b \<leftarrow> st_dword b 4 0xFFFFFFFF;
             st_dword b 8 0x0FFFFFFF
           } else st_dword b 0 (if fsty = FS_FAT12 then 0xFFFFF8 else 0xFFFFFFF8));
     (res, sector, b, d) \<leftarrow> mkfs_fill_fat d b sz_buf sector sz_fat;
     if res \<noteq> FR_OK then Some (res, sector, b, d)
     else mkfs_init_fats k d b fsty sz_buf sz_fat sector
   }"

text \<open>Lines 6353 to 6358: fill the root directory with zero.\<close>

partial_function (option) mkfs_fill_root ::
    "disk \<Rightarrow> buffer \<Rightarrow> DWORD \<Rightarrow> LBA_t \<Rightarrow> DWORD \<Rightarrow> (FRESULT \<times> disk) option" where
  "mkfs_fill_root d b sz_buf sector nsect = do {
     let n = (if nsect > sz_buf then sz_buf else nsect);
     (r, d) \<leftarrow> disk_write d b sector n;
     if r \<noteq> RES_OK then Some (FR_DISK_ERR, d)
     else do {
       let sector = sector + n;
       let nsect = nsect - n;
       if nsect \<noteq> 0 then mkfs_fill_root d b sz_buf sector nsect else Some (FR_OK, d)
     }
   }"

declare mkfs_fill_root.simps [code]

text \<open>Lines 6283 to 6359: write the volume.\<close>

definition mkfs_write ::
    "disk \<Rightarrow> buffer \<Rightarrow> layout \<Rightarrow> DWORD \<Rightarrow> DWORD \<Rightarrow> LBA_t \<Rightarrow> UINT \<Rightarrow> UINT \<Rightarrow> DWORD \<Rightarrow>
     (FRESULT \<times> buffer \<times> disk) option" where
  "mkfs_write d b l sz_buf sz_vol b_vol n_fat n_root vsn = do {
     b \<leftarrow> mkfs_vbr b l sz_vol b_vol n_fat n_root vsn;
     (r, d) \<leftarrow> disk_write d b b_vol 1;
     if r \<noteq> RES_OK then Some (FR_DISK_ERR, b, d)
     else do {
       (b, d) \<leftarrow> (if l_fsty l = FS_FAT32 then do {
                   (_, d) \<leftarrow> disk_write d b (b_vol + 6) 1;
                   b \<leftarrow> mkfs_fsinfo b (l_n_clst l);
                   (_, d) \<leftarrow> disk_write d b (b_vol + 7) 1;
                   (_, d) \<leftarrow> disk_write d b (b_vol + 1) 1;
                   Some (b, d)
                 } else Some (b, d));
       b \<leftarrow> memset b 0 0 (unat (sz_buf * SS));
       (res, sector, b, d) \<leftarrow>
         mkfs_init_fats (unat n_fat) d b (l_fsty l) sz_buf (l_sz_fat l) (l_b_fat l);
       if res \<noteq> FR_OK then Some (res, b, d)
       else do {
         (res, d) \<leftarrow> mkfs_fill_root d b sz_buf sector
                      (if l_fsty l = FS_FAT32 then l_pau l else l_sz_dir l);
         Some (res, b, d)
       }
     }
   }"

section \<open>Formatting\<close>

text \<open>Lines 6363 to 6374: the system ID of the partition.\<close>

definition mkfs_sysid :: "BYTE \<Rightarrow> DWORD \<Rightarrow> BYTE" where
  "mkfs_sysid fsty sz_vol =
     (if fsty = FS_FAT32 then 0x0C
      else if sz_vol \<ge> 0x10000 then 0x06
      else if fsty = FS_FAT16 then 0x04
      else 0x01)"

definition mkfs_defopt :: MKFS_PARM where
  "mkfs_defopt = \<lparr>mp_fmt = FM_ANY, mp_n_fat = 0, mp_align = 0, mp_n_root = 0, mp_au_size = 0\<rparr>"

text \<open>Lines 5936 to 5953: the parameters as \<open>f_mkfs\<close> uses them: block size, options, number of
  FATs, root entries and cluster size in sectors.\<close>

definition mkfs_params :: "MKFS_PARM \<Rightarrow> DWORD \<times> BYTE \<times> UINT \<times> UINT \<times> DWORD" where
  "mkfs_params opt =
     (let sz_blk = mp_align opt;
          sz_blk = (if sz_blk = 0 then case snd (disk_ioctl GET_BLOCK_SIZE) of
                                         None \<Rightarrow> sz_blk | Some v \<Rightarrow> v
                    else sz_blk);
          sz_blk = (if sz_blk = 0 \<or> sz_blk > 0x8000 \<or> sz_blk AND (sz_blk - 1) \<noteq> 0 then 1 else sz_blk);
          fsopt = mp_fmt opt AND (FM_ANY OR FM_SFD);
          n_fat = (if mp_n_fat opt \<ge> 1 \<and> mp_n_fat opt \<le> 2 then ucast (mp_n_fat opt) else 1);
          n_root = (if mp_n_root opt \<ge> 1 \<and> mp_n_root opt \<le> 32768
                       \<and> mp_n_root opt mod (SS div of_nat SZDIRE) = 0
                    then mp_n_root opt else 512);
          sz_au = (if mp_au_size opt \<le> 0x1000000 \<and> mp_au_size opt AND (mp_au_size opt - 1) = 0
                   then mp_au_size opt else 0);
          sz_au = sz_au div SS
      in (sz_blk, fsopt, n_fat, n_root, sz_au))"

text \<open>Lines 5965 to 6040: where the volume is located on the drive, its first sector and its
  size; the drive is partitioned unless \<open>FM_SFD\<close> is given.\<close>

definition mkfs_place :: "BYTE \<Rightarrow> LBA_t \<Rightarrow> LBA_t \<times> LBA_t" where
  "mkfs_place fsopt sz_vol =
     (if fsopt AND FM_SFD = 0 \<and> sz_vol > N_SEC_TRACK
      then (N_SEC_TRACK, sz_vol - N_SEC_TRACK) else (0, sz_vol))"

text \<open>Lines 6277 to 6389: write the volume, then the partition table.\<close>

definition mkfs_commit ::
    "disk \<Rightarrow> buffer \<Rightarrow> layout \<Rightarrow> BYTE \<Rightarrow> DWORD \<Rightarrow> LBA_t \<Rightarrow> LBA_t \<Rightarrow> UINT \<Rightarrow> UINT \<Rightarrow>
     (FRESULT \<times> disk) option" where
  "mkfs_commit d b l fsopt sz_buf sz_vol b_vol n_fat n_root = do {
     (res, b, d) \<leftarrow> mkfs_write d b l sz_buf sz_vol b_vol n_fat n_root (sz_vol + GET_FATTIME);
     if res \<noteq> FR_OK then Some (res, d)
     else do {
       (res, b, d) \<leftarrow> (if fsopt AND FM_SFD = 0
                      then create_partition d [sz_vol, 0] (mkfs_sysid (l_fsty l) sz_vol) b
                      else Some (FR_OK, b, d));
       if res \<noteq> FR_OK then Some (res, d)
       else if fst (disk_ioctl CTRL_SYNC) \<noteq> RES_OK then Some (FR_DISK_ERR, d)
       else Some (FR_OK, d)
     }
   }"

text \<open>Lines 5936 to 6389: format the drive with a work buffer of \<open>sz_buf\<close> sectors.\<close>

definition mkfs_drive :: "disk \<Rightarrow> MKFS_PARM \<Rightarrow> buffer \<Rightarrow> DWORD \<Rightarrow> (FRESULT \<times> disk) option" where
  "mkfs_drive d opt b sz_buf =
     (case mkfs_params opt of (sz_blk, fsopt, n_fat, n_root, sz_au) \<Rightarrow>
        case disk_ioctl GET_SECTOR_COUNT of (r, cnt) \<Rightarrow>
          if r \<noteq> RES_OK then Some (FR_DISK_ERR, d)
          else do {
            sz_vol \<leftarrow> cnt;
            let (b_vol, sz_vol) = mkfs_place fsopt sz_vol;
            if sz_vol < 128 then Some (FR_MKFS_ABORTED, d)
            else do {
              let sz_au = (if sz_au > 128 then 128 else sz_au);
              if fsopt AND FM_FAT = 0 \<and> fsopt AND FM_FAT32 = 0 then Some (FR_INVALID_PARAMETER, d)
              else do {
                let fsty = (if fsopt AND FM_FAT32 \<noteq> 0 \<and> fsopt AND FM_FAT = 0
                            then FS_FAT32 else FS_FAT16);
                lo \<leftarrow> mkfs_layout fsopt fsty sz_au sz_vol b_vol sz_blk n_fat n_root;
                case lo of
                  None \<Rightarrow> Some (FR_MKFS_ABORTED, d)
                | Some l \<Rightarrow> mkfs_commit d b l fsopt sz_buf sz_vol b_vol n_fat n_root
              }
            }
          })"

definition f_mkfs ::
    "sys \<Rightarrow> buffer option \<Rightarrow> MKFS_PARM option \<Rightarrow> buffer option \<Rightarrow> UINT \<Rightarrow> (FRESULT \<times> sys) option" where
  "f_mkfs sy path opt work len = do {
     (v, _) \<leftarrow> get_ldnumber path;
     if v < 0 then Some (FR_INVALID_DRIVE, sy)
     else do {
       let sy = (case FatFs sy of None \<Rightarrow> sy
                 | Some c \<Rightarrow> sy\<lparr>objs := (objs sy)(c := (objs sy c)\<lparr>fs_type := 0\<rparr>)\<rparr>);
       let ds = disk_initialize;
       if ds AND STA_NOINIT \<noteq> 0 then Some (FR_NOT_READY, sy)
       else if ds AND STA_PROTECT \<noteq> 0 then Some (FR_WRITE_PROTECTED, sy)
       else do {
         let opt = (case opt of None \<Rightarrow> mkfs_defopt | Some o' \<Rightarrow> o');
         let sz_buf = len div SS;
         if sz_buf = 0 then Some (FR_NOT_ENOUGH_CORE, sy)
         else case work of
           None \<Rightarrow> Some (FR_NOT_ENOUGH_CORE, sy)
         | Some b \<Rightarrow> do {
             (res, d) \<leftarrow> mkfs_drive (sdisk sy) opt b sz_buf;
             Some (res, sy\<lparr>sdisk := d\<rparr>)
           }
       }
     }
   }"

end
