(* ===== verification/FF_MkfsOps.thy ===== *)
theory FF_MkfsOps
  imports FF_Mkfs FF_ReadWrite
begin

text \<open>
  Safety and termination of \<open>f_mkfs\<close>: the layout search ends, every write into the work buffer is
  inside it, and no volume is left mounted.
\<close>

section \<open>The layout\<close>

lemma pau_of_tables:
  "\<exists>p. pau_of cst n 1 = Some p \<and> p \<noteq> 0 \<and> p * 2 \<noteq> 0"
  "\<exists>p. pau_of cst32 n 1 = Some p \<and> p \<noteq> 0 \<and> p * 2 \<noteq> 0"
  by (simp_all add: cst_def cst32_def)

lemma mkfs_fit_Some:
  assumes "mkfs_fit fsty pau sz_vol b_vol sz_blk n_fat n_root = Some l"
  shows "l_pau l = pau" "(l_fsty l = FS_FAT32) = (fsty = FS_FAT32)"
  using assms unfolding mkfs_fit_def
  by (simp_all add: Let_def split: prod.splits if_splits) auto

text \<open>What one pass leaves: the type changes from FAT16 to FAT12 at most, and the cluster size is
  the one that was asked for or one from the tables.\<close>

lemma mkfs_pass_wp:
  assumes Q: "Q None"
    "\<And>l. \<lbrakk>(l_fsty l = FS_FAT32) = (fsty = FS_FAT32); l_pau l \<noteq> 0; sz_au = 0 \<longrightarrow> l_pau l * 2 \<noteq> 0\<rbrakk> \<Longrightarrow> Q (Some l)"
  shows "wp (mkfs_pass fsty sz_au sz_vol b_vol sz_blk n_fat n_root) Q"
proof -
  have p: "wp (pau_of cst32 n 1) R" "wp (pau_of cst n 1) R" if "\<And>p. p \<noteq> 0 \<Longrightarrow> p * 2 \<noteq> 0 \<Longrightarrow> R p" for R n
    using pau_of_tables [of n] that by (auto simp: wp_def)
  have f: "Q (mkfs_fit ty pau sz_vol b_vol sz_blk n_fat n_root)"
    if "pau \<noteq> 0" "sz_au = 0 \<longrightarrow> pau * 2 \<noteq> 0" "ty = fsty" for pau ty
    using mkfs_fit_Some [of fsty pau] that by (cases "mkfs_fit fsty pau sz_vol b_vol sz_blk n_fat n_root") (auto intro!: Q)
  show ?thesis
    unfolding mkfs_pass_def by (auto simp: wp_simps intro!: p f)
qed

text \<open>The search ends: a pass is repeated with a fixed cluster size or once more as FAT32.\<close>

lemma mkfs_layout_fixed32:
  assumes Q: "Q None" "\<And>l. l_pau l \<noteq> 0 \<Longrightarrow> Q (Some l)" and "sz_au \<noteq> 0"
  shows "wp (mkfs_layout fsopt FS_FAT32 sz_au sz_vol b_vol sz_blk n_fat n_root) Q"
  using assms(3) by (subst mkfs_layout.simps) (auto simp: wp_simps Let_def intro!: mkfs_pass_wp Q)

lemma mkfs_layout_auto32:
  assumes Q: "Q None" "\<And>l. l_pau l \<noteq> 0 \<Longrightarrow> Q (Some l)"
  shows "wp (mkfs_layout fsopt FS_FAT32 sz_au sz_vol b_vol sz_blk n_fat n_root) Q"
  by (subst mkfs_layout.simps)
    (auto simp: wp_simps Let_def intro!: mkfs_pass_wp mkfs_layout_fixed32 Q)

lemma mkfs_layout_fixed:
  assumes Q: "Q None" "\<And>l. l_pau l \<noteq> 0 \<Longrightarrow> Q (Some l)" and "sz_au \<noteq> 0"
  shows "wp (mkfs_layout fsopt FS_FAT16 sz_au sz_vol b_vol sz_blk n_fat n_root) Q"
  using assms(3) by (subst mkfs_layout.simps)
    (auto simp: wp_simps Let_def intro!: mkfs_pass_wp mkfs_layout_auto32 Q)

lemma mkfs_layout_wp:
  assumes Q: "Q None" "\<And>l. l_pau l \<noteq> 0 \<Longrightarrow> Q (Some l)" and "fsty = FS_FAT16 \<or> fsty = FS_FAT32"
  shows "wp (mkfs_layout fsopt fsty sz_au sz_vol b_vol sz_blk n_fat n_root) Q"
proof -
  have "wp (mkfs_layout fsopt FS_FAT16 sz_au sz_vol b_vol sz_blk n_fat n_root) Q"
    by (subst mkfs_layout.simps)
      (auto simp: wp_simps Let_def intro!: mkfs_pass_wp mkfs_layout_auto32 mkfs_layout_fixed Q)
  then show ?thesis using assms(3) by (auto intro!: mkfs_layout_auto32 Q)
qed

section \<open>Filling sectors\<close>

lemma nsect_step:
  fixes nsect n :: DWORD
  assumes "n = (if nsect > sz_buf then sz_buf else nsect)" "nsect - n \<noteq> 0" "sz_buf \<noteq> 0"
  shows "unat (nsect - n) < unat nsect"
proof -
  have b: "0 < unat sz_buf" using assms(3) by (simp add: unat_gt_0)
  have "sz_buf < nsect" "n = sz_buf" using assms(1,2) by (auto split: if_splits)
  then show ?thesis using b by (simp add: unat_sub word_le_nat_alt word_less_nat_alt)
qed

lemma sectors_fit:
  assumes "unat sz_buf * 512 \<le> length b" "n = (if nsect > sz_buf then sz_buf else (nsect :: DWORD))"
  shows "unat n * 512 \<le> length b"
  using assms by (auto simp: word_less_nat_alt split: if_splits)

lemma one_sector:
  assumes "sz_buf \<noteq> (0 :: DWORD)" "unat sz_buf * 512 \<le> n"
  shows "512 \<le> n"
proof -
  have "0 < unat sz_buf" using assms(1) by (simp add: unat_gt_0)
  then show ?thesis using assms(2) by linarith
qed

lemma mkfs_fill_fat_wp:
  assumes "sz_buf \<noteq> 0" "unat sz_buf * 512 \<le> length b"
  shows "wp (mkfs_fill_fat d b sz_buf sector nsect) (\<lambda>(r, sec, b', d'). length b' = length b)"
  using assms
proof (induction "unat nsect" arbitrary: d b sector nsect rule: less_induct)
  case less
  define n where "n = (if nsect > sz_buf then sz_buf else nsect)"
  note f = sectors_fit [OF less.prems(2) n_def]
  note b1 = one_sector [OF less.prems]
  have rec: "wp (mkfs_fill_fat d' b' sz_buf sec (nsect - n)) (\<lambda>(r, sec, b', d'). length b' = length b)"
    if "nsect - n \<noteq> 0" "length b' = length b" for d' b' sec
    using less.hyps [OF nsect_step [OF n_def that(1) less.prems(1)] less.prems(1), of b'] that(2) less.prems(2) by simp
  show ?case
    apply (subst mkfs_fill_fat.simps)
    unfolding n_def [symmetric] Let_def
    using f b1 by (auto simp: wp_simps intro!: disk_write_wp rec)
qed

lemma mkfs_fill_root_wp:
  assumes "sz_buf \<noteq> 0" "unat sz_buf * 512 \<le> length b"
  shows "wp (mkfs_fill_root d b sz_buf sector nsect) (\<lambda>_. True)"
  using assms
proof (induction "unat nsect" arbitrary: d sector nsect rule: less_induct)
  case less
  define n where "n = (if nsect > sz_buf then sz_buf else nsect)"
  note f = sectors_fit [OF less.prems(2) n_def]
  have rec: "wp (mkfs_fill_root d' b sz_buf sec (nsect - n)) (\<lambda>_. True)"
    if "nsect - n \<noteq> 0" for d' sec
    using less.hyps [OF nsect_step [OF n_def that(1) less.prems(1)] less.prems] .
  show ?case
    apply (subst mkfs_fill_root.simps)
    unfolding n_def [symmetric] Let_def
    using f by (auto simp: wp_simps intro!: disk_write_wp rec)
qed

lemma mkfs_init_fats_wp:
  assumes "sz_buf \<noteq> 0" "unat sz_buf * 512 \<le> length b"
  shows "wp (mkfs_init_fats k d b fsty sz_buf sz_fat sector) (\<lambda>(r, sec, b', d'). length b' = length b)"
  using assms(2)
proof (induction k arbitrary: d b sector)
  case (Suc k)
  note b1 = one_sector [OF assms(1) Suc.prems]
  have ff: "wp (mkfs_fill_fat d' b' sz_buf sec m) R"
    if "length b' = length b" "\<And>r sec b'' d''. length b'' = length b \<Longrightarrow> R (r, sec, b'', d'')" for d' b' sec m R
    by (rule wp_mono [OF mkfs_fill_fat_wp [OF assms(1)]]) (use that Suc.prems in auto)
  have rec: "wp (mkfs_init_fats k d' b' f sz_buf sz_fat sec) (\<lambda>(r, sec, b', d'). length b' = length b)"
    if "length b' = length b" "f = fsty" for d' b' sec f
    using Suc.IH [of b' d' sec] that Suc.prems by simp
  show ?case
    using b1 by (auto simp: wp_simps intro!: st_dword_wp ff rec)
qed simp

text \<open>Stores into a buffer of length \<open>n\<close>, of which only the length is followed.\<close>

lemma st_len_wp:
  "length b = n \<Longrightarrow> p + 1 < n \<Longrightarrow> (\<And>b'. length b' = n \<Longrightarrow> Q b') \<Longrightarrow> wp (st_word b p v) Q"
  "length b = n \<Longrightarrow> p + 3 < n \<Longrightarrow> (\<And>b'. length b' = n \<Longrightarrow> Q b') \<Longrightarrow> wp (st_dword b p w) Q"
  "length b = n \<Longrightarrow> p < n \<Longrightarrow> (\<And>b'. length b' = n \<Longrightarrow> Q b') \<Longrightarrow> wp (stb b p x) Q"
  "length b = n \<Longrightarrow> p + length c \<le> n \<Longrightarrow> (\<And>b'. length b' = n \<Longrightarrow> Q b') \<Longrightarrow> wp (memwrite b p c) Q"
  "length b = n \<Longrightarrow> p + k \<le> n \<Longrightarrow> (\<And>b'. length b' = n \<Longrightarrow> Q b') \<Longrightarrow> wp (memset b p x k) Q"
  by (auto intro!: st_word_wp st_dword_wp simp: wp_simps)

lemma mkfs_vbr_wp:
  assumes "512 \<le> length b" and Q: "\<And>b'. length b' = length b \<Longrightarrow> Q b'"
  shows "wp (mkfs_vbr b l sz_vol b_vol n_fat n_root vsn) Q"
  unfolding mkfs_vbr_def wp_bind wp_if
  apply (intro st_len_wp [where n = "length b"] conjI impI Q)
  apply (assumption | rule refl | rule le_trans [OF _ assms(1)] less_le_trans [OF _ assms(1)], simp; fail)+
  done

lemma mkfs_fsinfo_wp:
  assumes "512 \<le> length b" and Q: "\<And>b'. length b' = length b \<Longrightarrow> Q b'"
  shows "wp (mkfs_fsinfo b n) Q"
  unfolding mkfs_fsinfo_def wp_bind
  by (intro st_len_wp [where n = "length b"] Q)
    (assumption | rule refl | rule le_trans [OF _ assms(1)] less_le_trans [OF _ assms(1)], simp; fail)+

lemma mkfs_write_wp:
  assumes "sz_buf \<noteq> 0" "unat (sz_buf * 512) = unat sz_buf * 512" "unat sz_buf * 512 \<le> length b"
    and Q: "\<And>r b' d'. length b' = length b \<Longrightarrow> Q (r, b', d')"
  shows "wp (mkfs_write d b l sz_buf sz_vol b_vol n_fat n_root vsn) Q"
proof -
  note b1 = one_sector [OF assms(1,3)]
  have ff: "wp (mkfs_init_fats k d' b' fsty sz_buf sz_fat sec) R"
    if "length b' = length b" "\<And>r sec b'' d''. length b'' = length b \<Longrightarrow> R (r, sec, b'', d'')" for k d' b' fsty sz_fat sec R
    by (rule wp_mono [OF mkfs_init_fats_wp [OF assms(1)]]) (use that assms(3) in auto)
  have fr: "wp (mkfs_fill_root d' b' sz_buf sec m) R"
    if "length b' = length b" "\<And>x. R x" for d' b' sec m R
    by (rule wp_mono [OF mkfs_fill_root_wp [OF assms(1)]]) (use that assms(3) in auto)
  show ?thesis
    unfolding mkfs_write_def using b1 assms(2,3)
    by (auto simp: wp_simps intro!: mkfs_vbr_wp mkfs_fsinfo_wp disk_write_wp ff fr Q)
qed

section \<open>The partition table\<close>

lemma n_hd_loop_step:
  "(\<And>h. Q h) \<Longrightarrow> wp (n_hd_loop sz n_sc 0) Q"
  "(\<And>h. Q h) \<Longrightarrow> wp (n_hd_loop sz n_sc (h * 2)) Q \<Longrightarrow> wp (n_hd_loop sz n_sc h) Q"
  by (subst n_hd_loop.simps, simp)+

text \<open>The 8-bit counter of heads reaches 0 after five doublings.\<close>

lemma n_hd_loop_wp:
  assumes Q: "\<And>h. Q h"
  shows "wp (n_hd_loop sz n_sc 8) Q"
proof -
  have "(8 * 2 * 2 * 2 * 2 * 2 :: BYTE) = 0" by simp
  then have e: "wp (n_hd_loop sz n_sc (8 * 2 * 2 * 2 * 2 * 2)) Q"
    using n_hd_loop_step(1) [of Q, OF Q] by metis
  note s = n_hd_loop_step(2) [of Q, OF Q]
  from e show ?thesis by (rule s [OF s [OF s [OF s [OF s]]]])
qed

lemma put_pte_wp:
  assumes "length b = n" "pte + 16 \<le> n" and Q: "\<And>b'. length b' = n \<Longrightarrow> Q b'"
  shows "wp (put_pte b pte sys n_sc n_hd nx sz) Q"
  unfolding put_pte_def wp_bind wp_Let
  by (intro st_len_wp [where n = n] Q)
    (assumption | rule assms(1) | rule le_trans [OF _ assms(2)] less_le_trans [OF _ assms(2)], simp; fail)+

text \<open>The list of sizes ends with 0 or has an entry for each of the four partitions.\<close>

lemma create_partition_loop_wp:
  assumes "length b = n" "pte + 16 * k \<le> n" "k \<le> length plst \<or> 0 \<in> set plst"
  shows "wp (create_partition_loop k plst b pte sys n_sc n_hd sz nx) (\<lambda>b'. length b' = n)"
  using assms
proof (induction k arbitrary: plst b pte nx)
  case (Suc k)
  have z: "part_size sz nx 0 = 0" if "nx < sz" for nx
    using that by (auto simp: part_size_def dest: less_asym)
  have rec: "wp (create_partition_loop k list b' (pte + 16) sys n_sc n_hd sz nx') (\<lambda>b'. length b' = m)"
    if "length b' = n" "k \<le> length list \<or> 0 \<in> set list" "m = n" for b' list nx' m
    using Suc.IH [of b' "pte + 16" list nx'] that Suc.prems(2) by simp
  show ?case
    using Suc.prems by (cases plst) (auto simp: wp_simps Let_def z intro!: put_pte_wp [where n = n] rec)
qed simp

lemma create_partition_wp:
  assumes "512 \<le> length b" "4 \<le> length plst \<or> 0 \<in> set plst"
    and Q: "\<And>r b' d'. length b' = length b \<Longrightarrow> Q (r, b', d')"
  shows "wp (create_partition d plst sys b) Q"
proof -
  have lp: "wp (create_partition_loop 4 plst b' MBR_Table sys n_sc n_hd sz nx) R"
    if "length b' = length b" "\<And>b''. length b'' = length b \<Longrightarrow> R b''" for b' n_sc n_hd sz nx R
    by (rule wp_mono [OF create_partition_loop_wp [OF that(1)]]) (use assms(1,2) that(2) in auto)
  show ?thesis
    unfolding create_partition_def disk_ioctl_def using assms(1)
    by (auto simp: wp_simps Let_def intro!: n_hd_loop_wp lp st_word_wp disk_write_wp Q)
qed

section \<open>Formatting\<close>

lemma mkfs_unmount:
  assumes "sys_ok sy" "FatFs sy = Some c"
  shows "sys_ok (sy\<lparr>objs := (objs sy)(c := (objs sy c)\<lparr>fs_type := 0\<rparr>), sdisk := d\<rparr>)"
    "sys_ok (sy\<lparr>objs := (objs sy)(c := (objs sy c)\<lparr>fs_type := 0\<rparr>)\<rparr>)"
  using assms by (auto simp: sys_ok_def)

lemma sys_ok_disk: "sys_ok sy \<Longrightarrow> FatFs sy = None \<Longrightarrow> sys_ok (sy\<lparr>sdisk := d\<rparr>)"
  by (auto simp: sys_ok_def)

lemma mkfs_commit_wp:
  assumes "sz_buf \<noteq> 0" "unat (sz_buf * 512) = unat sz_buf * 512" "unat sz_buf * 512 \<le> length b"
    and Q: "\<And>r d'. Q (r, d')"
  shows "wp (mkfs_commit d b l fsopt sz_buf sz_vol b_vol n_fat n_root) Q"
  unfolding mkfs_commit_def using one_sector [OF assms(1,3)]
  by (auto simp: wp_simps intro!: mkfs_write_wp [OF assms(1-3)] create_partition_wp Q)

lemma mkfs_drive_wp:
  assumes "sz_buf \<noteq> 0" "unat (sz_buf * 512) = unat sz_buf * 512" "unat sz_buf * 512 \<le> length b"
    and Q: "\<And>r d'. Q (r, d')"
  shows "wp (mkfs_drive d opt b sz_buf) Q"
proof (cases "mkfs_params opt")
  case (fields sz_blk fsopt n_fat n_root sz_au)
  obtain bv sv where p: "mkfs_place fsopt 128 = (bv, sv)" by fastforce
  show ?thesis
    unfolding mkfs_drive_def disk_ioctl_def fields
    by (auto simp: wp_simps Let_def p intro!: mkfs_layout_wp mkfs_commit_wp [OF assms(1-3)] Q)
qed

lemma f_mkfs_wp:
  assumes "sys_ok sy" "\<And>p. path = Some p \<Longrightarrow> cstring p" "\<And>b. work = Some b \<Longrightarrow> unat len \<le> length b"
    and Q: "\<And>r sy'. sys_ok sy' \<Longrightarrow> Q (r, sy')"
  shows "wp (f_mkfs sy path opt work len) Q"
proof -
  have l: "unat (len div 512) * 512 \<le> unat len"
    using div_times_less_eq_dividend [of "unat len" 512] by (simp add: unat_div)
  then have l1: "unat (len div 512 * 512) = unat (len div 512) * 512"
    using unat_32_less [of len] by (subst unat_word_ariths(2)) (simp del: unat_32_less)
  have fits: "unat (len div 512) * 512 \<le> length b" if "work = Some b" for b
    using l assms(3) [OF that] by (rule le_trans)
  have dr: "wp (mkfs_drive d opt b (len div 512)) R" if "work = Some b" "len div 512 \<noteq> 0" "\<And>x. R x" for d opt b R
    by (rule mkfs_drive_wp [OF that(2) l1 fits [OF that(1)]]) (rule that(3))
  show ?thesis
    unfolding f_mkfs_def Let_def
    by (cases "FatFs sy") (auto simp: wp_simps mkfs_unmount [OF assms(1)] sys_ok_disk [OF assms(1)] assms(1) split: option.split
        intro!: get_ldnumber_wp assms(2) dr Q)
qed

end
