(* ===== verification/FF_Api.thy ===== *)
theory FF_Api
  imports FF_DirOps FF_MkfsOps
begin

text \<open>
  The module as a state machine: a client with its file and directory objects calls the API in
  any order.  The theory shows that every call allowed in a reachable state returns, makes no
  access outside a buffer, and leads to a state with the invariant again.
\<close>

section \<open>Client and calls\<close>

record world =
  wsys :: sys
  files :: "nat \<Rightarrow> FIL"
  dirs :: "nat \<Rightarrow> DIR"

text \<open>The calls of the API; files and directories are named by the number of their object.\<close>

datatype call =
    Mount fsptr "buffer option" BYTE
  | Mkfs "buffer option" "MKFS_PARM option" "buffer option" UINT
  | Open nat "buffer option" BYTE
  | Read nat buffer UINT
  | Write nat buffer UINT
  | Sync nat
  | Close nat
  | Lseek nat FSIZE_t
  | Truncate nat
  | Opendir nat "buffer option"
  | Readdir nat "FILINFO option"
  | Closedir nat
  | Stat "buffer option" "FILINFO option"
  | Getfree "buffer option"
  | Unlink "buffer option"
  | Mkdir "buffer option"
  | Rename "buffer option" buffer

definition set_file :: "world \<Rightarrow> nat \<Rightarrow> FIL \<Rightarrow> sys \<Rightarrow> world" where
  "set_file w h fp sy = w\<lparr>wsys := sy, files := (files w)(h := fp)\<rparr>"

definition set_dir :: "world \<Rightarrow> nat \<Rightarrow> DIR \<Rightarrow> sys \<Rightarrow> world" where
  "set_dir w h dp sy = w\<lparr>wsys := sy, dirs := (dirs w)(h := dp)\<rparr>"

text \<open>One call: its result and the world after it.  \<open>sc\<close> is the signedness of \<open>char\<close>.\<close>

fun do_call :: "bool \<Rightarrow> world \<Rightarrow> call \<Rightarrow> (FRESULT \<times> world) option" where
  "do_call sc w (Mount fs path opt) = do {
     (r, sy) \<leftarrow> f_mount (wsys w) fs path opt; Some (r, w\<lparr>wsys := sy\<rparr>) }"
| "do_call sc w (Mkfs path opt work len) = do {
     (r, sy) \<leftarrow> f_mkfs (wsys w) path opt work len; Some (r, w\<lparr>wsys := sy\<rparr>) }"
| "do_call sc w (Open h path mode) = do {
     (r, fp, sy) \<leftarrow> f_open_obj sc (wsys w) (files w h) path mode; Some (r, set_file w h fp sy) }"
| "do_call sc w (Read h buff btr) = do {
     (r, fp, buff, br, sy) \<leftarrow> f_read (wsys w) (files w h) buff btr; Some (r, set_file w h fp sy) }"
| "do_call sc w (Write h buff btw) = do {
     (r, fp, bw, sy) \<leftarrow> f_write (wsys w) (files w h) buff btw; Some (r, set_file w h fp sy) }"
| "do_call sc w (Sync h) = do {
     (r, fp, sy) \<leftarrow> f_sync (wsys w) (files w h); Some (r, set_file w h fp sy) }"
| "do_call sc w (Close h) = do {
     (r, fp, sy) \<leftarrow> f_close (wsys w) (files w h); Some (r, set_file w h fp sy) }"
| "do_call sc w (Lseek h ofs) = do {
     (r, fp, sy) \<leftarrow> f_lseek (wsys w) (files w h) ofs; Some (r, set_file w h fp sy) }"
| "do_call sc w (Truncate h) = do {
     (r, fp, sy) \<leftarrow> f_truncate (wsys w) (files w h); Some (r, set_file w h fp sy) }"
| "do_call sc w (Opendir h path) = do {
     (r, dp, sy) \<leftarrow> f_opendir_obj sc (wsys w) (dirs w h) path; Some (r, set_dir w h dp sy) }"
| "do_call sc w (Readdir h fno) = do {
     (r, dp, fno, sy) \<leftarrow> f_readdir (wsys w) (dirs w h) fno; Some (r, set_dir w h dp sy) }"
| "do_call sc w (Closedir h) =
     (case f_closedir (wsys w) (dirs w h) of (r, dp) \<Rightarrow> Some (r, set_dir w h dp (wsys w)))"
| "do_call sc w (Stat path fno) = do {
     (r, fno, sy) \<leftarrow> f_stat sc (wsys w) path fno; Some (r, w\<lparr>wsys := sy\<rparr>) }"
| "do_call sc w (Getfree path) = do {
     (r, n, fs, sy) \<leftarrow> f_getfree (wsys w) path; Some (r, w\<lparr>wsys := sy\<rparr>) }"
| "do_call sc w (Unlink path) = do {
     (r, sy) \<leftarrow> f_unlink sc (wsys w) path; Some (r, w\<lparr>wsys := sy\<rparr>) }"
| "do_call sc w (Mkdir path) = do {
     (r, sy) \<leftarrow> f_mkdir sc (wsys w) path; Some (r, w\<lparr>wsys := sy\<rparr>) }"
| "do_call sc w (Rename path new) = do {
     (r, sy) \<leftarrow> f_rename sc (wsys w) path (Some new); Some (r, w\<lparr>wsys := sy\<rparr>) }"

section \<open>What a client may do\<close>

text \<open>The obligations of the caller in C: paths are terminated strings, a buffer is as long as
  its size argument says, and the name member of a \<open>FILINFO\<close> has its 13 bytes.  The last
  condition excludes the volumes whose second FAT wraps around, for the calls that free
  clusters.\<close>

definition path_ok :: "buffer option \<Rightarrow> bool" where
  "path_ok path = (case path of None \<Rightarrow> True | Some p \<Rightarrow> cstring p)"

definition info_ok :: "FILINFO option \<Rightarrow> bool" where
  "info_ok fno = (case fno of None \<Rightarrow> True | Some f \<Rightarrow> length (fname f) = 13)"

definition buf_ok :: "buffer option \<Rightarrow> UINT \<Rightarrow> bool" where
  "buf_ok b n = (case b of None \<Rightarrow> True | Some b \<Rightarrow> unat n \<le> length b)"

fun call_ok :: "world \<Rightarrow> call \<Rightarrow> bool" where
  "call_ok w (Mount fs path opt) = path_ok path"
| "call_ok w (Mkfs path opt work len) = (path_ok path \<and> buf_ok work len)"
| "call_ok w (Open h path mode) = (path_ok path \<and> (mode AND FA_NEW \<noteq> 0 \<longrightarrow> fat_safe (wsys w) path (mode AND FA_OPEN_MASK)))"
| "call_ok w (Read h buff btr) = (unat btr \<le> length buff)"
| "call_ok w (Write h buff btw) = (unat btw \<le> length buff)"
| "call_ok w (Truncate h) =
     (case ofs_ptr (fobj (files w h)) of None \<Rightarrow> True | Some a \<Rightarrow> mirror_ok (objs (wsys w) a))"
| "call_ok w (Opendir h path) = path_ok path"
| "call_ok w (Readdir h fno) = info_ok fno"
| "call_ok w (Stat path fno) = (path_ok path \<and> info_ok fno)"
| "call_ok w (Getfree path) = path_ok path"
| "call_ok w (Unlink path) = (path_ok path \<and> fat_safe (wsys w) path FA_WRITE)"
| "call_ok w (Mkdir path) = (path_ok path \<and> fat_safe (wsys w) path FA_WRITE)"
| "call_ok w (Rename path new) = (path_ok path \<and> cstring new)"
| "call_ok w c = True"

section \<open>The step relation\<close>

inductive api_step :: "bool \<Rightarrow> world \<Rightarrow> call \<Rightarrow> FRESULT \<Rightarrow> world \<Rightarrow> bool" for sc where
  api_stepI: "call_ok w c \<Longrightarrow> do_call sc w c = Some (r, w') \<Longrightarrow> api_step sc w c r w'"

inductive_simps api_step_iff: "api_step sc w c r w'"

text \<open>Before the first call no volume is registered, and no object is open; the device holds
  arbitrary bytes.\<close>

definition init_world :: "world \<Rightarrow> bool" where
  "init_world w \<longleftrightarrow> FatFs (wsys w) = None \<and>
     (\<forall>a. fs_type (objs (wsys w) a) = 0 \<and> length (win (objs (wsys w) a)) = 512) \<and>
     (\<forall>h. ofs_ptr (fobj (files w h)) = None) \<and>
     (\<forall>h. ofs_ptr (dobj (dirs w h)) = None \<and> length (fn (dirs w h)) = 12)"

inductive reach :: "bool \<Rightarrow> world \<Rightarrow> bool" for sc where
  reach_init: "init_world w \<Longrightarrow> reach sc w"
| reach_step: "reach sc w \<Longrightarrow> api_step sc w c r w' \<Longrightarrow> reach sc w'"

text \<open>A world before the first call, with a blank device.\<close>

definition blank_FATFS :: FATFS where
  "blank_FATFS =
     \<lparr>fs_type = 0, pdrv = 0, n_fats = 0, wflag = 0, fsi_flag = 0, fs_id = 0, n_rootdir = 0, csize = 0,
      last_clst = 0, free_clst = 0, n_fatent = 0, fsize = 0, volbase = 0, fatbase = 0, dirbase = 0,
      database = 0, winsect = 0, win = replicate 512 0\<rparr>"

definition blank_FIL :: FIL where
  "blank_FIL =
     \<lparr>fobj = \<lparr>ofs_ptr = None, oid = 0, attr = 0, stat = 0, sclust = 0, objsize = 0\<rparr>,
      fflag = 0, ferr = FR_OK, fptr = 0, fclust = 0, fsect = 0, dir_sect = 0, dir_ptr = 0\<rparr>"

definition world_of :: "disk \<Rightarrow> world" where
  "world_of d =
     \<lparr>wsys = \<lparr>FatFs = None, Fsid = 0, objs = (\<lambda>_. blank_FATFS), sdisk = d\<rparr>,
      files = (\<lambda>_. blank_FIL),
      dirs = (\<lambda>_. (blank_DIR 0)\<lparr>dobj := (dobj (blank_DIR 0))\<lparr>ofs_ptr := None\<rparr>\<rparr>)\<rparr>"

lemma init_world_of: "init_world (world_of d)"
  by (simp add: init_world_def world_of_def blank_FATFS_def blank_FIL_def blank_DIR_def)

section \<open>The invariant\<close>

definition world_ok :: "world \<Rightarrow> bool" where
  "world_ok w \<longleftrightarrow> sys_ok (wsys w) \<and>
     (\<forall>h. ofs_ptr (fobj (files w h)) \<noteq> None \<longrightarrow> fok (files w h)) \<and>
     (\<forall>h. length (fn (dirs w h)) = 12 \<and> (ofs_ptr (dobj (dirs w h)) \<noteq> None \<longrightarrow> dok (dirs w h)))"

lemma world_ok_sys: "world_ok w \<Longrightarrow> sys_ok sy \<Longrightarrow> world_ok (w\<lparr>wsys := sy\<rparr>)"
  by (simp add: world_ok_def)

lemma world_ok_file:
  "world_ok w \<Longrightarrow> sys_ok sy \<Longrightarrow> ofs_ptr (fobj fp) \<noteq> None \<longrightarrow> fok fp \<Longrightarrow> world_ok (set_file w h fp sy)"
  by (auto simp: world_ok_def set_file_def)

lemma world_ok_dir:
  "world_ok w \<Longrightarrow> sys_ok sy \<Longrightarrow> length (fn dp) = 12 \<Longrightarrow> ofs_ptr (dobj dp) \<noteq> None \<longrightarrow> dok dp \<Longrightarrow>
     world_ok (set_dir w h dp sy)"
  by (auto simp: world_ok_def set_dir_def)

lemma validate_closed: "ofs_ptr obj = None \<Longrightarrow> validate sy obj = (FR_INVALID_OBJECT, None)"
  by (simp add: validate_def)

lemma closed_file:
  assumes "ofs_ptr (fobj fp) = None"
  shows "f_sync sy fp = Some (FR_INVALID_OBJECT, fp, sy)" "f_close sy fp = Some (FR_INVALID_OBJECT, fp, sy)"
    "f_lseek sy fp ofs = Some (FR_INVALID_OBJECT, fp, sy)" "f_truncate sy fp = Some (FR_INVALID_OBJECT, fp, sy)"
  by (simp_all add: f_sync_def f_close_def f_lseek_def f_truncate_def validate_closed [OF assms])

lemma closed_dir:
  assumes "ofs_ptr (dobj dp) = None"
  shows "f_readdir sy dp fno = Some (FR_INVALID_OBJECT, dp, fno, sy)"
  by (simp add: f_readdir_def validate_closed [OF assms])

text \<open>Each call on a file object keeps the invariant.\<close>

lemma file_calls:
  assumes "world_ok w"
  shows "wp (f_sync (wsys w) (files w h)) (\<lambda>(r, fp, sy). world_ok (set_file w h fp sy))"
    "wp (f_close (wsys w) (files w h)) (\<lambda>(r, fp, sy). world_ok (set_file w h fp sy))"
    "wp (f_lseek (wsys w) (files w h) ofs) (\<lambda>(r, fp, sy). world_ok (set_file w h fp sy))"
    "call_ok w (Truncate h) \<Longrightarrow> wp (f_truncate (wsys w) (files w h)) (\<lambda>(r, fp, sy). world_ok (set_file w h fp sy))"
proof -
  have s: "sys_ok (wsys w)" using assms by (simp add: world_ok_def)
  have "wp (f_sync (wsys w) (files w h)) (\<lambda>(r, fp, sy). world_ok (set_file w h fp sy)) \<and>
    wp (f_close (wsys w) (files w h)) (\<lambda>(r, fp, sy). world_ok (set_file w h fp sy)) \<and>
    wp (f_lseek (wsys w) (files w h) ofs) (\<lambda>(r, fp, sy). world_ok (set_file w h fp sy)) \<and>
    (call_ok w (Truncate h) \<longrightarrow> wp (f_truncate (wsys w) (files w h)) (\<lambda>(r, fp, sy). world_ok (set_file w h fp sy)))"
  proof (cases "ofs_ptr (fobj (files w h)) = None")
    case True
    then show ?thesis using assms s by (auto simp: closed_file intro!: world_ok_file)
  next
    case False
    then have f: "fok (files w h)" using assms by (simp add: world_ok_def)
    show ?thesis
      using s f by (auto simp: fok_def intro!: f_sync_wp f_close_wp f_lseek_wp f_truncate_wp world_ok_file assms dest: flag_onlyD)
  qed
  then show "wp (f_sync (wsys w) (files w h)) (\<lambda>(r, fp, sy). world_ok (set_file w h fp sy))"
    "wp (f_close (wsys w) (files w h)) (\<lambda>(r, fp, sy). world_ok (set_file w h fp sy))"
    "wp (f_lseek (wsys w) (files w h) ofs) (\<lambda>(r, fp, sy). world_ok (set_file w h fp sy))"
    "call_ok w (Truncate h) \<Longrightarrow> wp (f_truncate (wsys w) (files w h)) (\<lambda>(r, fp, sy). world_ok (set_file w h fp sy))"
    by simp_all
qed

lemma rw_calls:
  assumes "world_ok w"
  shows "unat n \<le> length b \<Longrightarrow> wp (f_read (wsys w) (files w h) b n) (\<lambda>(r, fp, b', k, sy). world_ok (set_file w h fp sy))"
    "unat n \<le> length b \<Longrightarrow> wp (f_write (wsys w) (files w h) b n) (\<lambda>(r, fp, k, sy). world_ok (set_file w h fp sy))"
proof -
  have s: "sys_ok (wsys w)" and f: "ofs_ptr (fobj (files w h)) \<noteq> None \<longrightarrow> fok (files w h)"
    using assms by (simp_all add: world_ok_def)
  show "unat n \<le> length b \<Longrightarrow> wp (f_read (wsys w) (files w h) b n) (\<lambda>(r, fp, b', k, sy). world_ok (set_file w h fp sy))"
    using s f by (auto simp: fsame_def fok_def intro!: f_read_wp world_ok_file assms)
  show "unat n \<le> length b \<Longrightarrow> wp (f_write (wsys w) (files w h) b n) (\<lambda>(r, fp, k, sy). world_ok (set_file w h fp sy))"
    using s f by (auto simp: wsame_def fok_def intro!: f_write_wp world_ok_file assms)
qed

lemma dir_calls:
  assumes "world_ok w"
  shows "path_ok path \<Longrightarrow> wp (f_opendir_obj sc (wsys w) (dirs w h) path) (\<lambda>(r, dp, sy). world_ok (set_dir w h dp sy))"
    "info_ok fno \<Longrightarrow> wp (f_readdir (wsys w) (dirs w h) fno) (\<lambda>(r, dp, fno', sy). world_ok (set_dir w h dp sy))"
    "f_closedir (wsys w) (dirs w h) = (r, dp) \<Longrightarrow> world_ok (set_dir w h dp (wsys w))"
proof -
  have s: "sys_ok (wsys w)" and l: "length (fn (dirs w h)) = 12"
    and d: "ofs_ptr (dobj (dirs w h)) \<noteq> None \<longrightarrow> dok (dirs w h)"
    using assms by (simp_all add: world_ok_def)
  show "path_ok path \<Longrightarrow> wp (f_opendir_obj sc (wsys w) (dirs w h) path) (\<lambda>(r, dp, sy). world_ok (set_dir w h dp sy))"
    using s l by (auto simp: path_ok_def split: option.splits intro!: f_opendir_obj_wp world_ok_dir assms)
  show "wp (f_readdir (wsys w) (dirs w h) fno) (\<lambda>(r, dp, fno', sy). world_ok (set_dir w h dp sy))" if "info_ok fno"
  proof (cases "ofs_ptr (dobj (dirs w h)) = None")
    case True
    then show ?thesis using s l by (auto simp: closed_dir intro!: world_ok_dir assms)
  next
    case False
    then have "dok (dirs w h)" using d by simp
    then show ?thesis using s that
      by (auto simp: info_ok_def dok_def split: option.splits intro!: f_readdir_wp world_ok_dir assms)
  qed
  show "world_ok (set_dir w h dp (wsys w))" if "f_closedir (wsys w) (dirs w h) = (r, dp)"
    using f_closedir_ok [OF that] s l d by (cases "r = FR_OK") (auto intro!: world_ok_dir assms)
qed

theorem do_call_wp:
  assumes "world_ok w" "call_ok w c"
  shows "wp (do_call sc w c) (\<lambda>(r, w'). world_ok w')"
proof -
  have s: "sys_ok (wsys w)" using assms(1) by (simp add: world_ok_def)
  note ws = world_ok_sys [OF assms(1)]
  note opt = path_ok_def info_ok_def buf_ok_def
  show ?thesis
  proof (cases c)
    case (Open h path mode)
    then show ?thesis using assms(2) s
      by (auto simp: wp_simps path_ok_def split: option.splits intro!: f_open_obj_wp world_ok_file assms(1))
  next
    case (Closedir h)
    then show ?thesis using dir_calls(3) [OF assms(1)] by (auto simp: wp_simps split: prod.split)
  next
    case (Read h b n)
    then show ?thesis using rw_calls(1) [OF assms(1)] assms(2) by (auto simp: wp_simps)
  next
    case (Write h b n)
    then show ?thesis using rw_calls(2) [OF assms(1)] assms(2) by (auto simp: wp_simps)
  next
    case (Sync h)
    then show ?thesis using file_calls(1) [OF assms(1)] by (auto simp: wp_simps)
  next
    case (Close h)
    then show ?thesis using file_calls(2) [OF assms(1)] by (auto simp: wp_simps)
  next
    case (Lseek h ofs)
    then show ?thesis using file_calls(3) [OF assms(1)] by (auto simp: wp_simps)
  next
    case (Truncate h)
    then show ?thesis using file_calls(4) [OF assms(1)] assms(2) by (auto simp: wp_simps)
  next
    case (Opendir h path)
    then show ?thesis using dir_calls(1) [OF assms(1)] assms(2) by (auto simp: wp_simps)
  next
    case (Readdir h fno)
    then show ?thesis using dir_calls(2) [OF assms(1)] assms(2) by (auto simp: wp_simps)
  next
    case (Rename path new)
    then show ?thesis using assms(2) s
      by (auto simp: wp_simps path_ok_def split: option.splits intro!: f_rename_wp ws)
  qed (use assms(2) s in \<open>auto simp: wp_simps opt split: option.splits
         intro!: f_mount_wp f_mkfs_wp f_stat_wp f_getfree_wp f_unlink_wp f_mkdir_wp ws\<close>)
qed

lemma reach_world_ok: "reach sc w \<Longrightarrow> world_ok w"
proof (induction rule: reach.induct)
  case (reach_init w)
  then show ?case by (simp add: init_world_def world_ok_def sys_ok_def)
next
  case (reach_step w c r w')
  then show ?case using do_call_wp [of w c sc] by (auto simp: api_step_iff wp_def)
qed

section \<open>What the calls keep\<close>

text \<open>No call but \<open>f_mount\<close> and \<open>f_mkfs\<close> changes the registered object or the geometry of a mounted volume.\<close>

fun remounts :: "call \<Rightarrow> bool" where
  "remounts (Mount fs path opt) = True"
| "remounts (Mkfs path opt work len) = True"
| "remounts c = False"

lemma wsys_set [simp]: "wsys (set_file w h fp sy) = sy" "wsys (set_dir w h dp sy) = sy"
  by (simp_all add: set_file_def set_dir_def)

lemma file_calls_keep:
  assumes "world_ok w"
  shows "wp (f_sync (wsys w) (files w h)) (\<lambda>(r, fp, sy). keeps (wsys w) sy)"
    "wp (f_close (wsys w) (files w h)) (\<lambda>(r, fp, sy). keeps (wsys w) sy)"
    "wp (f_lseek (wsys w) (files w h) ofs) (\<lambda>(r, fp, sy). keeps (wsys w) sy)"
    "call_ok w (Truncate h) \<Longrightarrow> wp (f_truncate (wsys w) (files w h)) (\<lambda>(r, fp, sy). keeps (wsys w) sy)"
proof -
  have s: "sys_ok (wsys w)" and f: "ofs_ptr (fobj (files w h)) \<noteq> None \<longrightarrow> fok (files w h)"
    using assms by (simp_all add: world_ok_def)
  show "wp (f_sync (wsys w) (files w h)) (\<lambda>(r, fp, sy). keeps (wsys w) sy)"
    "wp (f_close (wsys w) (files w h)) (\<lambda>(r, fp, sy). keeps (wsys w) sy)"
    "wp (f_lseek (wsys w) (files w h) ofs) (\<lambda>(r, fp, sy). keeps (wsys w) sy)"
    using s f by (cases "ofs_ptr (fobj (files w h))"; auto simp: closed_file intro!: f_sync_wp f_close_wp f_lseek_wp)+
  show "wp (f_truncate (wsys w) (files w h)) (\<lambda>(r, fp, sy). keeps (wsys w) sy)" if "call_ok w (Truncate h)"
    using s f that by (cases "ofs_ptr (fobj (files w h))") (auto simp: closed_file intro!: f_truncate_wp)
qed

lemma do_call_keeps:
  assumes "world_ok w" "call_ok w c" "\<not> remounts c"
  shows "wp (do_call sc w c) (\<lambda>(r, w'). keeps (wsys w) (wsys w'))"
proof -
  have s: "sys_ok (wsys w)" and l: "\<And>h. length (fn (dirs w h)) = 12"
    and d: "\<And>h. ofs_ptr (dobj (dirs w h)) \<noteq> None \<longrightarrow> dok (dirs w h)"
    using assms(1) by (simp_all add: world_ok_def)
  note fc = file_calls_keep [OF assms(1)]
  note opt = path_ok_def info_ok_def buf_ok_def
  show ?thesis
  proof (cases c)
    case (Readdir h fno)
    then show ?thesis using assms(2) s d [of h]
      by (cases "ofs_ptr (dobj (dirs w h))") (auto simp: wp_simps closed_dir opt split: option.splits intro!: f_readdir_wp)
  next
    case (Truncate h)
    then show ?thesis using fc(4) [of h] assms(2) by (auto simp: wp_simps)
  next
    case (Sync h)
    then show ?thesis using fc(1) by (auto simp: wp_simps)
  next
    case (Close h)
    then show ?thesis using fc(2) by (auto simp: wp_simps)
  next
    case (Lseek h ofs)
    then show ?thesis using fc(3) by (auto simp: wp_simps)
  qed (use assms(2,3) s l in \<open>auto simp: wp_simps opt split: option.splits prod.split
         intro!: f_open_obj_wp f_read_wp f_write_wp f_opendir_obj_wp f_stat_wp f_getfree_wp f_unlink_wp f_mkdir_wp f_rename_wp\<close>)
qed

end
