(* ===== verification/FF_FatSpec.thy ===== *)
theory FF_FatSpec
  imports FF_Chain
begin

text \<open>
  The allocation table as an abstract map from clusters to entries.  The locale \<open>fat_table\<close> is
  what the code above \<open>get_fat\<close> and \<open>put_fat\<close> relies on, interpreted on these two functions; the
  predicate \<open>chain\<close> is the meaning of the entries as lists of clusters.
\<close>

section \<open>The interface of the table\<close>

locale fat_table =
  fixes inv :: "'s \<Rightarrow> bool" and lim :: "'s \<Rightarrow> DWORD" and width :: "'s \<Rightarrow> DWORD"
    and entry :: "'s \<Rightarrow> DWORD \<Rightarrow> DWORD" and rest :: "'s \<Rightarrow> 'r"
    and get :: "'s \<Rightarrow> DWORD \<Rightarrow> (DWORD \<times> 's) option"
    and put :: "'s \<Rightarrow> DWORD \<Rightarrow> DWORD \<Rightarrow> (FRESULT \<times> 's) option"
  assumes get_law: "inv s \<Longrightarrow> wp (get s c) (\<lambda>(v, s').
      v = (if 2 \<le> c \<and> c < lim s then entry s c else 1) \<and>
      inv s' \<and> rest s' = rest s \<and> (\<forall>c < lim s. entry s' c = entry s c))"
    and put_law: "inv s \<Longrightarrow> 2 \<le> c \<Longrightarrow> c < lim s \<Longrightarrow> wp (put s c v) (\<lambda>(r, s').
      r = FR_OK \<and> inv s' \<and> rest s' = rest s \<and>
      (\<forall>c' < lim s. entry s' c' = (if c' = c then v AND width s else entry s c')))"
    and rest_lim: "rest s' = rest s \<Longrightarrow> lim s' = lim s \<and> width s' = width s"
begin

lemma get_rule:
  assumes "inv s"
    and "\<And>s'. \<lbrakk>inv s'; rest s' = rest s; lim s' = lim s; width s' = width s; \<forall>c < lim s. entry s' c = entry s c\<rbrakk> \<Longrightarrow>
           Q (if 2 \<le> c \<and> c < lim s then entry s c else 1, s')"
  shows "wp (get s c) Q"
  using get_law [OF assms(1), of c] by (rule wp_mono) (auto intro!: assms(2) dest: rest_lim)

lemma put_rule:
  assumes "inv s" "2 \<le> c" "c < lim s"
    and "\<And>s'. \<lbrakk>inv s'; rest s' = rest s; lim s' = lim s; width s' = width s;
           \<forall>c' < lim s. entry s' c' = (if c' = c then v AND width s else entry s c')\<rbrakk> \<Longrightarrow> Q (FR_OK, s')"
  shows "wp (put s c v) Q"
  using put_law [OF assms(1-3), of v] by (rule wp_mono) (auto intro!: assms(4) dest: rest_lim)

lemma get_put:
  assumes "inv s" "2 \<le> c" "c < lim s" "2 \<le> c'" "c' < lim s"
  shows "\<exists>s1 s2. put s c v = Some (FR_OK, s1) \<and>
    get s1 c' = Some (if c' = c then v AND width s else entry s c', s2)"
proof -
  have "wp (put s c v) (\<lambda>(r, s1). r = FR_OK \<and>
      wp (get s1 c') (\<lambda>(w, s2). w = (if c' = c then v AND width s else entry s c')))"
    using assms by (auto intro!: put_rule get_rule)
  then show ?thesis by (auto simp: wp_def)
qed

lemma put_put:
  assumes "inv s" "2 \<le> c" "c < lim s" "2 \<le> d" "d < lim s" "c \<noteq> d" "e < lim s"
  shows "\<exists>s1 s2 t1 t2. put s c v = Some (FR_OK, s1) \<and> put s1 d w = Some (FR_OK, s2) \<and>
    put s d w = Some (FR_OK, t1) \<and> put t1 c v = Some (FR_OK, t2) \<and> entry s2 e = entry t2 e"
proof -
  have "wp (put s c v) (\<lambda>(r, s1). r = FR_OK \<and> wp (put s1 d w) (\<lambda>(r, s2). r = FR_OK \<and>
      wp (put s d w) (\<lambda>(r, t1). r = FR_OK \<and> wp (put t1 c v) (\<lambda>(r, t2). r = FR_OK \<and> entry s2 e = entry t2 e))))"
    using assms by (auto intro!: put_rule)
  then show ?thesis by (auto simp: wp_def)
qed

end

section \<open>The table of a volume on the device\<close>

definition fat_inv :: "vol \<Rightarrow> bool" where
  "fat_inv s \<longleftrightarrow> vok s \<and> gok s \<and> fat_on_disk s \<and> wr s"

text \<open>The members of the filesystem object that an access to the table keeps.\<close>

definition fat_rest :: "vol \<Rightarrow> _" where
  "fat_rest s = (geo s, last_clst s, free_clst s, fsi_flag s)"

definition fat_width :: "'a FATFS_scheme \<Rightarrow> DWORD" where
  "fat_width s = entry_mask (fs_type s)"

lemma fat_inv_good: "fat_inv s \<Longrightarrow> good s s' \<Longrightarrow> wr s' \<Longrightarrow> fat_inv s'"
  by (simp add: fat_inv_def gok_good fat_on_disk_def goodD)

lemma fat_rest_good:
  "good s s' \<Longrightarrow> last_clst s' = last_clst s \<Longrightarrow> free_clst s' = free_clst s \<Longrightarrow> fsi_flag s' = fsi_flag s \<Longrightarrow>
     fat_rest s' = fat_rest s"
  by (simp add: fat_rest_def good_def)

lemma fat_invD: "fat_inv s \<Longrightarrow> vok s \<and> gok s \<and> mirror_ok s \<and> fat_on_disk s \<and> wr s"
  by (simp add: fat_inv_def fat_on_disk_mirror)

interpretation ft: fat_table fat_inv n_fatent fat_width fat_entry fat_rest get_fat put_fat
proof
  fix s c assume i: "fat_inv s"
  note iD = fat_invD [OF i]
  show "wp (get_fat s c) (\<lambda>(v, s').
      v = (if 2 \<le> c \<and> c < n_fatent s then fat_entry s c else 1) \<and>
      fat_inv s' \<and> fat_rest s' = fat_rest s \<and> (\<forall>c < n_fatent s. fat_entry s' c = fat_entry s c))"
  proof (rule get_fat_full)
    fix v s' assume s': "good s s'" "last_clst s' = last_clst s" "free_clst s' = free_clst s"
      "fsi_flag s' = fsi_flag s" "fkeep s s'"
      "v = fat_value s c \<and> (wr s \<and> fat_on_disk s \<longrightarrow> wr s') \<or>
       v = 0xFFFFFFFF \<and> \<not> (wr s \<and> fat_on_disk s)"
    have v: "v = (if 2 \<le> c \<and> c < n_fatent s then fat_entry s c else 1)" and w: "wr s'"
      using s'(6) iD by (auto simp: fat_value_def not_le not_less)
    show "case (v, s') of (v, s') \<Rightarrow>
      v = (if 2 \<le> c \<and> c < n_fatent s then fat_entry s c else 1) \<and>
      fat_inv s' \<and> fat_rest s' = fat_rest s \<and> (\<forall>c < n_fatent s. fat_entry s' c = fat_entry s c)"
      using v fat_inv_good [OF i s'(1) w] fat_rest_good [OF s'(1-4)] fat_entry_keep [OF s'(5,1)] iD
      by blast
  qed (use iD in blast)+
next
  fix s c v assume i: "fat_inv s" and c: "2 \<le> c" "c < n_fatent s"
  note iD = fat_invD [OF i]
  show "wp (put_fat s c v) (\<lambda>(r, s').
      r = FR_OK \<and> fat_inv s' \<and> fat_rest s' = fat_rest s \<and>
      (\<forall>c' < n_fatent s. fat_entry s' c' = (if c' = c then v AND fat_width s else fat_entry s c')))"
  proof (rule put_fat_full)
    fix r s' assume s': "good s s'" "last_clst s' = last_clst s" "free_clst s' = free_clst s"
      "fsi_flag s' = fsi_flag s" "r = FR_OK \<longrightarrow> 2 \<le> c \<and> c < n_fatent s \<and> put_rel s c v s'"
      "2 \<le> c \<and> c < n_fatent s \<and> wr s \<and> fat_on_disk s \<longrightarrow> r = FR_OK \<and> wr s'"
    have r: "r = FR_OK" "wr s'" "put_rel s c v s'" using s'(5,6) c iD by blast+
    show "case (r, s') of (r, s') \<Rightarrow>
      r = FR_OK \<and> fat_inv s' \<and> fat_rest s' = fat_rest s \<and>
      (\<forall>c' < n_fatent s. fat_entry s' c' = (if c' = c then v AND fat_width s else fat_entry s c'))"
      using r(1) fat_inv_good [OF i s'(1) r(2)] fat_rest_good [OF s'(1-4)]
        fat_entry_put [OF r(3) s'(1)] iD c by (simp add: fat_width_def)
  qed (use iD in blast)+
next
  fix s s' assume "fat_rest s' = fat_rest s"
  then show "n_fatent s' = n_fatent s \<and> fat_width s' = fat_width s"
    by (simp add: fat_rest_def geo_eq_iff fat_width_def)
qed

section \<open>Chains\<close>

text \<open>\<open>chain e n c cs\<close>: in the table \<open>e\<close> of \<open>n\<close> entries, the clusters \<open>cs\<close> are the chain that starts
  with cluster \<open>c\<close>; the last of them has an end mark (a value that is not a cluster).\<close>

fun chain :: "(DWORD \<Rightarrow> DWORD) \<Rightarrow> DWORD \<Rightarrow> DWORD \<Rightarrow> DWORD list \<Rightarrow> bool" where
  "chain e n c [] = False"
| "chain e n c (x # cs) =
     (x = c \<and> 2 \<le> c \<and> c < n \<and> (if cs = [] then n \<le> e c else chain e n (e c) cs))"

lemma chain_unique: "chain e n c cs \<Longrightarrow> chain e n c cs' \<Longrightarrow> cs = cs'"
proof (induction cs arbitrary: c cs')
  case (Cons x cs)
  then obtain y ys where cs': "cs' = y # ys" by (cases cs') auto
  with Cons.prems have xy: "x = c" "y = c" by simp_all
  show ?case
  proof (cases "cs = []")
    case True
    have False if "ys \<noteq> []"
      using that Cons.prems True cs' by (cases ys) (auto simp: not_less [symmetric])
    then show ?thesis using True cs' xy by auto
  next
    case False
    have False if "ys = []"
      using that Cons.prems False cs' by (cases cs) (auto simp: not_less [symmetric])
    then have "chain e n (e c) ys" using Cons.prems(2) cs' by (auto split: if_splits)
    then show ?thesis using Cons.IH [of "e c" ys] Cons.prems(1) False cs' xy by simp
  qed
qed simp

lemma chain_suffix: "chain e n c (as @ x # bs) \<Longrightarrow> chain e n x (x # bs)"
  by (induction as arbitrary: c) (auto split: if_splits)

lemma chain_distinct: "chain e n c cs \<Longrightarrow> distinct cs"
proof (induction cs arbitrary: c)
  case (Cons x cs)
  have "x \<notin> set cs"
  proof
    assume "x \<in> set cs"
    then obtain as bs where "cs = as @ x # bs" by (auto simp: in_set_conv_decomp)
    then have "chain e n c ((x # as) @ x # bs)" using Cons.prems by (simp only: append_Cons)
    with chain_suffix [OF this] show False
      using chain_unique [of e n c "(c # as) @ c # bs" "c # bs"] by auto
  qed
  then show ?case using Cons by (cases "cs = []") auto
qed simp

lemma chain_range: "chain e n c cs \<Longrightarrow> x \<in> set cs \<Longrightarrow> 2 \<le> x \<and> x < n"
  by (induction cs arbitrary: c) (auto split: if_splits)

lemma chain_cong: "(\<And>x. x \<in> set cs \<Longrightarrow> e' x = e x) \<Longrightarrow> chain e' n c cs = chain e n c cs"
  by (induction cs arbitrary: c) auto

lemma chain_nz: "chain e n c cs \<Longrightarrow> 2 \<le> n \<Longrightarrow> x \<in> set cs \<Longrightarrow> 2 \<le> e x"
proof (induction cs arbitrary: c)
  case (Cons y cs)
  then show ?case by (cases cs) (auto split: if_splits)
qed simp

text \<open>An entry has at most 28 bits: it is never the value that \<open>get_fat\<close> returns for an error.\<close>

lemma fat_entry_bits: "bit (fat_entry s c) k \<Longrightarrow> k < 28"
  unfolding fat_entry_def entry_of_def Let_def nibble_masks
  by (auto simp: bit_simps split: if_splits dest!: bit_imp_le_length)

lemma fat_entry_no_error [simp]: "fat_entry s c \<noteq> 0xFFFFFFFF"
proof
  assume "fat_entry s c = 0xFFFFFFFF"
  moreover have "bit (0xFFFFFFFF :: DWORD) 28" by simp
  ultimately show False using fat_entry_bits [of s c 28] by simp
qed

section \<open>The count of free clusters\<close>

definition free_set :: "vol \<Rightarrow> DWORD set" where
  "free_set s = {c. 2 \<le> c \<and> c < n_fatent s \<and> fat_entry s c = 0}"

text \<open>The member \<open>free_clst\<close> is the number of free clusters, or unknown.\<close>

definition free_ok :: "vol \<Rightarrow> bool" where
  "free_ok s \<longleftrightarrow> n_fatent s - 2 < free_clst s \<or> unat (free_clst s) = card (free_set s)"

lemma finite_free_set [simp]: "finite (free_set s)"
  by (rule finite_subset [OF subset_UNIV]) simp

lemma card_clusters: "2 \<le> n \<Longrightarrow> card {c :: DWORD. 2 \<le> c \<and> c < n} = unat n - 2"
proof -
  assume n: "2 \<le> n"
  have "bij_betw unat {c :: DWORD. 2 \<le> c \<and> c < n} {2 ..< unat n}"
  proof (rule bij_betw_imageI)
    show "unat ` {c :: DWORD. 2 \<le> c \<and> c < n} = {2 ..< unat n}"
    proof (intro equalityI subsetI)
      fix k assume k: "k \<in> {2 ..< unat n}"
      then have "k < 4294967296" using unat_32_less [of n] unfolding atLeastLessThan_iff by linarith
      then have "unat (of_nat k :: DWORD) = k" by (simp add: unat_of_nat)
      then show "k \<in> unat ` {c :: DWORD. 2 \<le> c \<and> c < n}"
        using k by (intro image_eqI [of _ _ "of_nat k"]) (simp_all add: word_le_nat_alt word_less_nat_alt)
    qed (auto simp: word_le_nat_alt word_less_nat_alt)
  qed (auto intro: inj_onI simp: word_unat_eq_iff)
  then show ?thesis by (simp add: bij_betw_same_card)
qed


lemma free_set_less:
  assumes "gok s" "2 \<le> c" "c < n_fatent s" "fat_entry s c \<noteq> 0"
  shows "card (free_set s) < unat (n_fatent s - 2)"
proof -
  have n: "2 \<le> n_fatent s" using assms(1) by (auto simp: gok_def word_le_nat_alt)
  have "free_set s \<subset> {c. 2 \<le> c \<and> c < n_fatent s}" using assms by (auto simp: free_set_def)
  then have "card (free_set s) < card {c. 2 \<le> c \<and> c < n_fatent s}"
    by (intro psubset_card_mono) (auto intro: finite_subset [OF subset_UNIV])
  then show ?thesis using n by (simp add: card_clusters unat_sub)
qed

text \<open>The bookkeeping of \<open>remove_chain\<close> and \<open>create_chain\<close>.\<close>

definition freed :: "vol \<Rightarrow> vol" where
  "freed s = (if free_clst s < n_fatent s - 2
              then s\<lparr>free_clst := free_clst s + 1, fsi_flag := fsi_flag s OR 1\<rparr> else s)"

definition taken :: "vol \<Rightarrow> vol" where
  "taken s = (if free_clst s > 0 \<and> free_clst s \<le> n_fatent s - 2
              then s\<lparr>free_clst := free_clst s - 1, fsi_flag := fsi_flag s OR 1\<rparr> else s)"

lemma fat_inv_upd [simp]:
  "fat_inv (s\<lparr>free_clst := f, fsi_flag := g\<rparr>) = fat_inv s" "fat_inv (s\<lparr>last_clst := l\<rparr>) = fat_inv s"
  by (simp_all add: fat_inv_def gok_def vok_def coh_def fat_on_disk_def wr_def)

lemma fat_entry_last [simp]: "fat_entry (s\<lparr>last_clst := l\<rparr>) = fat_entry s"
proof -
  have "fat_byte (s\<lparr>last_clst := l\<rparr>) = fat_byte s"
    by (rule ext) (simp add: fat_byte_def vbyte_def)
  then show ?thesis by (intro ext) (simp add: fat_entry_def)
qed

lemma freed_simps [simp]:
  "fat_inv (freed s) = fat_inv s" "fat_entry (freed s) = fat_entry s" "geo (freed s) = geo s"
  "last_clst (freed s) = last_clst s" "free_set (freed s) = free_set s" "n_fatent (freed s) = n_fatent s"
  by (simp_all add: freed_def geo_def free_set_def)

lemma taken_simps [simp]:
  "fat_inv (taken s) = fat_inv s" "fat_entry (taken s) = fat_entry s" "geo (taken s) = geo s"
  "last_clst (taken s) = last_clst s" "free_set (taken s) = free_set s" "n_fatent (taken s) = n_fatent s"
  by (simp_all add: taken_def geo_def free_set_def)

lemma free_ok_freed:
  assumes "free_ok s" "fat_inv s" "2 \<le> c" "c < n_fatent s" "fat_entry s c \<noteq> 0"
    and "fat_rest s' = fat_rest s" "\<forall>c' < n_fatent s. fat_entry s' c' = (if c' = c then 0 else fat_entry s c')"
  shows "free_ok (freed s')"
proof -
  have e: "n_fatent s' = n_fatent s" "free_clst s' = free_clst s"
    using assms(6) by (simp_all add: fat_rest_def geo_eq_iff)
  have fs: "free_set s' = insert c (free_set s)" "c \<notin> free_set s"
    using assms(3-5,7) by (auto simp: free_set_def e)
  have l: "card (free_set s) < unat (n_fatent s - 2)"
    using assms by (intro free_set_less) (simp_all add: fat_inv_def)
  show ?thesis
  proof (cases "n_fatent s - 2 < free_clst s")
    case True
    then have "\<not> free_clst s < n_fatent s - 2" by simp
    with True show ?thesis by (simp add: freed_def free_ok_def e)
  next
    case False
    then have u: "unat (free_clst s) = card (free_set s)" using assms(1) by (simp add: free_ok_def)
    then have "free_clst s < n_fatent s - 2" using l by (simp add: word_less_nat_alt)
    moreover from this have "unat (free_clst s + 1) = unat (free_clst s) + 1" by (rule unat_Suc_less)
    ultimately show ?thesis using u fs freed_simps(5) [of s'] by (auto simp: freed_def free_ok_def e)
  qed
qed

text \<open>\<open>frees s cs s'\<close>: the clusters \<open>cs\<close> are free in \<open>s'\<close>, all other entries are as in \<open>s\<close>, and the
  free count is still right.\<close>

definition frees :: "vol \<Rightarrow> DWORD list \<Rightarrow> vol \<Rightarrow> bool" where
  "frees s cs s' \<longleftrightarrow> fat_inv s' \<and> geo s' = geo s \<and> last_clst s' = last_clst s \<and>
     (free_ok s \<longrightarrow> free_ok s') \<and>
     (\<forall>d < n_fatent s. fat_entry s' d = (if d \<in> set cs then 0 else fat_entry s d))"

lemma geo_n_fatent: "geo s' = geo s \<Longrightarrow> n_fatent s' = n_fatent s"
  by (simp add: geo_def)

lemma frees_trans: "frees s as s1 \<Longrightarrow> frees s1 bs s2 \<Longrightarrow> frees s (as @ bs) s2"
  unfolding frees_def using geo_n_fatent [of s1 s] by (intro conjI) auto

lemma frees_one:
  assumes "fat_inv s" "2 \<le> c" "c < n_fatent s" "fat_entry s c \<noteq> 0"
    and "fat_inv s'" "fat_rest s' = fat_rest s"
    and "\<forall>c' < n_fatent s. fat_entry s' c' = (if c' = c then 0 else fat_entry s c')"
  shows "frees s [c] (freed s')"
proof -
  have "geo s' = geo s" "last_clst s' = last_clst s" using assms(6) by (simp_all add: fat_rest_def)
  then show ?thesis
    unfolding frees_def using free_ok_freed [OF _ assms(1-4,6,7)] assms(5,7) by simp
qed

text \<open>One turn of the loop of \<open>remove_chain\<close>.\<close>

lemma remove_chain_turn:
  assumes "fat_inv s" "2 \<le> c" "c < n_fatent s" "2 \<le> fat_entry s c"
    and "\<And>s'. frees s [c] s' \<Longrightarrow> wp (if fat_entry s c < n_fatent s then remove_chain_loop s' (fat_entry s c)
             else Some (FR_OK, s')) Q"
  shows "wp (remove_chain_loop s c) Q"
proof -
  have e0: "fat_entry s c \<noteq> 0" "fat_entry s c \<noteq> 1" using assms(4) by (auto simp: word_le_nat_alt)
  have put: "wp (put_fat s1 c 0) (\<lambda>(res, s2). wp (if res \<noteq> FR_OK then Some (res, s2)
        else if fat_entry s c < n_fatent (freed s2) then remove_chain_loop (freed s2) (fat_entry s c)
        else Some (FR_OK, freed s2)) Q)"
    if s1: "fat_inv s1" "fat_rest s1 = fat_rest s" "n_fatent s1 = n_fatent s"
      "\<forall>d < n_fatent s. fat_entry s1 d = fat_entry s d" for s1
  proof (rule ft.put_rule)
    fix s2 assume s2: "fat_inv s2" "fat_rest s2 = fat_rest s1" "n_fatent s2 = n_fatent s1"
      "\<forall>d < n_fatent s1. fat_entry s2 d = (if d = c then 0 AND fat_width s1 else fat_entry s1 d)"
    have "frees s [c] (freed s2)"
      using assms(1-3) e0(1) s2(1)
    proof (rule frees_one)
      show "fat_rest s2 = fat_rest s" using s1(2) s2(2) by simp
      show "\<forall>d < n_fatent s. fat_entry s2 d = (if d = c then 0 else fat_entry s d)"
        using s1(3,4) s2(4) by simp
    qed
    then show "case (FR_OK, s2) of (res, s2) \<Rightarrow> wp (if res \<noteq> FR_OK then Some (res, s2)
        else if fat_entry s c < n_fatent (freed s2) then remove_chain_loop (freed s2) (fat_entry s c)
        else Some (FR_OK, freed s2)) Q"
      using assms(5) s1(3) s2(3) by simp
  qed (use s1 assms in simp_all)
  show ?thesis
    apply (subst remove_chain_loop.simps, fold freed_def)
    apply (unfold wp_bind Let_def)
    apply (rule ft.get_rule [OF assms(1)])
    apply (simp only: prod.case assms(2,3) simp_thms if_True e0 if_False fat_entry_no_error wp_bind wp_case_prod)
    using put by simp
qed

lemma remove_chain_loop_exact:
  assumes "fat_inv s" "chain (fat_entry s) (n_fatent s) c cs"
  shows "wp (remove_chain_loop s c) (\<lambda>(r, s'). r = FR_OK \<and> frees s cs s')"
  using assms
proof (induction cs arbitrary: s c)
  case (Cons x cs)
  have n: "2 \<le> n_fatent s" using Cons.prems(1) by (auto simp: fat_inv_def gok_def word_le_nat_alt)
  have x: "x = c" "2 \<le> c" "c < n_fatent s" "c \<notin> set cs"
    using Cons.prems(2) chain_distinct [OF Cons.prems(2)] by auto
  have e2: "2 \<le> fat_entry s c" using chain_nz [OF Cons.prems(2) n, of c] x(1) by simp
  show ?case
  proof (rule remove_chain_turn [OF Cons.prems(1) x(2,3) e2])
    fix s1 assume s1: "frees s [c] s1"
    have s1': "fat_inv s1" "n_fatent s1 = n_fatent s" using s1 geo_n_fatent [of s1 s] by (auto simp: frees_def)
    show "wp (if fat_entry s c < n_fatent s then remove_chain_loop s1 (fat_entry s c)
        else Some (FR_OK, s1)) (\<lambda>(r, s'). r = FR_OK \<and> frees s (x # cs) s')"
    proof (cases "cs = []")
      case True
      then show ?thesis using Cons.prems(2) s1 x(1) by (simp add: not_less [symmetric])
    next
      case False
      then have c: "chain (fat_entry s) (n_fatent s) (fat_entry s c) cs" using Cons.prems(2) by simp
      then have lt: "fat_entry s c < n_fatent s" by (cases cs) auto
      have "fat_entry s1 d = fat_entry s d" if "d \<in> set cs" for d
        using s1 that x(4) chain_range [OF c that] by (auto simp: frees_def)
      then have "chain (fat_entry s1) (n_fatent s1) (fat_entry s c) cs"
        using c chain_cong [of cs "fat_entry s1" "fat_entry s"] s1'(2) by simp
      from Cons.IH [OF s1'(1) this] show ?thesis
        using lt frees_trans [OF s1] x(1) by (auto elim!: wp_mono)
    qed
  qed
qed simp

text \<open>\<open>remove_chain\<close>: frees the chain; with a preceding cluster \<open>p\<close>, it also becomes the last one.\<close>

lemma remove_chain_exact:
  assumes "fat_inv s" "chain (fat_entry s) (n_fatent s) c cs"
  shows "wp (remove_chain s c 0) (\<lambda>(r, s'). r = FR_OK \<and> frees s cs s')"
  using remove_chain_loop_exact [OF assms] assms(2)
  by (cases cs) (auto simp: remove_chain_def not_less)

section \<open>Allocation\<close>

text \<open>The clusters that the search has not seen yet when it started after \<open>scl\<close> and is at \<open>ncl\<close>.\<close>

definition unseen :: "DWORD \<Rightarrow> DWORD \<Rightarrow> DWORD set" where
  "unseen scl ncl = {c. if scl \<le> ncl then ncl < c \<or> c \<le> scl else ncl < c \<and> c \<le> scl}"

lemma unseen_start [simp]: "c \<in> unseen scl scl"
  by (auto simp: unseen_def)

text \<open>One turn of the search, and its two ways to end with nothing left.\<close>

lemma unseen_next:
  assumes "ncl < n" "scl < n" "n' = (if ncl + 1 \<ge> n then 2 else ncl + 1)"
    and "c \<in> unseen scl ncl" "c \<noteq> n'" "2 \<le> c" "c < n" "ncl + 1 \<ge> n \<longrightarrow> 2 \<le> scl"
  shows "n' \<noteq> scl \<and> c \<in> unseen scl n'"
  using assms by (auto simp: unseen_def word_less_nat_alt word_le_nat_alt unat_Suc_less [OF assms(1)] word_unat_eq_iff split: if_splits)

lemma unseen_wrapped:
  assumes "ncl < n" "n \<le> ncl + 1" "c \<in> unseen 1 ncl" "2 \<le> c" "c < n" "1 \<le> ncl"
  shows False
  using assms by (auto simp: unseen_def word_less_nat_alt word_le_nat_alt unat_Suc_less [OF assms(1)] word_unat_eq_iff split: if_splits)

fun found :: "vol \<Rightarrow> DWORD + DWORD \<Rightarrow> bool" where
  "found s (Inl v) = (v = 0 \<and> free_set s = {} \<or>
                      v = 1 \<and> (\<exists>c. 2 \<le> c \<and> c < n_fatent s \<and> fat_entry s c = 1))"
| "found s (Inr c) = (c \<in> free_set s)"

definition same_table :: "vol \<Rightarrow> vol \<Rightarrow> bool" where
  "same_table s s' \<longleftrightarrow> fat_inv s' \<and> fat_rest s' = fat_rest s \<and>
     (\<forall>c < n_fatent s. fat_entry s' c = fat_entry s c)"

lemma same_table_n: "same_table s s' \<Longrightarrow> n_fatent s' = n_fatent s"
  by (auto simp: same_table_def dest: ft.rest_lim)

lemma same_table_trans: "same_table s s1 \<Longrightarrow> same_table s1 s2 \<Longrightarrow> same_table s s2"
  using same_table_n [of s s1] by (simp add: same_table_def)

lemma same_table_free: "same_table s s' \<Longrightarrow> free_set s' = free_set s"
  using same_table_n [of s s'] by (auto simp: same_table_def free_set_def)

lemma same_table_found: "same_table s s' \<Longrightarrow> found s' r \<Longrightarrow> found s r"
  using same_table_n [of s s'] same_table_free [of s s']
  by (cases r) (auto simp: same_table_def)

lemma get_fat_same:
  assumes "fat_inv s" "\<And>s'. same_table s s' \<Longrightarrow>
     Q (if 2 \<le> c \<and> c < n_fatent s then fat_entry s c else 1, s')"
  shows "wp (get_fat s c) Q"
  by (rule ft.get_rule [OF assms(1)]) (simp add: assms(2) same_table_def)

lemma find_free_loop_exact:
  assumes "fat_inv s" "1 \<le> scl" "scl < n_fatent s" "1 \<le> ncl" "ncl < n_fatent s"
    and "free_set s \<subseteq> unseen scl ncl"
  shows "wp (find_free_loop s scl ncl) (\<lambda>(r, s'). same_table s s' \<and> found s r)"
  using assms
proof (induction "search_left (unat (n_fatent s)) (unat scl) (unat ncl)" arbitrary: s ncl
       rule: less_induct)
  case less
  define n' where "n' = (if ncl + 1 \<ge> n_fatent s then 2 else ncl + 1)"
  have n: "3 \<le> n_fatent s" using less.prems(1) by (auto simp: fat_inv_def gok_def word_le_nat_alt)
  have n': "2 \<le> n'" "n' < n_fatent s" "1 \<le> n'"
    using n less.prems(4) unat_Suc_less [OF less.prems(5)]
    by (auto simp: n'_def word_less_nat_alt word_le_nat_alt)
  have st: "same_table s s" using less.prems(1) by (simp add: same_table_def)
  have full: "free_set s = {}" if "ncl + 1 \<ge> n_fatent s" "scl < 2"
  proof -
    have "scl = 1" using less.prems(2) that(2) by (auto simp: word_le_nat_alt word_less_nat_alt word_unat_eq_iff)
    then show ?thesis
      using less.prems(6) unseen_wrapped [OF less.prems(5) that(1) _ _ _ less.prems(4)]
      by (auto simp: free_set_def)
  qed
  have rest: "free_set s \<subseteq> unseen scl n'" "n' = scl \<Longrightarrow> free_set s = {}"
    if h: "fat_entry s n' \<noteq> 0" "ncl + 1 \<ge> n_fatent s \<longrightarrow> 2 \<le> scl"
  proof -
    have "n' \<noteq> scl \<and> c \<in> unseen scl n'" if c: "c \<in> free_set s" for c
      using c less.prems(6) h
      by (intro unseen_next [OF less.prems(5,3) n'_def]) (auto simp: free_set_def)
    then show "free_set s \<subseteq> unseen scl n'" "n' = scl \<Longrightarrow> free_set s = {}" by auto
  qed
  have IH: "wp (find_free_loop s1 scl n') (\<lambda>(r, s'). same_table s s' \<and> found s r)"
    if s1: "same_table s s1" and c: "n' \<noteq> scl" "ncl + 1 \<ge> n_fatent s \<longrightarrow> 2 \<le> scl" "fat_entry s n' \<noteq> 0" for s1
  proof -
    note e = same_table_n [OF s1]
    have "wp (find_free_loop s1 scl n') (\<lambda>(r, s'). same_table s1 s' \<and> found s1 r)"
    proof (rule less.hyps)
      show "search_left (unat (n_fatent s1)) (unat scl) (unat n') < search_left (unat (n_fatent s)) (unat scl) (unat ncl)"
        unfolding e by (rule search_left_next [OF less.prems(5,3) n'_def c(1,2)])
      show "fat_inv s1" using s1 by (simp add: same_table_def)
    qed (use less.prems n' rest [OF c(3,2)] same_table_free [OF s1] e in simp_all)
    then show ?thesis
      by (rule wp_mono) (auto intro: same_table_trans [OF s1] same_table_found [OF s1])
  qed
  have get: "wp (get_fat s n') (\<lambda>(cs, s1). wp (if cs = 0 then Some (Inr n', s1)
       else if cs = 1 \<or> cs = 0xFFFFFFFF then Some (Inl cs, s1)
       else if n' = scl then Some (Inl 0, s1)
       else find_free_loop s1 scl n') (\<lambda>(r, s'). same_table s s' \<and> found s r))"
    if "ncl + 1 \<ge> n_fatent s \<longrightarrow> 2 \<le> scl"
    using n' rest that by (intro get_fat_same [OF less.prems(1)]) (auto simp: free_set_def intro: IH)
  show ?case
    using get full st
    by (subst find_free_loop.simps, unfold Let_def n'_def [symmetric])
      (auto simp: wp_bind wp_case_prod n'_def not_less)
qed

lemma create_chain_find_exact:
  assumes "fat_inv s" "1 \<le> scl" "scl < n_fatent s" "clst = scl \<longrightarrow> 2 \<le> clst"
  shows "wp (create_chain_find s clst scl) (\<lambda>(r, s'). same_table s s' \<and> found s r)"
proof -
  have loop: "wp (find_free_loop s1 l l) (\<lambda>(r, s'). same_table s s' \<and> found s r)"
    if "same_table s s1" "1 \<le> l" "l < n_fatent s" for s1 l
  proof -
    have "wp (find_free_loop s1 l l) (\<lambda>(r, s'). same_table s1 s' \<and> found s1 r)"
      using that same_table_n [OF that(1)]
      by (intro find_free_loop_exact) (auto simp: same_table_def)
    then show ?thesis
      by (rule wp_mono) (auto intro: same_table_trans [OF that(1)] same_table_found [OF that(1)])
  qed
  have st: "same_table s s" using assms(1) by (simp add: same_table_def)
  have n: "3 \<le> n_fatent s" using assms(1) by (auto simp: fat_inv_def gok_def word_le_nat_alt)
  define n' where "n' = (if scl + 1 \<ge> n_fatent s then 2 else scl + 1)"
  have n': "2 \<le> n'" "n' < n_fatent s" "n' \<noteq> 0"
    using n assms(2) unat_Suc_less [OF assms(3)]
    by (auto simp: n'_def word_less_nat_alt word_le_nat_alt)
  have ls: "last_clst s1 = last_clst s" if "same_table s s1" for s1
    using that by (simp add: same_table_def fat_rest_def)
  have get: "wp (get_fat s n') (\<lambda>(cs, s1). wp (if cs = 1 \<or> cs = 0xFFFFFFFF then Some (Inl cs, s1)
        else if cs \<noteq> 0 then find_free_loop s1
               (if last_clst s1 \<ge> 2 \<and> last_clst s1 < n_fatent s1 then last_clst s1 else scl)
               (if last_clst s1 \<ge> 2 \<and> last_clst s1 < n_fatent s1 then last_clst s1 else scl)
        else if n' = 0 then find_free_loop s1 scl scl
        else Some (Inr n', s1)) (\<lambda>(r, s'). same_table s s' \<and> found s r))"
    using n' assms(2,3)
    by (intro get_fat_same [OF assms(1)])
      (auto simp: free_set_def same_table_n clst_ge_1 intro!: loop)
  show ?thesis
    unfolding create_chain_find_def Let_def n'_def [symmetric] using get loop [OF st assms(2,3)]
    by (auto simp: wp_bind wp_case_prod)
qed

text \<open>\<open>takes s clst v s'\<close>: the free cluster \<open>v\<close> is the new end of the chain that ended with \<open>clst\<close>, or
  a new chain when \<open>clst\<close> is 0.\<close>

definition takes :: "vol \<Rightarrow> DWORD \<Rightarrow> DWORD \<Rightarrow> vol \<Rightarrow> bool" where
  "takes s clst v s' \<longleftrightarrow> fat_inv s' \<and> geo s' = geo s \<and> last_clst s' = v \<and>
     (free_ok s \<longrightarrow> free_ok s') \<and>
     (\<forall>d < n_fatent s. fat_entry s' d =
        (if d = v then fat_width s else if clst \<noteq> 0 \<and> d = clst then v else fat_entry s d))"

lemma and_mask_small: "unat (v :: DWORD) < 2 ^ k \<Longrightarrow> v AND mask k = v"
  unfolding take_bit_eq_mask [symmetric] word_unat_eq_iff
  by (simp add: unsigned_take_bit_eq take_bit_nat_eq_self)

lemma and_width: "gok s \<Longrightarrow> v < n_fatent s \<Longrightarrow> v AND fat_width s = v"
  unfolding fat_width_def entry_mask_def nibble_masks
  by (auto simp: gok_def word_less_nat_alt intro!: and_mask_small)

lemma geo_last [simp]: "geo (s\<lparr>last_clst := l\<rparr>) = geo s"
  by (simp add: geo_def)

lemma width_all: "0xFFFFFFFF AND fat_width s = fat_width s"
  by (simp add: fat_width_def entry_mask_def)

lemma width_nz: "fat_width s \<noteq> 0"
  by (simp add: fat_width_def entry_mask_def)

lemma free_ok_taken:
  assumes "free_ok s" "fat_inv s" "v \<in> free_set s" "fat_rest s' = fat_rest s"
    and "free_set s' = free_set s - {v}"
  shows "free_ok (taken (s'\<lparr>last_clst := l\<rparr>))"
proof -
  have e: "n_fatent s' = n_fatent s" "free_clst s' = free_clst s"
    using assms(4) by (simp_all add: fat_rest_def geo_eq_iff)
  have fs: "free_set (taken (s'\<lparr>last_clst := l\<rparr>)) = free_set s - {v}"
    using assms(5) by (simp add: free_set_def)
  have c: "0 < card (free_set s)" using assms(3) by (auto simp: card_gt_0_iff)
  show ?thesis
  proof (cases "n_fatent s - 2 < free_clst s")
    case True
    then show ?thesis by (auto simp: taken_def free_ok_def e)
  next
    case False
    then have u: "unat (free_clst s) = card (free_set s)" using assms(1) by (simp add: free_ok_def)
    then have "0 < free_clst s" using c by (simp add: word_less_nat_alt)
    moreover from this have "unat (free_clst s - 1) = unat (free_clst s) - 1"
      by (subst unat_sub) (auto simp: word_le_nat_alt word_less_nat_alt)
    ultimately have "unat (free_clst (taken (s'\<lparr>last_clst := l\<rparr>))) = card (free_set s - {v})"
      using u False assms(3) by (simp add: taken_def e not_less)
    then show ?thesis unfolding free_ok_def fs by simp
  qed
qed

lemma create_chain_link_exact:
  assumes "fat_inv s" "v \<in> free_set s" "clst = 0 \<or> 2 \<le> clst \<and> clst < n_fatent s \<and> fat_entry s clst \<noteq> 0"
  shows "wp (create_chain_link s clst v) (\<lambda>(r, s'). r = v \<and> takes s clst v s')"
proof -
  have v: "2 \<le> v" "v < n_fatent s" "fat_entry s v = 0" "v \<noteq> 0" "v AND fat_width s = v"
    using assms(1,2) and_width [of s v] by (auto simp: free_set_def fat_inv_def word_le_nat_alt)
  have end1: "takes s clst v (taken (s2\<lparr>last_clst := v\<rparr>))"
    if s2: "fat_inv s2" "fat_rest s2 = fat_rest s"
      "\<forall>d < n_fatent s. fat_entry s2 d =
        (if d = v then fat_width s else if clst \<noteq> 0 \<and> d = clst then v else fat_entry s d)" for s2
  proof -
    have n: "n_fatent s2 = n_fatent s" "geo s2 = geo s" using s2(2) by (auto simp: fat_rest_def geo_eq_iff)
    have "d \<in> free_set s2 \<longleftrightarrow> d \<in> free_set s - {v}" for d
    proof (cases "d < n_fatent s")
      case True
      then show ?thesis
        using s2(3) [rule_format, OF True] n(1) v(4) assms(3) width_nz [of s] unfolding free_set_def by auto
    qed (use n(1) in \<open>simp add: free_set_def\<close>)
    then have "free_set s2 = free_set s - {v}" by blast
    from free_ok_taken [OF _ assms(1,2) s2(2) this] show ?thesis
      using s2(1,3) n(2) by (simp add: takes_def)
  qed
  have put2: "wp (if clst \<noteq> 0 then put_fat s1 clst v else Some (FR_OK, s1)) (\<lambda>(res, s2).
       res = FR_OK \<and> takes s clst v (taken (s2\<lparr>last_clst := v\<rparr>)))"
    if s1: "fat_inv s1" "fat_rest s1 = fat_rest s" "n_fatent s1 = n_fatent s" "fat_width s1 = fat_width s"
      "\<forall>d < n_fatent s. fat_entry s1 d = (if d = v then fat_width s else fat_entry s d)" for s1
  proof (cases "clst = 0")
    case True
    then show ?thesis using end1 [OF s1(1,2)] s1(5) by simp
  next
    case False
    have "wp (put_fat s1 clst v) (\<lambda>(res, s2).
       res = FR_OK \<and> takes s clst v (taken (s2\<lparr>last_clst := v\<rparr>)))"
    proof (rule ft.put_rule)
      fix s2 assume s2: "fat_inv s2" "fat_rest s2 = fat_rest s1"
        "\<forall>d < n_fatent s1. fat_entry s2 d = (if d = clst then v AND fat_width s1 else fat_entry s1 d)"
      have "fat_rest s2 = fat_rest s" using s2(2) s1(2) by simp
      moreover have "v \<noteq> clst" using False assms(3) v(3) by auto
      then have "\<forall>d < n_fatent s. fat_entry s2 d =
        (if d = v then fat_width s else if clst \<noteq> 0 \<and> d = clst then v else fat_entry s d)"
        using s2(3) s1(3-5) v(5) False by simp
      ultimately show "case (FR_OK, s2) of (res, s2) \<Rightarrow>
         res = FR_OK \<and> takes s clst v (taken (s2\<lparr>last_clst := v\<rparr>))"
        using end1 [OF s2(1)] by simp
    qed (use s1 assms(3) False in simp_all)
    then show ?thesis using False by simp
  qed
  have n2: "n_fatent (s2\<lparr>last_clst := v\<rparr>) = n_fatent s2" for s2 :: vol by simp
  have "wp (put_fat s v 0xFFFFFFFF) (\<lambda>(res, s1).
      wp (if res = FR_OK \<and> clst \<noteq> 0 then put_fat s1 clst v else Some (res, s1)) (\<lambda>(res, s2).
       res = FR_OK \<and> takes s clst v (taken (s2\<lparr>last_clst := v\<rparr>))))"
    using put2 by (intro ft.put_rule [OF assms(1) v(1,2)]) (simp add: width_all)
  then show ?thesis
    unfolding create_chain_link_def Let_def taken_def [symmetric]
    by (simp only: wp_bind wp_case_prod) (erule wp_mono, clarsimp simp only: prod.case, erule wp_mono, clarsimp)
qed

text \<open>The result of \<open>create_chain\<close>: a free cluster that is now the end of the chain; 0 when the
  volume is full; 1 when the search met an entry with the reserved value 1.\<close>

lemma create_chain_exact:
  assumes "fat_inv s" "free_ok s"
    and "clst = 0 \<or> 2 \<le> clst \<and> clst < n_fatent s \<and> n_fatent s \<le> fat_entry s clst"
  shows "wp (create_chain s clst) (\<lambda>(v, s').
     v \<in> free_set s \<and> takes s clst v s' \<or>
     v = 0 \<and> free_set s = {} \<and> same_table s s' \<or>
     v = 1 \<and> (\<exists>c. 2 \<le> c \<and> c < n_fatent s \<and> fat_entry s c = 1) \<and> same_table s s')"
    (is "wp _ ?Q")
proof -
  have n: "3 \<le> n_fatent s" using assms(1) by (auto simp: fat_inv_def gok_def word_le_nat_alt)
  have st: "same_table s s" using assms(1) by (simp add: same_table_def)
  have nz: "clst = 0 \<or> 2 \<le> clst \<and> clst < n_fatent s \<and> fat_entry s clst \<noteq> 0"
    using assms(3) n by (auto simp: word_le_nat_alt)
  have sf: "free_ok s1" "free_clst s1 = free_clst s" "geo s1 = geo s" "fat_width s1 = fat_width s"
    if "same_table s s1" for s1
    using that assms(2) same_table_free [OF that] same_table_n [OF that] ft.rest_lim [of s1 s]
    by (auto simp: same_table_def free_ok_def fat_rest_def)
  have tk: "takes s clst v s'" if "same_table s s1" "takes s1 clst v s'" for s1 v s'
    using that sf [OF that(1)] same_table_n [OF that(1)] by (simp add: takes_def same_table_def)
  have link: "wp (create_chain_link s1 clst v) ?Q" if "same_table s s1" "v \<in> free_set s" for s1 v
  proof -
    have "wp (create_chain_link s1 clst v) (\<lambda>(r, s'). r = v \<and> takes s1 clst v s')"
      using that nz same_table_n [OF that(1)] same_table_free [OF that(1)]
      by (intro create_chain_link_exact) (auto simp: same_table_def)
    then show ?thesis using that by (elim wp_mono) (auto intro: tk)
  qed
  have frm: "wp (create_chain_from s1 clst scl) ?Q"
    if s1: "same_table s s1" and scl: "1 \<le> scl" "scl < n_fatent s" "clst = scl \<longrightarrow> 2 \<le> clst" for s1 scl
  proof (cases "free_clst s = 0")
    case True
    then have "free_set s = {}" using assms(2) by (auto simp: free_ok_def)
    then show ?thesis using True sf(2) [OF s1] s1 by (simp add: create_chain_from_def)
  next
    case False
    have "wp (create_chain_find s1 clst scl) (\<lambda>(r, s'). same_table s1 s' \<and> found s1 r)"
      using s1 scl same_table_n [OF s1]
      by (intro create_chain_find_exact) (auto simp: same_table_def)
    then have "wp (create_chain_find s1 clst scl) (\<lambda>(r, s'). same_table s s' \<and> found s r)"
      by (rule wp_mono) (auto intro: same_table_trans [OF s1] same_table_found [OF s1])
    then have "wp (create_chain_find s1 clst scl) (\<lambda>(r, s'). wp (case r of Inl v \<Rightarrow> Some (v, s')
        | Inr ncl \<Rightarrow> create_chain_link s' clst ncl) ?Q)"
      by (rule wp_mono) (auto split: sum.splits intro: link)
    then show ?thesis using False sf(2) [OF s1]
      by (simp add: create_chain_from_def wp_bind wp_case_prod)
  qed
  show ?thesis
  proof (cases "clst = 0")
    case True
    define scl where "scl = (if last_clst s = 0 \<or> n_fatent s \<le> last_clst s then 1 else last_clst s)"
    have "1 \<le> scl" "scl < n_fatent s" "clst = scl \<longrightarrow> 2 \<le> clst"
      using n True clst_ge_1(2) [OF n] clst_ge_1(4) [of "last_clst s"] by (auto simp: scl_def not_le)
    from frm [OF st this] show ?thesis
      using True by (simp add: create_chain_def Let_def scl_def)
  next
    case False
    have "wp (get_fat s clst) (\<lambda>(cs, s1). wp (if cs < 2 then Some (1, s1)
        else if cs = 0xFFFFFFFF then Some (cs, s1)
        else if cs < n_fatent s1 then Some (cs, s1)
        else create_chain_from s1 clst clst) ?Q)"
    proof (rule get_fat_same [OF assms(1)])
      fix s1 assume s1: "same_table s s1"
      have c: "2 \<le> clst" "clst < n_fatent s" "\<not> fat_entry s clst < n_fatent s" "\<not> fat_entry s clst < 2"
        using False assms(3) n by (auto simp: word_le_nat_alt word_less_nat_alt)
      show "case (if 2 \<le> clst \<and> clst < n_fatent s then fat_entry s clst else 1, s1) of (cs, s1) \<Rightarrow>
          wp (if cs < 2 then Some (1, s1)
        else if cs = 0xFFFFFFFF then Some (cs, s1)
        else if cs < n_fatent s1 then Some (cs, s1)
        else create_chain_from s1 clst clst) ?Q"
        using c frm [OF s1 clst_ge_1(1) [OF c(1)] c(2)] same_table_n [OF s1] by simp
    qed
    then show ?thesis using False by (simp add: create_chain_def wp_bind wp_case_prod)
  qed
qed

text \<open>On the level of chains: the chain grows by the new cluster, and chains without the clusters
  that an operation touched are as before.\<close>

lemma width_end: "gok s \<Longrightarrow> n_fatent s \<le> fat_width s"
  by (auto simp: gok_def fat_width_def entry_mask_def word_le_nat_alt)

lemma chain_append:
  "chain e n c cs \<Longrightarrow> e' (last cs) = v \<Longrightarrow> 2 \<le> v \<Longrightarrow> v < n \<Longrightarrow> n \<le> e' v \<Longrightarrow>
     (\<And>x. x \<in> set cs \<Longrightarrow> x \<noteq> last cs \<Longrightarrow> e' x = e x) \<Longrightarrow> chain e' n c (cs @ [v])"
proof (induction cs arbitrary: c)
  case (Cons x cs)
  have d: "distinct (x # cs)" by (rule chain_distinct [OF Cons.prems(1)])
  show ?case
  proof (cases "cs = []")
    case False
    then have "x \<noteq> last cs" using d by auto
    then have "e' x = e x" using Cons.prems(6) [of x] False by simp
    moreover have "chain e' n (e c) (cs @ [v])"
      using Cons.prems False by (intro Cons.IH) auto
    ultimately show ?thesis using Cons.prems(1) False by simp
  qed (use Cons.prems in auto)
qed simp

lemma takes_chain:
  assumes "chain (fat_entry s) (n_fatent s) c cs" "fat_inv s" "v \<in> free_set s" "takes s (last cs) v s'"
  shows "chain (fat_entry s') (n_fatent s') c (cs @ [v])"
proof -
  have n: "n_fatent s' = n_fatent s" using assms(4) geo_n_fatent unfolding takes_def by blast
  have v: "2 \<le> v" "v < n_fatent s" "fat_entry s v = 0" using assms(3) by (auto simp: free_set_def)
  have r: "2 \<le> n_fatent s" using assms(2) by (auto simp: fat_inv_def gok_def word_le_nat_alt)
  have nv: "x \<noteq> v \<and> x < n_fatent s \<and> x \<noteq> 0" if "x \<in> set cs" for x
    using chain_nz [OF assms(1) r that] chain_range [OF assms(1) that] v(3) by (auto simp: word_le_nat_alt)
  have l: "last cs \<in> set cs" using assms(1) by (cases cs) auto
  have e: "fat_entry s' d = (if d = v then fat_width s else if d = last cs then v else fat_entry s d)"
    if "d < n_fatent s" for d
    using assms(4) that nv [OF l] by (auto simp: takes_def)
  show ?thesis unfolding n
    using assms(1) e nv nv [OF l] v width_end [of s] assms(2)
    by (intro chain_append [where e = "fat_entry s"]) (auto simp: fat_inv_def)
qed

lemma takes_other:
  assumes "chain (fat_entry s) (n_fatent s) c cs" "fat_inv s" "v \<in> free_set s" "takes s p v s'" "p \<notin> set cs"
  shows "chain (fat_entry s') (n_fatent s') c cs"
proof -
  have r: "2 \<le> n_fatent s" using assms(2) by (auto simp: fat_inv_def gok_def word_le_nat_alt)
  have "fat_entry s' x = fat_entry s x" if "x \<in> set cs" for x
    using assms(3-5) that chain_nz [OF assms(1) r that] chain_range [OF assms(1) that]
    by (auto simp: takes_def free_set_def word_le_nat_alt)
  moreover have "n_fatent s' = n_fatent s" using assms(4) geo_n_fatent unfolding takes_def by blast
  ultimately show ?thesis
    using assms(1) chain_cong [of cs "fat_entry s'" "fat_entry s"] by simp
qed

lemma frees_other:
  assumes "chain (fat_entry s) (n_fatent s) c cs" "frees s ds s'" "set ds \<inter> set cs = {}"
  shows "chain (fat_entry s') (n_fatent s') c cs"
proof -
  have "fat_entry s' x = fat_entry s x" if "x \<in> set cs" for x
    using assms(2,3) that chain_range [OF assms(1) that] by (auto simp: frees_def)
  moreover have "n_fatent s' = n_fatent s" using assms(2) geo_n_fatent unfolding frees_def by blast
  ultimately show ?thesis
    using assms(1) chain_cong [of cs "fat_entry s'" "fat_entry s"] by simp
qed

end
