(* ===== verification/FF_Data.thy ===== *)
theory FF_Data
  imports FF_FatSpec FF_ReadWrite
begin

text \<open>
  The data area of a volume that lies on the device with its parts in order: the FAT (and its
  copy), then the data area.  \<open>lay\<close> is this layout together with the invariant of the FAT;
  \<open>dkeep\<close> says that two states have the same content in the data area.
\<close>

section \<open>The layout\<close>

definition lay :: "vol \<Rightarrow> bool" where
  "lay s \<longleftrightarrow> fat_inv s \<and> n_fats s \<in> {1, 2} \<and> (\<exists>k<8. unat (csize s) = 2 ^ k) \<and>
     unat (fatbase s) + unat (n_fats s) * unat (fsize s) \<le> unat (database s) \<and>
     unat (database s) + unat (csize s) * (unat (n_fatent s) - 2) \<le> DISK_SECTORS"

definition in_data :: "vol \<Rightarrow> LBA_t \<Rightarrow> bool" where
  "in_data s n \<longleftrightarrow> unat (database s) \<le> unat n \<and> unat n < DISK_SECTORS"

text \<open>The sectors behind the FATs: the fixed root directory and the data area.\<close>

definition above :: "vol \<Rightarrow> LBA_t \<Rightarrow> bool" where
  "above s n \<longleftrightarrow> unat (fatbase s) + unat (n_fats s) * unat (fsize s) \<le> unat n \<and> unat n < DISK_SECTORS"

lemma in_data_above: "lay s \<Longrightarrow> in_data s n \<Longrightarrow> above s n"
  by (auto simp: lay_def in_data_def above_def)

definition dkeep :: "vol \<Rightarrow> vol \<Rightarrow> bool" where
  "dkeep s s' \<longleftrightarrow> (\<forall>n j. above s n \<longrightarrow> j < 512 \<longrightarrow> vbyte s' n j = vbyte s n j)"

lemma layD:
  assumes "lay s"
  shows "fat_inv s" "vok s" "gok s" "mirror_ok s" "fat_on_disk s" "wr s" "csize s \<noteq> 0"
    "n_fats s = 1 \<or> n_fats s = 2"
  using assms fat_invD [of s] by (auto simp: lay_def)

lemma lay_good: "lay s \<Longrightarrow> good s s' \<Longrightarrow> wr s' \<Longrightarrow> lay s'"
  using fat_inv_good [of s s'] by (auto simp: lay_def goodD)

lemma dkeep_refl [simp]: "dkeep s s"
  by (simp add: dkeep_def)

lemma dkeep_trans: "dkeep s s1 \<Longrightarrow> good s s1 \<Longrightarrow> dkeep s1 s2 \<Longrightarrow> dkeep s s2"
  by (simp add: dkeep_def above_def goodD)

lemma in_data_good: "good s s' \<Longrightarrow> in_data s' n = in_data s n"
  by (simp add: in_data_def goodD)

text \<open>A sector of the FAT, or of its copy, is not in the data area.\<close>

lemma infat_unat:
  assumes "lay s" "infat s n"
  shows "unat (fatbase s) \<le> unat n" "unat n < unat (fatbase s) + unat (fsize s)"
proof -
  have b: "unat (fatbase s) + unat (fsize s) \<le> 128"
    using layD(5) [OF assms(1)] by (simp add: fat_on_disk_def)
  have "unat (n - fatbase s) < unat (fsize s)" using assms(2) by (simp add: infat_def word_less_nat_alt)
  moreover from this have "unat ((n - fatbase s) + fatbase s) = unat (n - fatbase s) + unat (fatbase s)"
    using b by (intro unat_add_lem [THEN iffD1]) simp
  ultimately show "unat (fatbase s) \<le> unat n" "unat n < unat (fatbase s) + unat (fsize s)" by simp_all
qed

lemma infat_above:
  assumes "lay s" "infat s n"
  shows "\<not> above s n" "n_fats s = 2 \<Longrightarrow> \<not> above s (n + fsize s)" "unat n < DISK_SECTORS"
proof -
  note n = infat_unat [OF assms]
  have l: "unat (fatbase s) + unat (n_fats s) * unat (fsize s) \<le> 128" using assms(1) by (auto simp: lay_def)
  have l1: "unat (fatbase s) + unat (fsize s) \<le> unat (fatbase s) + unat (n_fats s) * unat (fsize s)"
    using assms(1) by (auto simp: lay_def)
  show "\<not> above s n" "unat n < DISK_SECTORS" unfolding above_def using n l1 l by linarith+
  assume f: "n_fats s = 2"
  then have "unat (n + fsize s) = unat n + unat (fsize s)"
    using n l by (intro unat_add_lem [THEN iffD1]) simp
  then show "\<not> above s (n + fsize s)" using n f by (simp add: above_def)
qed

lemma infat_data:
  assumes "lay s" "infat s n"
  shows "\<not> in_data s n" "unat n < DISK_SECTORS"
  using infat_above [OF assms] in_data_above [OF assms(1)] by blast+

lemma synced_dkeep:
  assumes "lay s" shows "dkeep s (synced s)"
  unfolding dkeep_def
proof (intro allI impI)
  fix n j assume n: "above s n" and j: "j < (512::nat)"
  have "n \<noteq> winsect s + fsize s" if "infat s (winsect s)" "n_fats s = 2"
    using that n infat_above(2) [OF assms] by auto
  then show "vbyte (synced s) n j = vbyte s n j"
    using j layD(2) [OF assms]
    by (auto simp: synced_def vbyte_def Let_def disk_store_sector word_unat_eq_iff [symmetric])
qed

text \<open>Moving the window on such a volume always succeeds and changes no content.\<close>

lemma move_window_lay:
  assumes "lay s" "unat n < DISK_SECTORS"
    and "\<And>s'. \<lbrakk>lay s'; good_win s s'; fkeep s s'; dkeep s s'; winsect s' = n\<rbrakk> \<Longrightarrow> Q (FR_OK, s')"
  shows "wp (move_window s n) Q"
proof (cases "n = winsect s")
  case True
  then show ?thesis using assms layD(2) [OF assms(1)] by (simp add: move_window_def good_win_def)
next
  case False
  note l = layD [OF assms(1)]
  define s1 where "s1 = (if wflag s = 0 then s else synced s)"
  have s1: "sync_window s = Some (FR_OK, s1)" "win s1 = win s" "good s s1" "dkeep s s1" "wflag s1 = 0"
    "good_win s s1"
    using l synced_good [OF l(2)] synced_dkeep [OF assms(1)]
    by (auto simp: sync_window_synced wr_def s1_def good_win_def)
  define s2 where "s2 = s1\<lparr>win := disk_bytes (vdisk s1) (unat n * 512) 512, winsect := n\<rparr>"
  have m: "move_window s n = Some (FR_OK, s2)"
    using False s1 assms l by (simp add: move_window_def disk_read_1 s2_def)
  note d = move_windowD [OF m l(2)]
  have v1: "vok s1" using s1(3) by (simp add: good_def)
  have "dkeep s1 s2"
    using v1 s1(5) by (auto simp: dkeep_def vbyte_def s2_def vok_def coh_def above_def)
  moreover have "good_win s s2"
    using s1(6) d(1) by (simp add: good_win_def s2_def)
  moreover have "lay s2" using assms(1) d(1) by (rule lay_good) (simp add: wr_def s2_def assms(2))
  ultimately show ?thesis
    unfolding m wp_Some using d(2) l(4) dkeep_trans [OF s1(4,3)]
    by (intro assms(3)) (auto simp: s2_def)
qed

section \<open>The FAT and the data area\<close>

text \<open>\<open>dstep s s'\<close>: a step of an operation on the FAT, as the data area sees it.\<close>

definition dstep :: "vol \<Rightarrow> vol \<Rightarrow> bool" where
  "dstep s s' \<longleftrightarrow> lay s' \<and> good s s' \<and> dkeep s s'"

lemma dstep_refl: "lay s \<Longrightarrow> dstep s s"
  by (simp add: dstep_def layD)

lemma dstep_trans: "dstep s s1 \<Longrightarrow> dstep s1 s2 \<Longrightarrow> dstep s s2"
  unfolding dstep_def using dkeep_trans good_trans by blast

lemma dirty_dstep:
  assumes "lay s" "infat s (winsect s)" "length b = 512"
  shows "dstep s (s\<lparr>win := b, wflag := 1\<rparr>)"
proof -
  have g: "good s (s\<lparr>win := b, wflag := 1\<rparr>)" using assms layD(2) by (intro dirty_good) simp_all
  moreover have "lay (s\<lparr>win := b, wflag := 1\<rparr>)"
    using assms(1) g by (rule lay_good) (simp add: infat_above(3) [OF assms(1,2)])
  moreover have "dkeep s (s\<lparr>win := b, wflag := 1\<rparr>)"
    using infat_above(1) [OF assms(1,2)] by (auto simp: dkeep_def vbyte_def)
  ultimately show ?thesis by (simp add: dstep_def)
qed

lemma move_fat_dstep:
  assumes "lay s" "tab s i"
    and "\<And>s'. \<lbrakk>dstep s s'; winsect s' = fatbase s + i div 512; infat s' (winsect s'); length (win s') = 512\<rbrakk>
           \<Longrightarrow> Q (FR_OK, s')"
  shows "wp (move_window s (fatbase s + i div 512)) Q"
proof (rule move_window_lay [OF assms(1)])
  show "unat (fatbase s + i div 512) < DISK_SECTORS"
    using fat_on_disk_sect [OF layD(5) [OF assms(1)] assms(2)] by (simp add: fat_sect_def)
  fix s' assume s': "lay s'" "good_win s s'" "fkeep s s'" "dkeep s s'" "winsect s' = fatbase s + i div 512"
  have g: "good s s'" using s'(2) by (simp add: good_win_def)
  have "infat s' (winsect s')"
    using tab_sect [OF layD(3) [OF assms(1)] assms(2)] s'(5) by (simp add: fat_sect_def infat_good [OF g])
  then show "Q (FR_OK, s')" using s' g layD(2) [OF s'(1)] by (intro assms(3)) (auto simp: dstep_def)
qed

lemma tab_dstep: "dstep s s' \<Longrightarrow> tab s' i = tab s i"
  by (auto simp: dstep_def tab_def goodD)

text \<open>The byte offset of an entry, as the code computes it for the three formats.\<close>

lemma tab_entry:
  assumes "gok s" "c < n_fatent s"
  shows "fs_type s = FS_FAT12 \<Longrightarrow> tab s (c + c div 2)" "fs_type s = FS_FAT12 \<Longrightarrow> tab s (c + c div 2 + 1)"
    "fs_type s = FS_FAT16 \<Longrightarrow> \<exists>i. tab s i \<and> c div 256 = i div 512"
    "fs_type s = FS_FAT32 \<Longrightarrow> \<exists>i. tab s i \<and> c div 128 = i div 512"
proof -
  show "tab s (c + c div 2)" "tab s (c + c div 2 + 1)" if "fs_type s = FS_FAT12"
    using tab12 [OF assms(1) that assms(2)] by simp_all
  show "\<exists>i. tab s i \<and> c div 256 = i div 512" if "fs_type s = FS_FAT16"
    using tab16(1,3) [OF assms(1) that assms(2)] by (intro exI [of _ "c * 2"]) (simp add: fat_sect_def)
  show "\<exists>i. tab s i \<and> c div 128 = i div 512" if "fs_type s = FS_FAT32"
    using tab32(1,2) [OF assms(1) that assms(2), of 0] by (intro exI [of _ "c * 4"]) (simp add: fat_sect_def)
qed

lemma move_fat_dstep':
  assumes "lay s" "\<exists>i. tab s i \<and> n = i div 512"
    and "\<And>s'. \<lbrakk>dstep s s'; infat s' (winsect s'); length (win s') = 512\<rbrakk> \<Longrightarrow> Q (FR_OK, s')"
  shows "wp (move_window s (fatbase s + n)) Q"
  using assms by (auto intro!: move_fat_dstep)

lemma dstep_win:
  assumes "dstep s s'" "infat s' (winsect s')" "length b = 512"
  shows "dstep s (s'\<lparr>win := b, wflag := 1\<rparr>)"
  using assms dirty_dstep [of s' b] dstep_trans [OF assms(1)] by (auto simp: dstep_def)

lemma dstepD: "dstep s s' \<Longrightarrow> lay s' \<and> fatbase s' = fatbase s \<and> n_fatent s' = n_fatent s \<and> fs_type s' = fs_type s"
  by (simp add: dstep_def goodD)

lemma get_fat_dstep:
  assumes "lay s" shows "wp (get_fat s c) (\<lambda>(v, s'). dstep s s')"
proof (cases "c < 2 \<or> c \<ge> n_fatent s")
  case True
  then show ?thesis using dstep_refl [OF assms] by (auto simp: get_fat_def)
next
  case False
  note tb = tab_entry [OF layD(3) [OF assms], of c]
  have m2: "wp (move_window s' (fatbase s' + (c + c div 2 + 1) div 512)) R"
    if "dstep s s'" "fs_type s = FS_FAT12" "\<And>s2. dstep s s2 \<Longrightarrow> length (win s2) = 512 \<Longrightarrow> R (FR_OK, s2)" for s' R
    using that False tb(2) dstepD [OF that(1)]
    by (intro move_fat_dstep) (auto simp: tab_dstep intro: dstep_trans [OF that(1)])
  show ?thesis
    unfolding get_fat_def Let_def using False tb assms dstep_refl [OF assms]
    by (auto simp: wp_simps not_le not_less intro!: move_fat_dstep move_fat_dstep' m2 ld_word_wp ld_dword_wp)
qed

lemma put_fat_dstep:
  assumes "lay s" shows "wp (put_fat s c v) (\<lambda>(r, s'). dstep s s')"
proof (cases "2 \<le> c \<and> c < n_fatent s")
  case False
  then show ?thesis using dstep_refl [OF assms] by (auto simp: put_fat_def)
next
  case True
  note tb = tab_entry [OF layD(3) [OF assms], of c]
  have m2: "wp (move_window s' (fatbase s' + (c + c div 2 + 1) div 512)) R"
    if "dstep s s'" "fs_type s = FS_FAT12"
      "\<And>s2. dstep s s2 \<Longrightarrow> length (win s2) = 512 \<Longrightarrow> infat s2 (winsect s2) \<Longrightarrow> R (FR_OK, s2)" for s' R
    using that True tb(2) dstepD [OF that(1)]
    by (intro move_fat_dstep') (auto simp: tab_dstep intro: dstep_trans [OF that(1)])
  have m2': "wp (move_window (s'\<lparr>win := b, wflag := 1\<rparr>) (fatbase s' + (c + c div 2 + 1) div 512)) R"
    if "dstep s (s'\<lparr>win := b, wflag := 1\<rparr>)" "fs_type s = FS_FAT12"
      "\<And>s2. dstep s s2 \<Longrightarrow> length (win s2) = 512 \<Longrightarrow> infat s2 (winsect s2) \<Longrightarrow> R (FR_OK, s2)" for s' R b
    using m2 [OF that(1,2), of R] that(3) by simp
  show ?thesis
    unfolding put_fat_def Let_def using True tb assms dstep_refl [OF assms]
    by (auto simp: wp_simps not_le not_less intro!: move_fat_dstep move_fat_dstep' m2' dstep_win
        ld_word_wp ld_dword_wp st_word_wp st_dword_wp)
qed

lemma get_fat_dstepD: "get_fat s c = Some (v, s') \<Longrightarrow> lay s \<Longrightarrow> dstep s s'"
  using get_fat_dstep [of s c] by (auto simp: wp_def)

lemma put_fat_dstepD: "put_fat s c v = Some (r, s') \<Longrightarrow> lay s \<Longrightarrow> dstep s s'"
  using put_fat_dstep [of s c v] by (auto simp: wp_def)

lemma dstep_lay: "dstep s s' \<Longrightarrow> lay s'"
  by (simp add: dstep_def)

lemma find_free_loop_dstep:
  assumes "find_free_loop s scl ncl = Some y"
  shows "lay s \<longrightarrow> dstep s (snd y)"
  using assms
proof (rule find_free_loop.raw_induct [where P = "\<lambda>s scl ncl y. lay s \<longrightarrow> dstep s (snd y)", rotated])
  fix f :: "vol \<Rightarrow> DWORD \<Rightarrow> DWORD \<Rightarrow> ((DWORD + DWORD) \<times> vol) option" and s scl ncl y
  assume f: "\<And>s scl ncl y. f s scl ncl = Some y \<Longrightarrow> lay s \<longrightarrow> dstep s (snd y)"
    and b: "do {
     let ncl = ncl + 1;
     let wrapped = (ncl \<ge> n_fatent s);
     let ncl = (if wrapped then 2 else ncl);
     if wrapped \<and> ncl > scl then Some (Inl 0, s)
     else do {
       (cs, s) \<leftarrow> get_fat s ncl;
       if cs = 0 then Some (Inr ncl, s)
       else if cs = 1 \<or> cs = 0xFFFFFFFF then Some (Inl cs, s)
       else if ncl = scl then Some (Inl 0, s)
       else f s scl ncl
     }
   } = Some y"
  show "lay s \<longrightarrow> dstep s (snd y)"
    using b
    by (auto simp: Let_def bind_eq_Some_conv dstep_refl split: if_splits prod.splits
        dest!: get_fat_dstepD f intro: dstep_trans dstep_lay)
qed

lemma dkeep_upd [simp]:
  "dkeep s (s'\<lparr>free_clst := x, fsi_flag := g\<rparr>) = dkeep s s'" "dkeep s (s'\<lparr>last_clst := l\<rparr>) = dkeep s s'"
  by (simp_all add: dkeep_def vbyte_def)

lemma lay_upd [simp]:
  "lay (s\<lparr>free_clst := x, fsi_flag := g\<rparr>) = lay s" "lay (s\<lparr>last_clst := l\<rparr>) = lay s"
  by (simp_all add: lay_def)

lemma dstep_upd [simp]:
  "dstep s (s'\<lparr>free_clst := x, fsi_flag := g\<rparr>) = dstep s s'" "dstep s (s'\<lparr>last_clst := l\<rparr>) = dstep s s'"
  by (simp_all add: dstep_def)

text \<open>The same as rules, relative to an earlier state \<open>s0\<close>.\<close>

lemma get_fat_from:
  assumes "dstep s0 s" "\<And>v s'. \<lbrakk>dstep s0 s'; n_fatent s' = n_fatent s0\<rbrakk> \<Longrightarrow> Q (v, s')"
  shows "wp (get_fat s c) Q"
  using get_fat_dstep [OF dstep_lay [OF assms(1)], of c]
  by (rule wp_mono) (use dstep_trans [OF assms(1)] dstepD [of s0] in \<open>auto intro!: assms(2)\<close>)

lemma put_fat_from:
  assumes "dstep s0 s" "\<And>r s'. dstep s0 s' \<Longrightarrow> Q (r, s')"
  shows "wp (put_fat s c v) Q"
  using put_fat_dstep [OF dstep_lay [OF assms(1)], of c v]
  by (rule wp_mono) (use dstep_trans [OF assms(1)] in \<open>auto intro!: assms(2)\<close>)

lemma find_free_from:
  assumes "dstep s0 s" "1 \<le> scl" "scl < n_fatent s0" "\<And>r s'. dstep s0 s' \<Longrightarrow> Q (r, s')"
  shows "wp (find_free_loop s scl scl) Q"
proof -
  note l = dstep_lay [OF assms(1)]
  have "3 \<le> n_fatent s" using layD(3) [OF l] by (auto simp: gok_def word_le_nat_alt)
  then have "wp (find_free_loop s scl scl) (\<lambda>_. True)"
    using layD(2) [OF l] assms(2,3) dstepD [OF assms(1)] by (intro find_free_wp) auto
  then obtain y where y: "find_free_loop s scl scl = Some y" by (auto simp: wp_def)
  have "dstep s0 (snd y)" using find_free_loop_dstep [OF y] l dstep_trans [OF assms(1)] by blast
  then show ?thesis using y assms(4) by (cases y) simp
qed

lemma create_chain_find_from:
  assumes "dstep s0 s" "n_fatent s = n_fatent s0" "1 \<le> scl" "scl < n_fatent s0"
    and "\<And>r s'. dstep s0 s' \<Longrightarrow> Q (r, s')"
  shows "wp (create_chain_find s c scl) Q"
  unfolding create_chain_find_def Let_def wp_simps using assms
  by (auto simp: wp_simps clst_ge_1 intro!: get_fat_from [of s0] find_free_from [of s0])

lemma create_chain_link_from:
  assumes "dstep s0 s" shows "wp (create_chain_link s c v) (\<lambda>(v, s'). dstep s0 s')"
  unfolding create_chain_link_def Let_def wp_simps using assms
  by (auto simp: wp_simps intro!: put_fat_from [of s0])

lemma create_chain_dstep:
  assumes "lay s" "clst < n_fatent s" shows "wp (create_chain s clst) (\<lambda>(v, s'). dstep s s')"
proof -
  have n3: "3 \<le> n_fatent s" using layD(3) [OF assms(1)] by (auto simp: gok_def word_le_nat_alt)
  have frm: "wp (create_chain_from s1 c scl) (\<lambda>(v, s'). dstep s s')"
    if "dstep s s1" "n_fatent s1 = n_fatent s" "1 \<le> scl" "scl < n_fatent s" for s1 c scl
    unfolding create_chain_from_def using that
    by (auto simp: wp_simps split: sum.split intro!: create_chain_find_from [of s] create_chain_link_from [of s])
  show ?thesis
    unfolding create_chain_def Let_def using n3 dstep_refl [OF assms(1)] assms(2)
    by (auto simp: wp_simps not_less not_le clst_ge_1 intro!: get_fat_from [of s] frm)
qed

text \<open>The rules for the callers: the table and the data area together.\<close>

lemma get_fat_lay:
  assumes "lay s"
    and "\<And>s'. dstep s s' \<Longrightarrow> same_table s s' \<Longrightarrow>
           Q (if 2 \<le> c \<and> c < n_fatent s then fat_entry s c else 1, s')"
  shows "wp (get_fat s c) Q"
proof -
  have "wp (get_fat s c) (\<lambda>(v, s'). v = (if 2 \<le> c \<and> c < n_fatent s then fat_entry s c else 1) \<and> same_table s s')"
    by (rule get_fat_same [OF layD(1) [OF assms(1)]]) simp
  from wp_conjI [OF this get_fat_dstep [OF assms(1), of c]] show ?thesis
    by (rule wp_mono) (auto simp del: if_split intro!: assms(2))
qed

lemma create_chain_lay:
  assumes "lay s" "free_ok s"
    and "clst = 0 \<or> 2 \<le> clst \<and> clst < n_fatent s \<and> n_fatent s \<le> fat_entry s clst"
  shows "wp (create_chain s clst) (\<lambda>(v, s'). dstep s s' \<and>
     (v \<in> free_set s \<and> takes s clst v s' \<or>
      v = 0 \<and> free_set s = {} \<and> same_table s s' \<or>
      v = 1 \<and> (\<exists>c. 2 \<le> c \<and> c < n_fatent s \<and> fat_entry s c = 1) \<and> same_table s s'))"
proof -
  from create_chain_exact [OF layD(1) [OF assms(1)] assms(2,3)]
  obtain v s' where *: "create_chain s clst = Some (v, s')"
    "v \<in> free_set s \<and> takes s clst v s' \<or> v = 0 \<and> free_set s = {} \<and> same_table s s' \<or>
      v = 1 \<and> (\<exists>c. 2 \<le> c \<and> c < n_fatent s \<and> fat_entry s c = 1) \<and> same_table s s'"
    by (auto simp: wp_def)
  have "clst < n_fatent s"
    using assms(3) layD(3) [OF assms(1)] by (auto simp: gok_def word_less_nat_alt)
  from create_chain_dstep [OF assms(1) this] show ?thesis using * by simp
qed

section \<open>Clusters and sectors\<close>

lemma csect_mod:
  assumes "lay s"
  shows "unat (x AND (ucast (csize s) - 1) :: DWORD) = unat x mod unat (csize s)"
proof -
  obtain k where k: "k < 8" "unat (csize s) = 2 ^ k" using assms by (auto simp: lay_def)
  have "(2::nat) ^ k < 2 ^ 32" using k(1) by (intro power_strict_increasing) simp_all
  then have "unat (of_nat (2 ^ k) :: DWORD) = 2 ^ k" 
    by (subst unat_of_nat, subst mod_less) simp_all
  then have "unat (2 ^ k :: DWORD) = 2 ^ k" by simp
  then have "(ucast (csize s) :: DWORD) = 2 ^ k"
    using k by (simp add: word_unat_eq_iff unat_ucast_up)
  then have "ucast (csize s) - 1 = (mask k :: DWORD)" by (simp add: mask_eq_exp_minus_1)
  then show ?thesis
    using k(2) by (simp add: take_bit_eq_mask [symmetric] unsigned_take_bit_eq take_bit_nat_def)
qed

text \<open>The sector \<open>k\<close> of a cluster.\<close>

lemma clst2sect_lay:
  assumes "lay s" "2 \<le> c" "c < n_fatent s"
  shows "clst2sect s c \<noteq> 0"
    "k < unat (csize s) \<Longrightarrow>
       unat (clst2sect s c + of_nat k) = unat (database s) + unat (csize s) * (unat c - 2) + k"
    "k \<le> unat (csize s) \<Longrightarrow>
       unat (database s) + unat (csize s) * (unat c - 2) + k \<le> DISK_SECTORS"
proof -
  have n: "unat (database s) + unat (csize s) * (unat (n_fatent s) - 2) \<le> 128"
    "unat (fatbase s) + unat (n_fats s) * unat (fsize s) \<le> unat (database s)"
    using assms(1) by (simp_all add: lay_def)
  have c2: "2 \<le> unat c" "unat c < unat (n_fatent s)" using assms(2,3) by (simp_all add: word_le_nat_alt word_less_nat_alt)
  have "unat c - 2 + 1 \<le> unat (n_fatent s) - 2" using c2 by linarith
  then have "unat (csize s) * (unat c - 2 + 1) \<le> unat (csize s) * (unat (n_fatent s) - 2)"
    by (rule mult_le_mono2)
  then have e: "unat (database s) + unat (csize s) * (unat c - 2) + unat (csize s) \<le> 128"
    using n(1) by simp
  have uc: "unat (c - 2) = unat c - 2" "unat (n_fatent s - 2) = unat (n_fatent s) - 2"
    using c2 by (simp_all add: unat_sub word_le_nat_alt)
  have lt: "\<not> n_fatent s - 2 \<le> c - 2"
    using c2 by (simp add: word_le_nat_alt uc)
  have cs: "clst2sect s c = database s + ucast (csize s) * (c - 2)"
    using lt by (simp add: clst2sect_def)
  have m: "unat (ucast (csize s) * (c - 2) :: DWORD) = unat (csize s) * (unat c - 2)"
    using e by (simp add: unat_word_ariths uc unat_ucast_up)
  have a: "unat (clst2sect s c) = unat (database s) + unat (csize s) * (unat c - 2)"
    unfolding cs using e m by (simp add: unat_word_ariths)
  show "k < unat (csize s) \<Longrightarrow>
       unat (clst2sect s c + of_nat k) = unat (database s) + unat (csize s) * (unat c - 2) + k"
    using e by (simp add: unat_word_ariths a unat_of_nat)
  show "k \<le> unat (csize s) \<Longrightarrow>
       unat (database s) + unat (csize s) * (unat c - 2) + k \<le> DISK_SECTORS"
    using e by simp
  have "0 < unat (fsize s)" using layD(3) [OF assms(1)] by (auto simp: gok_def)
  then have "0 < unat (database s)" using n(2) layD(8) [OF assms(1)] by auto
  then show "clst2sect s c \<noteq> 0" using a by (auto simp: word_unat_eq_iff)
qed

end
