(* ===== verification/FF_ReadSpec.thy ===== *)
theory FF_ReadSpec
  imports FF_Data
begin

text \<open>
  The content of a file as a list of bytes over its cluster chain, and the functional
  correctness of \<open>f_read\<close>: it returns the bytes at the file pointer.
\<close>

section \<open>The content of a file\<close>

text \<open>Bytes per cluster, and byte \<open>i\<close> of the file with the clusters \<open>cs\<close>.\<close>

definition bpc :: "vol \<Rightarrow> nat" where
  "bpc s = unat (csize s) * 512"

definition fbyte :: "vol \<Rightarrow> DWORD list \<Rightarrow> nat \<Rightarrow> BYTE" where
  "fbyte s cs i =
     vbyte s (clst2sect s (cs ! (i div bpc s)) + of_nat (i mod bpc s div 512)) (i mod 512)"

definition content :: "vol \<Rightarrow> DWORD list \<Rightarrow> nat \<Rightarrow> nat \<Rightarrow> buffer" where
  "content s cs p n = map (fbyte s cs) [p ..< p + n]"

text \<open>The clusters of a file with the first cluster \<open>c\<close>, none when it is 0.\<close>

definition file_chain :: "vol \<Rightarrow> DWORD \<Rightarrow> DWORD list \<Rightarrow> bool" where
  "file_chain s c cs \<longleftrightarrow> (if c = 0 then cs = [] else chain (fat_entry s) (n_fatent s) c cs)"

text \<open>An open file object that agrees with the volume: the size is covered by the chain, and
  the members that cache the position are those of the position.\<close>

definition file_ok :: "vol \<Rightarrow> FIL \<Rightarrow> DWORD list \<Rightarrow> bool" where
  "file_ok s fp cs \<longleftrightarrow> lay s \<and> file_chain s (sclust (fobj fp)) cs \<and>
     unat (objsize (fobj fp)) \<le> length cs * bpc s \<and> unat (fptr fp) \<le> unat (objsize (fobj fp)) \<and>
     (0 < unat (fptr fp) \<longrightarrow> fclust fp = cs ! ((unat (fptr fp) - 1) div bpc s)) \<and>
     (unat (fptr fp) mod 512 \<noteq> 0 \<longrightarrow>
        fsect fp = clst2sect s (cs ! (unat (fptr fp) div bpc s)) + of_nat (unat (fptr fp) mod bpc s div 512))"

lemma length_content [simp]: "length (content s cs p n) = n"
  by (simp add: content_def)

lemma content_append: "content s cs p m @ content s cs (p + m) n = content s cs p (m + n)"
proof -
  have "[p ..< p + (m + n)] = [p ..< p + m] @ [p + m ..< p + m + n]"
    using upt_add_eq_append [of p "p + m" n] by (simp add: add.assoc)
  then show ?thesis by (simp add: content_def)
qed

lemma bpc_pos: "lay s \<Longrightarrow> 0 < bpc s"
  using layD(7) [of s] by (simp add: bpc_def unat_gt_0)

lemma csize_pos: "lay s \<Longrightarrow> 0 < unat (csize s)"
  using layD(7) [of s] by (simp add: unat_gt_0)

text \<open>Positions: cluster \<open>q\<close>, sector \<open>k\<close> of the cluster, byte \<open>j\<close> of the sector.\<close>

lemma pos_arith:
  assumes "k < unat (csize s)" "j < 512"
  shows "(bpc s * q + 512 * k + j) div bpc s = q" "(bpc s * q + 512 * k + j) mod bpc s div 512 = k"
    "(bpc s * q + 512 * k + j) mod 512 = j"
proof -
  have lt: "512 * k + j < bpc s"
  proof -
    have "512 * (k + 1) \<le> 512 * unat (csize s)" using assms(1) by (intro mult_le_mono2) simp
    then show ?thesis using assms(2) by (simp add: bpc_def)
  qed
  show "(bpc s * q + 512 * k + j) div bpc s = q"
    using lt by (simp add: add.assoc)
  have "(bpc s * q + 512 * k + j) mod bpc s = 512 * k + j"
    using lt by (simp add: add.assoc)
  then show "(bpc s * q + 512 * k + j) mod bpc s div 512 = k" using assms(2) by simp
  have "(bpc s * q + 512 * k + j) mod 512 = (512 * (unat (csize s) * q + k) + j) mod 512"
    by (simp add: bpc_def algebra_simps)
  then show "(bpc s * q + 512 * k + j) mod 512 = j" using assms(2) by (simp only: mod_mult_self4 mod_less)
qed

lemma pos_cases:
  assumes "lay s"
  obtains q k j where "p = bpc s * q + 512 * k + j" "k < unat (csize s)" "j < 512"
proof
  have "p mod bpc s < bpc s" using bpc_pos [OF assms] by simp
  then show "p mod bpc s div 512 < unat (csize s)"
    by (simp add: bpc_def less_mult_imp_div_less)
  show "p mod bpc s mod 512 < 512" by simp
  show "p = bpc s * (p div bpc s) + 512 * (p mod bpc s div 512) + p mod bpc s mod 512"
    by (simp add: add.assoc)
qed

lemma fbyte_pos:
  assumes "k < unat (csize s)" "j < 512"
  shows "fbyte s cs (bpc s * q + 512 * k + j) = vbyte s (clst2sect s (cs ! q) + of_nat k) j"
  unfolding fbyte_def pos_arith [OF assms] by simp

lemma chain_nth:
  "chain e n c cs \<Longrightarrow> Suc i < length cs \<Longrightarrow> e (cs ! i) = cs ! Suc i"
proof (induction cs arbitrary: c i)
  case (Cons x cs)
  then have ne: "cs \<noteq> []" by auto
  with Cons.prems have c: "chain e n (e x) cs" by simp
  show ?case
  proof (cases i)
    case 0
    then show ?thesis using c ne by (cases cs) auto
  next
    case (Suc m)
    then show ?thesis using Cons.IH [OF c, of m] Cons.prems(2) by simp
  qed
qed simp

lemma chain_hd: "chain e n c cs \<Longrightarrow> cs ! 0 = c"
  by (cases cs) auto

lemma clst2sect_good: "good s s' \<Longrightarrow> clst2sect s' c = clst2sect s c"
  by (simp add: clst2sect_def Let_def goodD)

text \<open>The sectors of a file are in the data area.\<close>

lemma file_sect:
  assumes "lay s" "file_chain s c cs" "q < length cs" "k < unat (csize s)"
  shows "in_data s (clst2sect s (cs ! q) + of_nat k)" "unat (clst2sect s (cs ! q) + of_nat k) < DISK_SECTORS"
    "clst2sect s (cs ! q) \<noteq> 0" "2 \<le> cs ! q" "cs ! q < n_fatent s"
proof -
  show r: "2 \<le> cs ! q" "cs ! q < n_fatent s"
    using assms(2,3) chain_range [of "fat_entry s" "n_fatent s" c cs "cs ! q"]
    by (auto simp: file_chain_def split: if_splits)
  note cl = clst2sect_lay [OF assms(1) r]
  show "clst2sect s (cs ! q) \<noteq> 0" by (rule cl(1))
  show "unat (clst2sect s (cs ! q) + of_nat k) < DISK_SECTORS"
    using cl(2) [OF assms(4)] cl(3) [of "k + 1"] assms(4) by simp
  then show "in_data s (clst2sect s (cs ! q) + of_nat k)"
    using cl(2) [OF assms(4)] by (simp add: in_data_def)
qed

text \<open>A step that keeps the table and the data area keeps the file.\<close>

lemma file_chain_keep: "same_table s s' \<Longrightarrow> file_chain s' c cs = file_chain s c cs" for s s'
proof -
  assume st: "same_table s s'"
  have "chain (fat_entry s') (n_fatent s) c cs = chain (fat_entry s) (n_fatent s) c cs"
  proof (induction cs arbitrary: c)
    case (Cons x cs)
    show ?case using st Cons by (auto simp: same_table_def)
  qed simp
  then show ?thesis using same_table_n [OF st] by (simp add: file_chain_def)
qed

lemma fbyte_keep:
  assumes "dstep s s'" "lay s" "file_chain s c cs" "i < length cs * bpc s"
  shows "fbyte s' cs i = fbyte s cs i"
proof -
  have g: "good s s'" and d: "dkeep s s'" using assms(1) by (simp_all add: dstep_def)
  have b: "bpc s' = bpc s" using g by (simp add: bpc_def goodD)
  have q: "i div bpc s < length cs" using assms(4) by (simp add: less_mult_imp_div_less)
  have k: "i mod bpc s div 512 < unat (csize s)"
    using bpc_pos [OF assms(2)] by (simp add: bpc_def less_mult_imp_div_less)
  show ?thesis
    using d in_data_above [OF assms(2) file_sect(1) [OF assms(2,3) q k]] by (simp add: fbyte_def b clst2sect_good [OF g] dkeep_def)
qed

section \<open>Reading\<close>

lemma file_okD:
  assumes "file_ok s fp cs"
  shows "lay s" "file_chain s (sclust (fobj fp)) cs" "unat (objsize (fobj fp)) \<le> length cs * bpc s"
    "unat (fptr fp) \<le> unat (objsize (fobj fp))"
    "0 < unat (fptr fp) \<Longrightarrow> fclust fp = cs ! ((unat (fptr fp) - 1) div bpc s)"
    "unat (fptr fp) mod 512 \<noteq> 0 \<Longrightarrow>
        fsect fp = clst2sect s (cs ! (unat (fptr fp) div bpc s)) + of_nat (unat (fptr fp) mod bpc s div 512)"
  using assms by (simp_all add: file_ok_def)

lemma csect_pos:
  assumes "lay s"
  shows "(p div 512) AND (ucast (csize s) - 1) = (of_nat (unat p mod bpc s div 512) :: DWORD)"
proof -
  have "unat p mod bpc s div 512 = unat p div 512 mod unat (csize s)"
    by (simp add: bpc_def mult.commute [of _ 512] mod_mult2_eq)
  moreover have "unat ((p div 512) AND (ucast (csize s) - 1)) = unat p div 512 mod unat (csize s)"
    by (simp add: csect_mod [OF assms] unat_div)
  ultimately have e: "unat p mod bpc s div 512 = unat ((p div 512) AND (ucast (csize s) - 1))" by simp
  show ?thesis unfolding e by simp
qed

lemma sect_pos_less: "lay s \<Longrightarrow> p mod bpc s div 512 < unat (csize s)"
  using bpc_pos [of s] by (simp add: bpc_def less_mult_imp_div_less)

text \<open>The cluster before a cluster boundary, and inside a cluster.\<close>

lemma prev_div:
  assumes "0 < p" "0 < (b::nat)"
  shows "p mod b = 0 \<Longrightarrow> p div b = Suc ((p - 1) div b)" "p mod b \<noteq> 0 \<Longrightarrow> (p - 1) div b = p div b"
proof -
  show "p div b = Suc ((p - 1) div b)" if "p mod b = 0"
  proof -
    from that obtain m where p: "p = b * m" by auto
    with assms obtain m' where m: "m = Suc m'" by (cases m) auto
    have "p - 1 = b * m' + (b - 1)" using p m assms by simp
    moreover have "(b * m' + (b - 1)) div b = m'" using assms(2) by (simp only: div_mult_self4) simp
    ultimately show ?thesis using p m assms(2) by simp
  qed
  show "(p - 1) div b = p div b" if "p mod b \<noteq> 0"
  proof -
    have "p = b * (p div b) + p mod b" by simp
    then have "p - 1 = b * (p div b) + (p mod b - 1)" using that by linarith
    moreover have "p mod b - 1 < b" using assms(2) by (metis less_imp_diff_less mod_less_divisor)
    ultimately show ?thesis using assms(2) by (metis add_cancel_right_right div_less div_mult_self4 not_less0)
  qed
qed

lemma mod_512_boundary:
  assumes "p mod 512 = 0" "p mod bpc s div 512 = 0"
  shows "p mod bpc s = 0"
proof -
  have "p mod bpc s mod 512 = p mod 512" by (simp add: bpc_def mod_mod_cancel)
  moreover have "p mod bpc s = 512 * (p mod bpc s div 512) + p mod bpc s mod 512" by simp
  ultimately show ?thesis using assms by linarith
qed

lemma unat_32_mod: "unat (p mod (512 :: DWORD)) = unat p mod 512"
  by (simp add: unat_mod)

lemma f_read_sect_exact:
  assumes "file_ok s fp cs" "unat (fptr fp) mod 512 = 0" "unat (fptr fp) < unat (objsize (fobj fp))"
  defines "q \<equiv> unat (fptr fp) div bpc s" and "k \<equiv> unat (fptr fp) mod bpc s div 512"
  shows "wp (f_read_sect s fp) (\<lambda>(r, sec, csect, fp', s'). r = FR_OK \<and>
     sec = clst2sect s (cs ! q) + of_nat k \<and> csect = of_nat k \<and> fp' = fp\<lparr>fclust := cs ! q\<rparr> \<and>
     dstep s s' \<and> same_table s s')"
proof -
  note ok = file_okD [OF assms(1)]
  note l = ok(1)
  define p where "p = unat (fptr fp)"
  have q: "q < length cs" using assms(3) ok(3) by (simp add: q_def less_mult_imp_div_less)
  have k: "k < unat (csize s)" unfolding k_def by (rule sect_pos_less [OF l])
  note fs = file_sect [OF l ok(2) q k]
  have st: "dstep s s" "same_table s s" using dstep_refl [OF l] layD(1) [OF l] by (simp_all add: same_table_def)
  have "k < 65536" using k unat_16_less [of "csize s"] by linarith
  then have csk: "of_nat k = (0::DWORD) \<longleftrightarrow> k = 0"
    by (simp add: word_unat_eq_iff unat_of_nat)
  have "wp (if k = 0 then do {
          (clst, s) \<leftarrow> (if fptr fp = 0 then Some (sclust (fobj fp), s) else get_fat s (fclust fp));
          if clst < 2 then Some (FR_INT_ERR, fp, s)
          else if clst = 0xFFFFFFFF then Some (FR_DISK_ERR, fp, s)
          else Some (FR_OK, fp\<lparr>fclust := clst\<rparr>, s)
        } else Some (FR_OK, fp, s))
      (\<lambda>(r, fp', s'). r = FR_OK \<and> fp' = fp\<lparr>fclust := cs ! q\<rparr> \<and> dstep s s' \<and> same_table s s')"
  proof (cases "k = 0")
    case False
    have "p mod bpc s \<noteq> 0" using False by (auto simp: k_def p_def)
    moreover from this have "0 < p" by (cases "p = 0") auto
    ultimately have "fclust fp = cs ! q"
      using ok(5) prev_div(2) [of p "bpc s"] bpc_pos [OF l] by (simp add: p_def q_def)
    then show ?thesis using False st by simp
  next
    case True
    have b: "p mod bpc s = 0" using True assms(2) by (intro mod_512_boundary) (simp_all add: p_def k_def)
    have ne: "sclust (fobj fp) \<noteq> 0" using ok(2) q by (auto simp: file_chain_def)
    then have ch: "chain (fat_entry s) (n_fatent s) (sclust (fobj fp)) cs" using ok(2) by (simp add: file_chain_def)
    have v: "\<not> cs ! q < 2" "cs ! q \<noteq> 0xFFFFFFFF"
      using fs(4,5) layD(3) [OF l] by (auto simp: not_less gok_def word_less_nat_alt word_le_nat_alt)
    show ?thesis
    proof (cases "p = 0")
      case p0: True
      then have "q = 0" "fptr fp = 0" by (simp_all add: q_def p_def unat_eq_0)
      then show ?thesis using True v chain_hd [OF ch] st by simp
    next
      case False
      have qq: "q = Suc ((p - 1) div bpc s)"
        using prev_div(1) [OF _ bpc_pos [OF l] b] False by (simp add: q_def p_def)
      have fc: "fclust fp = cs ! (q - 1)" using ok(5) False qq by (simp add: p_def)
      have "fat_entry s (fclust fp) = cs ! q" using chain_nth [OF ch, of "q - 1"] q qq fc by simp
      moreover have "2 \<le> fclust fp" "fclust fp < n_fatent s"
        using chain_range [OF ch, of "fclust fp"] q qq fc by simp_all
      ultimately have "wp (get_fat s (fclust fp)) (\<lambda>(c, s'). c = cs ! q \<and> dstep s s' \<and> same_table s s')"
        by (intro get_fat_lay [OF l]) simp
      then show ?thesis
        using True False v by (auto simp: wp_bind p_def unat_eq_0 elim!: wp_mono)
    qed
  qed
  then have "wp (if k = 0 then do {
          (clst, s) \<leftarrow> (if fptr fp = 0 then Some (sclust (fobj fp), s) else get_fat s (fclust fp));
          if clst < 2 then Some (FR_INT_ERR, fp, s)
          else if clst = 0xFFFFFFFF then Some (FR_DISK_ERR, fp, s)
          else Some (FR_OK, fp\<lparr>fclust := clst\<rparr>, s)
        } else Some (FR_OK, fp, s))
      (\<lambda>(r, fp', s'). r = FR_OK \<and> fp' = fp\<lparr>fclust := cs ! q\<rparr> \<and> dstep s s' \<and> same_table s s' \<and>
         clst2sect s' (cs ! q) = clst2sect s (cs ! q))"
    by (rule wp_mono) (auto simp: dstep_def intro: clst2sect_good)
  then show ?thesis
    unfolding f_read_sect_def csect_pos [OF l] k_def [symmetric] Let_def csk wp_bind
    by (rule wp_mono) (use fs(3) in clarsimp)
qed

section \<open>Direct transfers and the window\<close>

lemma nth_splice:
  "off + length w \<le> length b \<Longrightarrow> x < length b \<Longrightarrow>
     (take off b @ w @ drop (off + length w) b) ! x =
       (if off \<le> x \<and> x < off + length w then w ! (x - off) else b ! x)"
  by (auto simp: nth_append min_def)

lemma block_index:
  "512 * d \<le> i \<and> i < 512 * d + 512 \<longleftrightarrow> i div 512 = (d::nat)"
  "i div 512 = d \<Longrightarrow> i - 512 * d = i mod 512"
proof -
  have m: "i = 512 * (i div 512) + i mod 512" "i mod 512 < 512" by simp_all
  show "512 * d \<le> i \<and> i < 512 * d + 512 \<longleftrightarrow> i div 512 = d"
  proof
    assume "512 * d \<le> i \<and> i < 512 * d + 512"
    then show "i div 512 = d" by (intro div_nat_eqI) simp_all
  next
    assume "i div 512 = d"
    then show "512 * d \<le> i \<and> i < 512 * d + 512" using m by linarith
  qed
  show "i div 512 = d \<Longrightarrow> i - 512 * d = i mod 512" using m(1) by linarith
qed

definition run :: "vol \<Rightarrow> LBA_t \<Rightarrow> nat \<Rightarrow> buffer" where
  "run s sec n = map (\<lambda>i. vbyte s (sec + of_nat (i div 512)) (i mod 512)) [0 ..< n]"

lemma run_nth [simp]: "i < n \<Longrightarrow> run s sec n ! i = vbyte s (sec + of_nat (i div 512)) (i mod 512)"
  and length_run [simp]: "length (run s sec n) = n"
  by (simp_all add: run_def)

lemma f_read_direct_exact:
  assumes "vok s" "unat sec + unat cc \<le> DISK_SECTORS" "unat sec < DISK_SECTORS"
    "unat br + 512 * unat cc \<le> length buff"
  shows "f_read_direct s buff br sec cc = Some (RES_OK,
     take (unat br) buff @ run s sec (512 * unat cc) @ drop (unat br + 512 * unat cc) buff)"
    (is "_ = Some (_, ?b)")
proof -
  define m where "m = take (unat br) buff @ disk_bytes (vdisk s) (unat sec * 512) (unat cc * 512) @
     drop (unat br + unat cc * 512) buff"
  have rd: "disk_read (vdisk s) (drop (unat br) buff) sec cc = Some (RES_OK,
      disk_bytes (vdisk s) (unat sec * 512) (unat cc * 512) @ drop (unat cc * 512) (drop (unat br) buff))"
    using assms by (simp add: disk_read_def disk_get_def memwrite_def)
  note wr = window_range [OF assms(2), of "winsect s"]
  have vb: "vbyte s (sec + of_nat (i div 512)) (i mod 512) =
      (if unat (winsect s) = unat sec + i div 512 then win s ! (i mod 512) else vdisk s (unat sec * 512 + i))"
    if "i < 512 * unat cc" for i
  proof -
    have d: "i div 512 < unat cc" using that by (simp add: less_mult_imp_div_less mult.commute)
    then have u: "unat (sec + of_nat (i div 512)) = unat sec + i div 512"
      using assms(2) by (simp add: unat_word_ariths unat_of_nat)
    have "(unat sec + i div 512) * 512 + i mod 512 = unat sec * 512 + i" by simp
    moreover have "sec + of_nat (i div 512) = winsect s \<longleftrightarrow> unat (winsect s) = unat sec + i div 512"
      using u by (auto simp: word_unat_eq_iff)
    ultimately show ?thesis using u d assms(2) by (simp add: vbyte_def add.commute [of i])
  qed
  have mn: "m ! x = (if unat br \<le> x \<and> x < unat br + 512 * unat cc
        then vdisk s (unat sec * 512 + (x - unat br)) else buff ! x)" if "x < length buff" for x
    using that assms(4) unfolding m_def
    by (auto simp: nth_append min_def)
  have bn: "?b ! x = (if unat br \<le> x \<and> x < unat br + 512 * unat cc
        then vbyte s (sec + of_nat ((x - unat br) div 512)) ((x - unat br) mod 512) else buff ! x)"
    if "x < length buff" for x
    using nth_splice [of "unat br" "run s sec (512 * unat cc)" buff x] that assms(4) by auto
  have lm: "length m = length buff" "length ?b = length buff" using assms(4) by (simp_all add: m_def)
  show ?thesis
  proof (cases "wflag s \<noteq> 0 \<and> winsect s - sec < cc")
    case True
    then have r: "unat sec \<le> unat (winsect s)" "unat (winsect s) < unat sec + unat cc" using wr by auto
    define o' where "o' = unat br + 512 * (unat (winsect s) - unat sec)"
    have "unat ((winsect s - sec) * 512) = 512 * (unat (winsect s) - unat sec)"
      using r assms(2) by (simp add: unat_word_ariths wr(2) word_le_nat_alt del: left_diff_distrib_numeral)
    then have o2: "unat br + unat ((winsect s - sec) * 512) = o'" by (simp add: o'_def)
    have "512 * (unat (winsect s) - unat sec) + 512 \<le> 512 * unat cc"
    proof -
      have "512 * (unat (winsect s) - unat sec + 1) \<le> 512 * unat cc"
        using r by (intro mult_le_mono2) linarith
      then show ?thesis by simp
    qed
    then have o3: "o' + 512 \<le> unat br + 512 * unat cc" "o' + 512 \<le> length m"
      using assms(4) lm by (simp_all add: o'_def)
    have e: "f_read_direct s buff br sec cc = Some (RES_OK, take o' m @ win s @ drop (o' + 512) m)"
      unfolding f_read_direct_def rd using True o2 o3(2) vok_length [OF assms(1)]
      by (simp add: m_def memread_def memwrite_def add.commute del: left_diff_distrib_numeral)
    have "take o' m @ win s @ drop (o' + 512) m = ?b"
    proof (rule nth_equalityI)
      show "length (take o' m @ win s @ drop (o' + 512) m) = length ?b"
        using o3(2) lm vok_length [OF assms(1)] by simp
      fix x assume x: "x < length (take o' m @ win s @ drop (o' + 512) m)"
      then have x': "x < length buff" "x < length m" using o3(2) lm vok_length [OF assms(1)] by simp_all
      have ol: "(take o' m @ win s @ drop (o' + 512) m) ! x = (if o' \<le> x \<and> x < o' + 512 then win s ! (x - o') else m ! x)"
        using nth_splice [of o' "win s" m x] o3(2) x'(2) vok_length [OF assms(1)] by simp
      show "(take o' m @ win s @ drop (o' + 512) m) ! x = ?b ! x"
      proof (cases "unat br \<le> x \<and> x < unat br + 512 * unat cc")
        case in_run: True
        define i where "i = x - unat br"
        have "o' \<le> x \<and> x < o' + 512 \<longleftrightarrow> i div 512 = unat (winsect s) - unat sec"
          unfolding block_index(1) [symmetric] using in_run by (auto simp: o'_def i_def)
        moreover have "i div 512 = unat (winsect s) - unat sec \<longleftrightarrow> unat (winsect s) = unat sec + i div 512"
          using r by auto
        moreover have "i div 512 = unat (winsect s) - unat sec \<Longrightarrow> x - o' = i mod 512"
          using block_index(2) [of i "unat (winsect s) - unat sec"] by (simp add: o'_def i_def)
        moreover have "i < 512 * unat cc" using in_run unfolding i_def by linarith
        ultimately show ?thesis
          unfolding ol mn [OF x'(1)] bn [OF x'(1)] using in_run vb [of i] by (simp add: i_def [symmetric])
      next
        case False
        then show ?thesis unfolding ol mn [OF x'(1)] bn [OF x'(1)] using o3(1) by (auto simp: o'_def)
      qed
    qed
    then show ?thesis using e by simp
  next
    case False
    have "f_read_direct s buff br sec cc = Some (RES_OK, m)"
      unfolding f_read_direct_def rd using False by (auto simp: m_def add.commute)
    moreover have "m = ?b"
    proof (rule nth_equalityI)
      fix x assume x: "x < length m"
      have "unat (winsect s) \<noteq> unat sec + i div 512 \<or> win s ! (i mod 512) = vdisk s (unat sec * 512 + i)"
        if "i < 512 * unat cc" for i
      proof (cases "unat (winsect s) = unat sec + i div 512")
        case True
        have d: "i div 512 < unat cc" using that by (simp add: less_mult_imp_div_less mult.commute)
        then have "wflag s = 0" using False wr(1) True by auto
        then have "win s ! (i mod 512) = vdisk s (unat (winsect s) * 512 + i mod 512)"
          using assms(1,2) True d by (simp add: vok_def coh_def)
        then show ?thesis using True by (simp add: add.commute [of i])
      qed simp
      then show "m ! x = ?b ! x"
        using x lm unfolding mn [OF x [unfolded lm]] bn [OF x [unfolded lm]] by (auto simp: vb)
    qed (use lm in simp)
    ultimately show ?thesis by simp
  qed
qed

lemma move_window_data:
  assumes "lay s" "unat n < DISK_SECTORS"
    and "\<And>s'. \<lbrakk>dstep s s'; same_table s s'; winsect s' = n;
            in_data s n \<Longrightarrow> \<forall>j<512. win s' ! j = vbyte s n j\<rbrakk> \<Longrightarrow> Q (FR_OK, s')"
  shows "wp (move_window s n) Q"
proof (rule move_window_lay [OF assms(1,2)])
  fix s' assume s': "lay s'" "good_win s s'" "fkeep s s'" "dkeep s s'" "winsect s' = n"
  have g: "good s s'" using s'(2) by (simp add: good_win_def)
  have "same_table s s'"
    using fat_entry_keep [OF s'(3) g layD(3,5) [OF assms(1)]] layD(1) [OF s'(1)] fat_rest_good [OF g] s'(2)
    by (simp add: same_table_def good_win_def)
  moreover have "\<forall>j<512. win s' ! j = vbyte s n j" if "in_data s n"
    using s'(4,5) in_data_above [OF assms(1) that] by (auto simp: dkeep_def vbyte_def)
  ultimately show "Q (FR_OK, s')" using s' g by (intro assms(3)) (auto simp: dstep_def)
qed

lemma content_run:
  assumes "k + c \<le> unat (csize s)"
  shows "content s cs (bpc s * q + 512 * k) (512 * c) = run s (clst2sect s (cs ! q) + of_nat k) (512 * c)"
proof (rule nth_equalityI)
  fix i assume "i < length (content s cs (bpc s * q + 512 * k) (512 * c))"
  then have i: "i < 512 * c" by simp
  have d: "i div 512 < c" using i by (simp add: less_mult_imp_div_less mult.commute)
  have e: "bpc s * q + 512 * k + i = bpc s * q + 512 * (k + i div 512) + i mod 512" by simp
  have "fbyte s cs (bpc s * q + 512 * k + i) = vbyte s (clst2sect s (cs ! q) + of_nat (k + i div 512)) (i mod 512)"
    unfolding e using d assms by (intro fbyte_pos) simp_all
  then show "content s cs (bpc s * q + 512 * k) (512 * c) ! i = run s (clst2sect s (cs ! q) + of_nat k) (512 * c) ! i"
    using i by (simp add: content_def add.assoc)
qed simp

lemma content_win:
  assumes "k < unat (csize s)" "j + n \<le> 512"
    and "\<forall>x<512. w ! x = vbyte s (clst2sect s (cs ! q) + of_nat k) x" "length w = 512"
  shows "take n (drop j w) = content s cs (bpc s * q + 512 * k + j) n"
proof (rule nth_equalityI)
  fix i assume "i < length (take n (drop j w))"
  then have i: "i < n" by simp
  have "fbyte s cs (bpc s * q + 512 * k + (j + i)) = vbyte s (clst2sect s (cs ! q) + of_nat k) (j + i)"
    using i assms(1,2) by (intro fbyte_pos) simp_all
  then show "take n (drop j w) ! i = content s cs (bpc s * q + 512 * k + j) n ! i"
    using i assms by (simp add: content_def add.assoc)
qed (use assms in simp)

lemma f_read_partial_exact:
  fixes btr br :: DWORD
  assumes "lay s" "file_chain s c cs" "0 < btr" "unat br + unat btr \<le> length buff"
    and p: "unat (fptr fp) = bpc s * q + 512 * k + j" "k < unat (csize s)" "j < 512" "q < length cs"
    and "fsect fp = clst2sect s (cs ! q) + of_nat k"
  shows "wp (f_read_partial s fp buff btr br) (\<lambda>(r, cnt, b', s'). r = FR_OK \<and> 0 < unat cnt \<and>
     unat cnt \<le> unat btr \<and> j + unat cnt \<le> 512 \<and>
     b' = take (unat br) buff @ content s cs (unat (fptr fp)) (unat cnt) @ drop (unat br + unat cnt) buff \<and>
     dstep s s' \<and> same_table s s')"
proof -
  note fs = file_sect [OF assms(1,2) p(4,2)]
  have j: "unat (fptr fp mod 512) = j" unfolding unat_32_mod p(1) by (rule pos_arith(3) [OF p(2,3)])
  define cnt where "cnt = (if 512 - fptr fp mod 512 > btr then btr else 512 - fptr fp mod 512)"
  note pc = part_count [OF assms(3) cnt_def, unfolded j]
  show ?thesis
    unfolding f_read_partial_def Let_def cnt_def [symmetric] wp_bind assms(9) j
  proof (rule move_window_data [OF assms(1) fs(2)], goal_cases)
    case (1 s')
    have lw: "length (win s') = 512" using 1(1) layD(2) by (auto simp: dstep_def)
    have "take (unat cnt) (drop j (win s')) = content s cs (unat (fptr fp)) (unat cnt)"
      unfolding p(1) using 1(4) fs(1) pc p lw by (intro content_win) simp_all
    then show ?case
      using 1(1,2) pc lw assms(4) by (simp add: memread_def memwrite_def)
  qed
qed

lemma file_ok_advance:
  fixes cnt :: DWORD
  assumes "file_ok s fp cs" "dstep s s'" "same_table s s'"
    and p: "unat (fptr fp) = bpc s * q + 512 * k + j" "k < unat (csize s)" "j < 512"
    and "fobj fp' = fobj fp" "fclust fp' = cs ! q" "0 < unat cnt" "512 * k + j + unat cnt \<le> bpc s"
    and "unat (fptr fp) + unat cnt \<le> unat (objsize (fobj fp))"
    and "(j + unat cnt) mod 512 \<noteq> 0 \<Longrightarrow> j + unat cnt < 512 \<and> fsect fp' = clst2sect s (cs ! q) + of_nat k"
  shows "file_ok s' (fp'\<lparr>fptr := fptr fp + cnt\<rparr>) cs"
proof -
  have g: "good s s'" and l': "lay s'" using assms(2) by (simp_all add: dstep_def)
  have b: "bpc s' = bpc s" using g by (simp add: bpc_def goodD)
  note ok = file_okD [OF assms(1)]
  have "unat (fptr fp) + unat cnt < 2 ^ 32"
    using le_less_trans [OF assms(11) unat_32_less] by simp
  then have u: "unat (fptr fp + cnt) = unat (fptr fp) + unat cnt" by (simp add: unat_word_ariths)
  have "unat (fptr fp) + unat cnt - 1 = bpc s * q + (512 * k + j + unat cnt - 1)"
    using p(1) assms(9) by linarith
  moreover have "512 * k + j + unat cnt - 1 < bpc s" using assms(9,10) by linarith
  ultimately have d: "(unat (fptr fp) + unat cnt - 1) div bpc s = q"
    by (metis add.right_neutral bpc_pos div_less div_mult_self4 less_irrefl ok(1))
  have m: "(unat (fptr fp) + unat cnt) mod 512 = (j + unat cnt) mod 512"
  proof -
    have "unat (fptr fp) + unat cnt = 512 * (unat (csize s) * q + k) + (j + unat cnt)"
      using p(1) by (simp add: bpc_def algebra_simps)
    then show ?thesis by (simp only: mod_mult_self4)
  qed
  have s: "fsect fp' = clst2sect s (cs ! ((unat (fptr fp) + unat cnt) div bpc s)) +
       of_nat ((unat (fptr fp) + unat cnt) mod bpc s div 512)" if "(unat (fptr fp) + unat cnt) mod 512 \<noteq> 0"
  proof -
    have j: "j + unat cnt < 512" "fsect fp' = clst2sect s (cs ! q) + of_nat k" using assms(12) that m by auto
    have e: "unat (fptr fp) + unat cnt = bpc s * q + 512 * k + (j + unat cnt)" using p(1) by simp
    show ?thesis unfolding e pos_arith [OF p(2) j(1)] by (rule j(2))
  qed
  show ?thesis
    unfolding file_ok_def
    using ok(2,3) l' assms(7,8,11) d u s b file_chain_keep [OF assms(3)] clst2sect_good [OF g] by simp
qed


text \<open>\<open>rstep\<close>: one round of the loop of \<open>f_read\<close> delivers the next \<open>cnt\<close> bytes of the file.\<close>

definition rstep :: "vol \<Rightarrow> FIL \<Rightarrow> DWORD list \<Rightarrow> buffer \<Rightarrow> UINT \<Rightarrow> UINT \<Rightarrow>
    FRESULT \<times> UINT \<times> FIL \<times> buffer \<times> vol \<Rightarrow> bool" where
  "rstep s fp cs buff btr br = (\<lambda>(r, cnt, fp', b', s'). r = FR_OK \<and> 0 < unat cnt \<and> unat cnt \<le> unat btr \<and>
     b' = take (unat br) buff @ content s cs (unat (fptr fp)) (unat cnt) @ drop (unat br + unat cnt) buff \<and>
     dstep s s' \<and> same_table s s' \<and> fobj fp' = fobj fp \<and> fptr fp' = fptr fp \<and>
     file_ok s' (fp'\<lparr>fptr := fptr fp + cnt\<rparr>) cs)"

text \<open>\<open>at_pos s fp cs q k j\<close>: the file pointer is before the end of the file, at byte \<open>j\<close> of sector
  \<open>k\<close> of the cluster with index \<open>q\<close>.\<close>

definition at_pos :: "vol \<Rightarrow> FIL \<Rightarrow> DWORD list \<Rightarrow> nat \<Rightarrow> nat \<Rightarrow> nat \<Rightarrow> bool" where
  "at_pos s fp cs q k j \<longleftrightarrow> file_ok s fp cs \<and> unat (fptr fp) = bpc s * q + 512 * k + j \<and>
     k < unat (csize s) \<and> j < 512 \<and> q < length cs"

lemma at_pos_cases:
  assumes "file_ok s fp cs" "unat (fptr fp) < unat (objsize (fobj fp))"
  obtains q k j where "at_pos s fp cs q k j"
proof -
  note ok = file_okD [OF assms(1)]
  obtain q k j where p: "unat (fptr fp) = bpc s * q + 512 * k + j" "k < unat (csize s)" "j < 512"
    by (rule pos_cases [OF ok(1)])
  have "unat (fptr fp) < length cs * bpc s" using assms(2) ok(3) by linarith
  then have "q < length cs" using pos_arith(1) [OF p(2,3), of q] p(1) by (metis less_mult_imp_div_less)
  then show ?thesis using that assms(1) p by (simp add: at_pos_def)
qed

lemma at_posD:
  assumes "at_pos s fp cs q k j"
  shows "file_ok s fp cs" "lay s" "file_chain s (sclust (fobj fp)) cs" "q < length cs" "k < unat (csize s)"
    "unat (fptr fp) = bpc s * q + 512 * k + j" "j < 512" "512 * k + 512 \<le> bpc s"
    "unat (fptr fp) div bpc s = q" "unat (fptr fp) mod bpc s div 512 = k" "unat (fptr fp) mod 512 = j"
    "0 < k + j \<Longrightarrow> fclust fp = cs ! q"
    "0 < j \<Longrightarrow> fsect fp = clst2sect s (cs ! q) + of_nat k"
proof -
  show ok: "file_ok s fp cs" and p: "q < length cs" "k < unat (csize s)" "unat (fptr fp) = bpc s * q + 512 * k + j" "j < 512"
    using assms by (simp_all add: at_pos_def)
  note okD = file_okD [OF ok]
  show l: "lay s" and "file_chain s (sclust (fobj fp)) cs" using okD by simp_all
  have "512 * (k + 1) \<le> 512 * unat (csize s)" using p(2) by (intro mult_le_mono2) simp
  then show b: "512 * k + 512 \<le> bpc s" by (simp add: bpc_def)
  show pa: "unat (fptr fp) div bpc s = q" "unat (fptr fp) mod bpc s div 512 = k" "unat (fptr fp) mod 512 = j"
    unfolding p(3) using pos_arith [OF p(2,4), of q] by simp_all
  show "fclust fp = cs ! q" if "0 < k + j"
  proof -
    have "unat (fptr fp) mod bpc s = 512 * k + j" using p(3,4) b by (simp add: add.assoc)
    then have "0 < unat (fptr fp)" "unat (fptr fp) mod bpc s \<noteq> 0" using that p(3) by simp_all
    then show ?thesis using okD(5) prev_div(2) [OF _ bpc_pos [OF l]] pa(1) by simp
  qed
  show "fsect fp = clst2sect s (cs ! q) + of_nat k" if "0 < j" using okD(6) pa that by simp
qed

text \<open>The content seen from a state after a step that keeps the file.\<close>

lemma content_keep:
  assumes "dstep s s'" "lay s" "file_chain s c cs" "p + n \<le> length cs * bpc s"
  shows "content s' cs p n = content s cs p n"
  unfolding content_def using assms(4) by (auto intro!: fbyte_keep [OF assms(1-3)])

lemma dstep_facts:
  assumes "dstep s s1"
  shows "good s s1" "lay s1" "bpc s1 = bpc s" "csize s1 = csize s" "clst2sect s1 c = clst2sect s c"
  using assms clst2sect_good [of s s1 c] by (auto simp: dstep_def bpc_def goodD)

lemma f_read_step_partial:
  fixes btr br :: DWORD
  assumes pos: "at_pos s fp cs q k j" and "0 < btr" "unat br + unat btr \<le> length buff"
    and le: "unat (fptr fp) + unat btr \<le> unat (objsize (fobj fp))"
    and s1: "dstep s s1" "same_table s s1"
    and fp1: "fobj fp1 = fobj fp" "fptr fp1 = fptr fp" "fclust fp1 = cs ! q"
      "fsect fp1 = clst2sect s (cs ! q) + of_nat k"
  shows "wp (f_read_partial s1 fp1 buff btr br) (\<lambda>(r, cnt, b', s'). rstep s fp cs buff btr br (r, cnt, fp1, b', s'))"
proof -
  note p = at_posD [OF pos] and d = dstep_facts [OF s1(1)]
  have sz: "unat (objsize (fobj fp)) \<le> length cs * bpc s" by (rule file_okD(3) [OF p(1)])
  have ch: "file_chain s1 (sclust (fobj fp)) cs" using p(3) file_chain_keep [OF s1(2)] by simp
  have "wp (f_read_partial s1 fp1 buff btr br) (\<lambda>(r, cnt, b', s'). r = FR_OK \<and> 0 < unat cnt \<and>
     unat cnt \<le> unat btr \<and> j + unat cnt \<le> 512 \<and>
     b' = take (unat br) buff @ content s1 cs (unat (fptr fp1)) (unat cnt) @ drop (unat br + unat cnt) buff \<and>
     dstep s1 s' \<and> same_table s1 s')"
    using assms(2,3) p fp1 d(3-5) by (intro f_read_partial_exact [OF d(2) ch, of _ _ _ _ q k]) simp_all
  then show ?thesis
  proof (rule wp_mono, clarify)
    fix r and cnt :: DWORD and b' s' assume c: "0 < unat cnt" "unat cnt \<le> unat btr" "j + unat cnt \<le> 512"
      and s': "dstep s1 s'" "same_table s1 s'"
    have t: "dstep s s'" "same_table s s'"
      using dstep_trans [OF s1(1) s'(1)] same_table_trans [OF s1(2) s'(2)] by simp_all
    have ct: "content s1 cs (unat (fptr fp1)) (unat cnt) = content s cs (unat (fptr fp)) (unat cnt)"
      using fp1(2) c(2) le sz content_keep [OF s1(1) p(2,3)] by simp
    have "file_ok s' (fp1\<lparr>fptr := fptr fp + cnt\<rparr>) cs"
      using p(1) t p(6,5,7) fp1(1,3) c(1)
      by (rule file_ok_advance) (use c le p(8) fp1(4) in \<open>auto simp: order_le_less\<close>)
    then show "rstep s fp cs buff btr br (FR_OK, cnt, fp1,
        take (unat br) buff @ content s1 cs (unat (fptr fp1)) (unat cnt) @ drop (unat br + unat cnt) buff, s')"
      using c t fp1 ct by (simp add: rstep_def)
  qed
qed

text \<open>A number of sectors within a cluster, as a word.\<close>

lemma unat_of_sect: "k < unat (csize s) \<Longrightarrow> unat (of_nat k :: DWORD) = k"
  using less_trans [OF _ unat_16_less, of k "csize s"] by (subst unat_of_nat, subst mod_less) simp_all

lemma f_read_step_direct:
  fixes btr br :: DWORD
  assumes pos: "at_pos s fp cs q k 0" and "unat br + unat btr \<le> length buff"
    and le: "unat (fptr fp) + unat btr \<le> unat (objsize (fobj fp))"
    and s1: "dstep s s1" "same_table s s1"
    and cc: "cc = clip_count s1 (of_nat k) (btr div 512)" "0 < btr div 512"
  shows "wp (f_read_direct s1 buff br (clst2sect s (cs ! q) + of_nat k) cc)
        (\<lambda>(r, b'). r = RES_OK \<and> rstep s fp cs buff btr br (FR_OK, 512 * cc, fp\<lparr>fclust := cs ! q\<rparr>, b', s1))"
proof -
  note p = at_posD [OF pos] and d = dstep_facts [OF s1(1)]
  note cb = clip_count_bounds [of "of_nat k" s1 btr, folded cc(1), unfolded unat_of_sect [OF p(5)] d(4), OF p(5) cc(2)]
  define S where "S = clst2sect s (cs ! q) + of_nat k"
  note fs = file_sect [OF p(2,3,4,5), folded S_def]
  have sz: "unat (objsize (fobj fp)) \<le> length cs * bpc s" by (rule file_okD(3) [OF p(1)])
  have "unat S + unat cc \<le> DISK_SECTORS"
    using clst2sect_lay(2) [OF p(2) fs(4,5) p(5)] clst2sect_lay(3) [OF p(2) fs(4,5) cb(5)] unfolding S_def by linarith
  then have rd: "f_read_direct s1 buff br S cc = Some (RES_OK,
     take (unat br) buff @ run s1 S (512 * unat cc) @ drop (unat br + 512 * unat cc) buff)"
    using fs(2) cb(2) assms(2) layD(2) [OF d(2)] by (intro f_read_direct_exact) auto
  have "run s1 S (512 * unat cc) = content s1 cs (unat (fptr fp)) (512 * unat cc)"
    unfolding S_def p(6) using content_run [of k "unat cc" s1 cs q] cb(5) d(3,4) dstep_facts(5) [OF s1(1)]
    by simp
  also have "\<dots> = content s cs (unat (fptr fp)) (512 * unat cc)"
    using cb(2) le sz by (intro content_keep [OF s1(1) p(2,3)]) simp
  finally have ru: "run s1 S (512 * unat cc) = content s cs (unat (fptr fp)) (512 * unat cc)" .
  have "512 * (k + unat cc) \<le> bpc s" unfolding bpc_def using cb(5) by simp
  then have "file_ok s1 ((fp\<lparr>fclust := cs ! q\<rparr>)\<lparr>fptr := fptr fp + 512 * cc\<rparr>) cs"
    using cb(1,2,4) le by (intro file_ok_advance [OF p(1) s1 p(6,5,7)]) simp_all
  then show ?thesis
    unfolding S_def [symmetric] rd using cb s1 ru by (simp add: rstep_def)
qed

lemma fptr_mod: "unat (fptr fp) mod 512 = j \<Longrightarrow> fptr fp mod 512 = 0 \<longleftrightarrow> j = 0"
  using unat_32_mod [of "fptr fp"] by (metis unat_0 unat_eq_0)

lemma f_read_step_exact:
  fixes btr br :: DWORD
  assumes "file_ok s fp cs" "0 < btr" "unat br + unat btr \<le> length buff"
    and le: "unat (fptr fp) + unat btr \<le> unat (objsize (fobj fp))"
  shows "wp (f_read_step s fp buff btr br) (rstep s fp cs buff btr br)"
proof -
  have lt: "unat (fptr fp) < unat (objsize (fobj fp))" using le assms(2) by (simp add: word_less_nat_alt)
  from at_pos_cases [OF assms(1) lt] obtain q k j where pos: "at_pos s fp cs q k j" .
  note p = at_posD [OF pos]
  note par = f_read_step_partial [OF pos assms(2,3) le]
  show ?thesis
  proof (cases "j = 0")
    case False
    then show ?thesis
      unfolding f_read_step_def
      using par [OF dstep_refl [OF p(2)] _ refl refl p(12,13)] layD(1) [OF p(2)] fptr_mod [OF p(11)]
      by (simp add: wp_bind same_table_def case_prod_unfold)
  next
    case True
    note dir = f_read_step_direct [OF pos [unfolded True] assms(3) le]
    have "wp (f_read_sect s fp) (\<lambda>(r, sec, csect, fp', s'). r = FR_OK \<and>
       sec = clst2sect s (cs ! q) + of_nat k \<and> csect = of_nat k \<and> fp' = fp\<lparr>fclust := cs ! q\<rparr> \<and>
       dstep s s' \<and> same_table s s')"
      using f_read_sect_exact [OF assms(1) _ lt] p True by simp
    then have "wp (f_read_sect s fp) (\<lambda>(r, sec, csect, fp, s). wp (if r \<noteq> FR_OK then Some (r, 0, fp, buff, s)
        else if 0 < btr div 512 then do {
            (r, b) \<leftarrow> f_read_direct s buff br sec (clip_count s csect (btr div 512));
            if r \<noteq> RES_OK then Some (FR_DISK_ERR, 0, fp, b, s)
            else Some (FR_OK, 512 * clip_count s csect (btr div 512), fp, b, s) }
          else do {
            (res, rcnt, b, s) \<leftarrow> f_read_partial s (fp\<lparr>fsect := sec\<rparr>) buff btr br;
            Some (res, rcnt, fp\<lparr>fsect := sec\<rparr>, b, s) }) (rstep s0 fp0 cs buff btr br))"
      if "s0 = s" "fp0 = fp" for s0 fp0
    proof (rule wp_mono, clarify, goal_cases)
      case (1 r sec csect fp' s1)
      show ?case
        using dir [OF 1(2,3) refl]
          par [OF 1(2,3), of "fp\<lparr>fclust := cs ! q, fsect := clst2sect s (cs ! q) + of_nat k\<rparr>"] that
        by (cases "0 < btr div 512") (auto simp: wp_bind elim!: wp_mono)
    qed
    from this [OF refl refl] show ?thesis
      unfolding f_read_step_def Let_def using fptr_mod [OF p(11)] True
      by (simp only: wp_bind wp_case_prod if_True simp_thms)
  qed
qed

lemma splice_splice:
  assumes "o' + length x \<le> length b"
  shows "take (o' + length x) (take o' b @ x @ drop (o' + length x) b) @ y @
      drop (o' + length x + n) (take o' b @ x @ drop (o' + length x) b) =
    take o' b @ (x @ y) @ drop (o' + length x + n) b"
  using assms by (simp add: min_absorb2 add.commute add.left_commute)

definition rdone :: "vol \<Rightarrow> FIL \<Rightarrow> DWORD list \<Rightarrow> buffer \<Rightarrow> UINT \<Rightarrow> UINT \<Rightarrow>
    FRESULT \<times> FIL \<times> buffer \<times> UINT \<times> vol \<Rightarrow> bool" where
  "rdone s fp cs buff btr br = (\<lambda>(r, fp', b', br', s'). r = FR_OK \<and> br' = br + btr \<and>
     b' = take (unat br) buff @ content s cs (unat (fptr fp)) (unat btr) @ drop (unat br + unat btr) buff \<and>
     dstep s s' \<and> same_table s s' \<and> fobj fp' = fobj fp \<and> fptr fp' = fptr fp + btr \<and> file_ok s' fp' cs)"

lemma f_read_loop_exact:
  fixes btr br :: DWORD
  assumes "file_ok s fp cs" "unat br + unat btr \<le> length buff" "unat br + unat btr < 2 ^ 32"
    and "unat (fptr fp) + unat btr \<le> unat (objsize (fobj fp))"
  shows "wp (f_read_loop s fp buff btr br) (rdone s fp cs buff btr br)"
  using assms
proof (induction "unat btr" arbitrary: s fp buff btr br rule: less_induct)
  case less
  note ok = file_okD [OF less.prems(1)]
  show ?case
  proof (cases "0 < btr")
    case False
    then show ?thesis
      using less.prems(1) dstep_refl [OF ok(1)] layD(1) [OF ok(1)] less.prems(2)
      by (subst f_read_loop.simps) (simp add: rdone_def not_less same_table_def content_def)
  next
    case True
    have "wp (f_read_loop s1 (fp1\<lparr>fptr := fptr fp1 + cnt\<rparr>) b1 (btr - cnt) (br + cnt)) (rdone s fp cs buff btr br)"
      if st: "rstep s fp cs buff btr br (r, cnt, fp1, b1, s1)" for r cnt fp1 b1 s1
    proof -
      from st have c: "0 < unat cnt" "unat cnt \<le> unat btr" "dstep s s1" "same_table s s1" "fobj fp1 = fobj fp"
        "fptr fp1 = fptr fp" "file_ok s1 (fp1\<lparr>fptr := fptr fp1 + cnt\<rparr>) cs"
        and b1: "b1 = take (unat br) buff @ content s cs (unat (fptr fp)) (unat cnt) @ drop (unat br + unat cnt) buff"
        by (simp_all add: rstep_def)
      have lb: "length b1 = length buff" unfolding b1 using c(2) less.prems(2) by simp
      note cs = count_step [OF c(1,2) less.prems(2)] 
      have u: "unat (fptr fp + cnt) = unat (fptr fp) + unat cnt"
        using le_less_trans [OF less.prems(4) unat_32_less] c(2) by (simp add: unat_word_ariths)
      have "wp (f_read_loop s1 (fp1\<lparr>fptr := fptr fp1 + cnt\<rparr>) b1 (btr - cnt) (br + cnt))
         (rdone s1 (fp1\<lparr>fptr := fptr fp1 + cnt\<rparr>) cs b1 (btr - cnt) (br + cnt))"
        using cs less.prems(3,4) c u lb by (intro less.hyps) simp_all
      then show ?thesis
      proof (rule wp_mono)
        fix y assume y: "rdone s1 (fp1\<lparr>fptr := fptr fp1 + cnt\<rparr>) cs b1 (btr - cnt) (br + cnt) y"
        have "content s1 cs (unat (fptr fp + cnt)) (unat btr - unat cnt) = content s cs (unat (fptr fp) + unat cnt) (unat btr - unat cnt)"
          unfolding content_def u using less.prems(4) ok(3) c(2)
          by (auto intro!: fbyte_keep [OF c(3) ok(1,2)])
        then have "take (unat (br + cnt)) b1 @ content s1 cs (unat (fptr fp + cnt)) (unat (btr - cnt)) @ drop (unat (br + cnt) + unat (btr - cnt)) b1
          = take (unat br) buff @ content s cs (unat (fptr fp)) (unat btr) @ drop (unat br + unat btr) buff"
          using cs(5,6) c(2) less.prems(2,3) content_append [of s cs "unat (fptr fp)" "unat cnt" "unat btr - unat cnt"]
            splice_splice [of "unat br" "content s cs (unat (fptr fp)) (unat cnt)" buff
              "content s cs (unat (fptr fp) + unat cnt) (unat btr - unat cnt)" "unat btr - unat cnt"]
          by (simp add: b1)
        then show "rdone s fp cs buff btr br y"
          using y c dstep_trans [OF c(3)] same_table_trans [OF c(4)] by (auto simp: rdone_def)
      qed
    qed
    then show ?thesis
      using f_read_step_exact [OF less.prems(1) True less.prems(2,4)] True
      by (subst f_read_loop.simps) (auto simp: wp_bind rstep_def elim!: wp_mono)
  qed
qed

text \<open>\<open>f_read\<close> as a whole: \<open>btr\<close> bytes, or what is left of the file, from the file pointer on.\<close>

lemma f_read_exact:
  fixes btr :: DWORD
  assumes "validate sy (fobj fp) = (FR_OK, Some a)" "ferr fp = FR_OK" "fflag fp AND FA_READ \<noteq> 0"
    and "file_ok (load_vol sy a) fp cs" "unat btr \<le> length buff"
  defines "n \<equiv> min (unat btr) (unat (objsize (fobj fp)) - unat (fptr fp))"
  shows "wp (f_read sy fp buff btr) (\<lambda>(r, fp', buff', br, sy'). r = FR_OK \<and> unat br = n \<and>
     buff' = content (load_vol sy a) cs (unat (fptr fp)) n @ drop n buff \<and>
     fobj fp' = fobj fp \<and> unat (fptr fp') = unat (fptr fp) + n \<and>
     (\<exists>s'. sy' = store_vol sy a s' \<and> file_ok s' fp' cs \<and> dstep (load_vol sy a) s' \<and> same_table (load_vol sy a) s'))"
proof -
  note ok = file_okD [OF assms(4)]
  define m where "m = (if btr > objsize (fobj fp) - fptr fp then objsize (fobj fp) - fptr fp else btr)"
  have d: "unat (objsize (fobj fp) - fptr fp) = unat (objsize (fobj fp)) - unat (fptr fp)"
    using ok(4) by (simp add: unat_sub word_le_nat_alt)
  have m: "unat m = n" by (auto simp: m_def n_def d word_less_nat_alt)
  have le: "unat (fptr fp) + unat m \<le> unat (objsize (fobj fp))" using ok(4) m by (auto simp: n_def)
  have ml: "unat m \<le> length buff" using assms(5) m by (simp add: n_def)
  have u: "unat (fptr fp + m) = unat (fptr fp) + unat m"
    using le_less_trans [OF le unat_32_less] by (simp add: unat_word_ariths)
  have "wp (f_read_loop (load_vol sy a) fp buff m 0) (rdone (load_vol sy a) fp cs buff m 0)"
    using ml le unat_32_less [of m] by (intro f_read_loop_exact [OF assms(4)]) simp_all
  then show ?thesis
    unfolding f_read_def assms(1) using assms(2,3)
    by (auto simp: wp_bind Let_def m_def [symmetric] rdone_def m u elim!: wp_mono)
qed

end
