(* ===== verification/FF_WriteSpec.thy ===== *)
theory FF_WriteSpec
  imports FF_ReadSpec
begin

text \<open>
  The functional correctness of \<open>f_write\<close>: the bytes of the caller appear in the file at the
  file pointer, the rest of the file and all other files are as before, and the chain grows by
  free clusters only.
\<close>

section \<open>The data area as a sequence of bytes\<close>

definition dlin :: "vol \<Rightarrow> nat \<Rightarrow> BYTE" where
  "dlin s L = vbyte s (of_nat (L div 512)) (L mod 512)"

definition faddr :: "vol \<Rightarrow> DWORD list \<Rightarrow> nat \<Rightarrow> nat" where
  "faddr s cs i = 512 * unat (database s) + bpc s * (unat (cs ! (i div bpc s)) - 2) + i mod bpc s"

lemma faddr_sect:
  assumes "lay s" "file_chain s c cs" "q < length cs" "k < unat (csize s)" "j < 512"
  shows "faddr s cs (bpc s * q + 512 * k + j) = 512 * unat (clst2sect s (cs ! q) + of_nat k) + j"
proof -
  note fs = file_sect [OF assms(1-4)]
  have lt: "512 * k + j < bpc s"
  proof -
    have "512 * (k + 1) \<le> 512 * unat (csize s)" using assms(4) by (intro mult_le_mono2) simp
    then show ?thesis using assms(5) by (simp add: bpc_def)
  qed
  have "(bpc s * q + (512 * k + j)) div bpc s = q" "(bpc s * q + (512 * k + j)) mod bpc s = 512 * k + j"
    using lt by simp_all
  then show ?thesis
    unfolding faddr_def clst2sect_lay(2) [OF assms(1) fs(4,5) assms(4)]
    by (simp add: bpc_def algebra_simps)
qed

lemma fbyte_lin:
  assumes "lay s" "file_chain s c cs" "i < length cs * bpc s"
  shows "fbyte s cs i = dlin s (faddr s cs i)" "512 * unat (database s) \<le> faddr s cs i" "faddr s cs i < DISK_SIZE"
proof -
  obtain q k j where p: "i = bpc s * q + 512 * k + j" "k < unat (csize s)" "j < 512"
    by (rule pos_cases [OF assms(1)])
  have "q < length cs" using assms(3) pos_arith(1) [OF p(2,3), of q] p(1) by (metis less_mult_imp_div_less)
  note f = faddr_sect [OF assms(1,2) this p(2,3)] and fs = file_sect [OF assms(1,2) this p(2)]
  have d: "(512 * unat (clst2sect s (cs ! q) + of_nat k) + j) div 512 = unat (clst2sect s (cs ! q) + of_nat k)"
    "(512 * unat (clst2sect s (cs ! q) + of_nat k) + j) mod 512 = j"
    using p(3) by simp_all
  show "fbyte s cs i = dlin s (faddr s cs i)"
    unfolding dlin_def p(1) f d fbyte_pos [OF p(2,3)] by simp
  show "512 * unat (database s) \<le> faddr s cs i" by (simp add: faddr_def)
  show "faddr s cs i < DISK_SIZE" unfolding p(1) f using fs(2) p(3) by simp
qed

text \<open>The bytes of one cluster are together, those of different clusters apart.\<close>

lemma faddr_same:
  assumes "i div bpc s = i' div bpc s"
  shows "faddr s cs i + i' = faddr s cs i' + i"
proof -
  have "i = bpc s * (i div bpc s) + i mod bpc s" by simp
  moreover have "i' = bpc s * (i div bpc s) + i' mod bpc s" unfolding assms by simp
  ultimately show ?thesis unfolding faddr_def assms by linarith
qed

lemma faddr_apart:
  assumes "lay s" "2 \<le> a" "2 \<le> b" "a \<noteq> (b::DWORD)" "x < bpc s" "y < bpc s"
  shows "bpc s * (unat a - 2) + x \<noteq> bpc s * (unat b - 2) + y"
proof
  assume "bpc s * (unat a - 2) + x = bpc s * (unat b - 2) + y"
  then have "(bpc s * (unat a - 2) + x) div bpc s = (bpc s * (unat b - 2) + y) div bpc s" by simp
  then have "unat a - 2 = unat b - 2" using assms(5,6) by simp
  then show False using assms(2-4) by (simp add: word_le_nat_alt word_unat_eq_iff)
qed

section \<open>Writing into the data area\<close>

text \<open>\<open>rkeep s s'\<close>: the sectors between the FATs and the data area, those of a fixed root directory, are kept.
  \<open>wput s s' a bs e\<close>: from \<open>s\<close> to \<open>s'\<close> the bytes \<open>bs\<close> are written at address \<open>a\<close> of the data area;
  the \<open>e\<close> bytes after them have any value, the rest of the data area and the FAT are kept.\<close>

definition rkeep :: "vol \<Rightarrow> vol \<Rightarrow> bool" where
  "rkeep s s' \<longleftrightarrow> (\<forall>n j. above s n \<longrightarrow> unat n < unat (database s) \<longrightarrow> j < 512 \<longrightarrow> vbyte s' n j = vbyte s n j)"

lemma dstep_rkeep: "dstep s s' \<Longrightarrow> rkeep s s'"
  by (simp add: rkeep_def dstep_def dkeep_def)

lemma rkeep_trans: "good s s1 \<Longrightarrow> rkeep s s1 \<Longrightarrow> rkeep s1 s2 \<Longrightarrow> rkeep s s2"
  by (auto simp: rkeep_def above_def goodD)

definition wput :: "vol \<Rightarrow> vol \<Rightarrow> nat \<Rightarrow> buffer \<Rightarrow> nat \<Rightarrow> bool" where
  "wput s s' a bs e \<longleftrightarrow> lay s' \<and> good s s' \<and> same_table s s' \<and> rkeep s s' \<and>
     (\<forall>L. 512 * unat (database s) \<le> L \<longrightarrow> L < DISK_SIZE \<longrightarrow>
        (a \<le> L \<and> L < a + length bs \<longrightarrow> dlin s' L = bs ! (L - a)) \<and>
        (L < a \<or> a + length bs + e \<le> L \<longrightarrow> dlin s' L = dlin s L))"

text \<open>A state whose sectors of the FAT have the same bytes has the same table.\<close>

lemma same_tableI:
  assumes "lay s" "good s s'" "wr s'" "last_clst s' = last_clst s" "free_clst s' = free_clst s" "fsi_flag s' = fsi_flag s"
    and "\<And>n j. infat s n \<Longrightarrow> j < 512 \<Longrightarrow> vbyte s' n j = vbyte s n j"
  shows "same_table s s'" "lay s'"
proof -
  show l: "lay s'" by (rule lay_good [OF assms(1-3)])
  have "fkeep s s'" using assms(7) by (auto simp: fkeep_def)
  then show "same_table s s'"
    using fat_entry_keep [OF _ assms(2) layD(3,5) [OF assms(1)]] layD(1) [OF l] fat_rest_good [OF assms(2,4-6)]
    by (simp add: same_table_def)
qed

lemma dlin_sect:
  assumes "512 * unat (database s) \<le> L" "L < DISK_SIZE"
  shows "in_data s (of_nat (L div 512))" "unat (of_nat (L div 512) :: LBA_t) = L div 512"
proof -
  have "L div 512 < 128" using assms(2) by (simp add: less_mult_imp_div_less)
  then show u: "unat (of_nat (L div 512) :: LBA_t) = L div 512" by (simp add: unat_of_nat)
  show "in_data s (of_nat (L div 512))"
    unfolding in_data_def u using assms \<open>L div 512 < 128\<close> by (simp add: less_eq_div_iff_mult_less_eq)
qed

text \<open>Writing into the window, when it is at a sector of the data area.\<close>

lemma wput_win:
  assumes "lay s" "in_data s (winsect s)" "j + length bs \<le> 512"
  shows "wput s (s\<lparr>win := take j (win s) @ bs @ drop (j + length bs) (win s), wflag := 1\<rparr>)
           (512 * unat (winsect s) + j) bs 0"
proof -
  let ?w = "take j (win s) @ bs @ drop (j + length bs) (win s)"
  let ?s = "s\<lparr>win := ?w, wflag := 1\<rparr>"
  have lw: "length (win s) = 512" "length ?w = 512" using layD(2) [OF assms(1)] assms(3) by simp_all
  have g: "good s ?s" using lw layD(2) [OF assms(1)] by (intro dirty_good) simp_all
  have nf: "n \<noteq> winsect s" if "infat s n" for n
    using infat_data(1) [OF assms(1) that] assms(2) by auto
  have wr: "wr ?s" using assms(2) by (simp add: in_data_def)
  have st: "same_table s ?s" "lay ?s"
    by (rule same_tableI [OF assms(1) g wr]; use nf in \<open>auto simp: vbyte_def\<close>)+
  have rk: "rkeep s ?s" using assms(2) by (auto simp: rkeep_def vbyte_def in_data_def)
  have dl: "dlin ?s L = (if L div 512 = unat (winsect s) then ?w ! (L mod 512) else dlin s L)"
    if "512 * unat (database s) \<le> L" "L < DISK_SIZE" for L
    using dlin_sect [OF that] by (auto simp: dlin_def vbyte_def word_unat_eq_iff)
  have nth: "?w ! x = (if j \<le> x \<and> x < j + length bs then bs ! (x - j) else win s ! x)" if "x < 512" for x
    using nth_splice [of j bs "win s" x] lw assms(3) that by simp
  show ?thesis
    unfolding wput_def
  proof (intro conjI allI impI)
    fix L assume L: "512 * unat (database s) \<le> L" "L < DISK_SIZE"
    have m: "L = 512 * (L div 512) + L mod 512" "L mod 512 < 512" by simp_all
    { assume *: "512 * unat (winsect s) + j \<le> L \<and> L < 512 * unat (winsect s) + j + length bs"
      from * have "512 * unat (winsect s) \<le> L \<and> L < 512 * unat (winsect s) + 512" using assms(3) by linarith
      then have d: "L div 512 = unat (winsect s)" by (simp only: block_index(1))
      then have "j \<le> L mod 512" "L mod 512 < j + length bs" "L mod 512 - j = L - (512 * unat (winsect s) + j)"
        using * m by linarith+
      then show "dlin ?s L = bs ! (L - (512 * unat (winsect s) + j))"
        unfolding dl [OF L] nth [OF m(2)] using d by simp }
    { assume *: "L < 512 * unat (winsect s) + j \<or> 512 * unat (winsect s) + j + length bs + 0 \<le> L"
      have "\<not> (j \<le> L mod 512 \<and> L mod 512 < j + length bs)" if "L div 512 = unat (winsect s)"
        using * m(1) that by linarith
      moreover have "win s ! (L mod 512) = dlin s L" if "L div 512 = unat (winsect s)"
        using that by (simp add: dlin_def vbyte_def)
      ultimately show "dlin ?s L = dlin s L" unfolding dl [OF L] nth [OF m(2)] by auto }
  qed (use st g rk in simp_all)
qed

text \<open>At the growing edge of a file the window moves to the sector without being filled: the
  bytes after those written are not those of the sector.\<close>

lemma wput_edge:
  assumes "lay s" "wflag s = 0" "in_data s S" "length bs \<le> 512"
  shows "wput s (s\<lparr>winsect := S, win := bs @ drop (length bs) (win s), wflag := 1\<rparr>)
           (512 * unat S) bs (512 - length bs)"
proof -
  let ?w = "bs @ drop (length bs) (win s)"
  let ?s = "s\<lparr>winsect := S, win := ?w, wflag := 1\<rparr>"
  have lw: "length (win s) = 512" "length ?w = 512" using layD(2) [OF assms(1)] assms(4) by simp_all
  have g: "good s ?s" using lw by (simp add: good_def vok_def coh_def geo_def)
  have vb: "vbyte ?s n j = (if n = S then ?w ! j else vbyte s n j)" if "unat n < DISK_SECTORS" "j < 512" for n j
    using that layD(2) [OF assms(1)] assms(2) by (auto simp: vbyte_def vok_def coh_def)
  have nf: "n \<noteq> S" if "infat s n" for n
    using infat_data(1) [OF assms(1) that] assms(3) by auto
  have wr: "wr ?s" using assms(3) by (simp add: in_data_def wr_def)
  have st: "same_table s ?s" "lay ?s"
    by (rule same_tableI [OF assms(1) g wr]; use nf vb infat_data(2) [OF assms(1)] in auto)+
  have rk: "rkeep s ?s" using assms(3) vb by (auto simp: rkeep_def in_data_def above_def)
  have dl: "dlin ?s L = (if L div 512 = unat S then ?w ! (L mod 512) else dlin s L)"
    if L: "512 * unat (database s) \<le> L" "L < DISK_SIZE" for L
  proof -
    note n = dlin_sect [OF L]
    have "unat (of_nat (L div 512) :: LBA_t) < DISK_SECTORS" using n(1) by (simp add: in_data_def)
    from vb [OF this, of "L mod 512"] show ?thesis using n(2) by (auto simp: dlin_def word_unat_eq_iff)
  qed
  show ?thesis
    unfolding wput_def
  proof (intro conjI allI impI)
    fix L assume L: "512 * unat (database s) \<le> L" "L < DISK_SIZE"
    have m: "L = 512 * (L div 512) + L mod 512" "L mod 512 < 512" by simp_all
    { assume *: "512 * unat S \<le> L \<and> L < 512 * unat S + length bs"
      then have "512 * unat S \<le> L \<and> L < 512 * unat S + 512" using assms(4) by linarith
      then have d: "L div 512 = unat S" by (simp only: block_index(1))
      then have "L mod 512 = L - 512 * unat S" "L mod 512 < length bs" using * m by linarith+
      then show "dlin ?s L = bs ! (L - 512 * unat S)" unfolding dl [OF L] using d by (simp add: nth_append) }
    { assume "L < 512 * unat S \<or> 512 * unat S + length bs + (512 - length bs) \<le> L"
      then have "\<not> (512 * unat S \<le> L \<and> L < 512 * unat S + 512)" using assms(4) by linarith
      then have "L div 512 \<noteq> unat S" by (simp only: block_index(1) not_False_eq_True)
      then show "dlin ?s L = dlin s L" unfolding dl [OF L] by simp }
  qed (use st g rk in simp_all)
qed

text \<open>The direct transfer of whole sectors.\<close>

lemma f_write_direct_eq:
  fixes cc bw :: DWORD
  assumes "vok s" "unat S < DISK_SECTORS" "unat S + unat cc \<le> DISK_SECTORS" "unat bw + 512 * unat cc \<le> length buff"
  defines "bs \<equiv> take (512 * unat cc) (drop (unat bw) buff)"
  defines "d \<equiv> disk_store (vdisk s) (unat S * 512) bs"
  shows "f_write_direct s buff bw S cc = Some (RES_OK,
     if unat S \<le> unat (winsect s) \<and> unat (winsect s) < unat S + unat cc
     then s\<lparr>vdisk := d, win := take 512 (drop (512 * (unat (winsect s) - unat S)) bs), wflag := 0\<rparr>
     else s\<lparr>vdisk := d\<rparr>)"
proof -
  define k where "k = unat (winsect s) - unat S"
  note wr = window_range [OF assms(3), of "winsect s"]
  have dw: "disk_write (vdisk s) (drop (unat bw) buff) S cc = Some (RES_OK, d)"
    using assms(2-4) by (simp add: disk_write_def disk_put_def memread_def d_def bs_def mult.commute)
  show ?thesis
  proof (cases "unat S \<le> unat (winsect s) \<and> unat (winsect s) < unat S + unat cc")
    case True
    then have k: "k + 1 \<le> unat cc" "k < 128" "unat (winsect s - S) = k"
      using assms(3) wr(2) by (auto simp: k_def word_le_nat_alt)
    have "512 * (k + 1) \<le> 512 * unat cc" using k(1) by (rule mult_le_mono2)
    then have hx: "512 * k + 512 \<le> 512 * unat cc" by simp
    have ux: "unat ((winsect s - S) * 512) = 512 * k"
      using k by (simp add: unat_word_ariths del: left_diff_distrib_numeral)
    have "take 512 (drop (unat bw + 512 * k) buff) = take 512 (drop (512 * k) bs)"
      unfolding bs_def using hx by (simp add: drop_take min_def add.commute)
    moreover have "unat bw + 512 * k + 512 \<le> length buff" using hx assms(4) by linarith
    moreover have "min (length bs - 512 * k) 512 = 512" using hx assms(4) by (simp add: bs_def)
    ultimately show ?thesis
      unfolding f_write_direct_def dw using True wr(1) ux vok_length [OF assms(1)]
      by (simp add: memread_def memwrite_def k_def [symmetric] del: left_diff_distrib_numeral)
  next
    case False
    moreover from this have "\<not> winsect s - S < cc" using wr(1) by auto
    ultimately show ?thesis unfolding f_write_direct_def dw by (auto simp: Let_def)
  qed
qed

lemma f_write_direct_exact:
  fixes cc bw :: DWORD
  assumes "lay s" "in_data s S" "unat S + unat cc \<le> DISK_SECTORS" "unat bw + 512 * unat cc \<le> length buff"
  shows "wp (f_write_direct s buff bw S cc) (\<lambda>(r, s'). r = RES_OK \<and>
     wput s s' (512 * unat S) (take (512 * unat cc) (drop (unat bw) buff)) 0)"
proof -
  define bs where "bs = take (512 * unat cc) (drop (unat bw) buff)"
  have lb: "length bs = 512 * unat cc" using assms(4) by (simp add: bs_def)
  define hit where "hit \<longleftrightarrow> unat S \<le> unat (winsect s) \<and> unat (winsect s) < unat S + unat cc"
  define d where "d = disk_store (vdisk s) (unat S * 512) bs"
  define s' where "s' = (if hit
     then s\<lparr>vdisk := d, win := take 512 (drop (512 * (unat (winsect s) - unat S)) bs), wflag := 0\<rparr>
     else s\<lparr>vdisk := d\<rparr>)"
  have S: "unat S < 128" "unat (database s) \<le> unat S" using assms(2) by (simp_all add: in_data_def)
  have e: "f_write_direct s buff bw S cc = Some (RES_OK, s')"
    using f_write_direct_eq [OF layD(2) [OF assms(1)] S(1) assms(3,4)]
    by (simp add: s'_def hit_def bs_def d_def)
  have cc: "unat cc < 0x800000" using assms(3) by linarith
  have "wp (f_write_direct s buff bw S cc) (\<lambda>(r, s'). good s s')"
    by (rule f_write_direct_wp [OF layD(2) [OF assms(1)] assms(4) cc]) simp
  then have g: "good s s'" by (simp add: e)
  have vb: "vbyte s' n j = (if unat S \<le> unat n \<and> unat n < unat S + unat cc
       then bs ! (512 * (unat n - unat S) + j) else vbyte s n j)" if "unat n < DISK_SECTORS" "j < 512" for n j
  proof -
    have i: "unat S * 512 \<le> unat n * 512 + j \<and> unat n * 512 + j < unat S * 512 + length bs \<longleftrightarrow>
        unat S \<le> unat n \<and> unat n < unat S + unat cc" unfolding lb using that(2) by auto
    have j: "unat n * 512 + j - unat S * 512 = 512 * (unat n - unat S) + j" if "unat S \<le> unat n"
      using that by (simp add: diff_mult_distrib)
    have k: "512 * (unat n - unat S) + 512 \<le> length bs" if "unat S \<le> unat n \<and> unat n < unat S + unat cc"
      unfolding lb using that by auto
    show ?thesis
    proof (cases "n = winsect s")
      case True
      then show ?thesis using that k by (auto simp: vbyte_def s'_def hit_def)
    next
      case False
      then show ?thesis using that i j by (auto simp: vbyte_def s'_def d_def disk_store_def)
    qed
  qed
  have nf: "\<not> unat S \<le> unat n" if "infat s n" for n
    using infat_data [OF assms(1) that] S by (auto simp: in_data_def)
  have st: "same_table s s'" "lay s'"
    by (rule same_tableI [OF assms(1) g];
        use nf vb infat_data(2) [OF assms(1)] layD(6) [OF assms(1)] in \<open>auto simp: s'_def wr_def\<close>)+
  have rk: "rkeep s s'" using S(2) vb by (auto simp: rkeep_def above_def)
  show ?thesis
    unfolding e wp_Some prod.case wput_def bs_def [symmetric]
  proof (intro conjI allI impI)
    fix L assume L: "512 * unat (database s) \<le> L" "L < DISK_SIZE"
    note n = dlin_sect [OF L]
    have n2: "unat (of_nat (L div 512) :: LBA_t) < DISK_SECTORS" using n(1) by (simp add: in_data_def)
    have dl: "dlin s' L = (if unat S \<le> L div 512 \<and> L div 512 < unat S + unat cc
       then bs ! (512 * (L div 512 - unat S) + L mod 512) else dlin s L)"
      using vb [OF n2, of "L mod 512"] n(2) by (simp add: dlin_def)
    have m: "L = 512 * (L div 512) + L mod 512" "L mod 512 < 512" by simp_all
    { assume *: "512 * unat S \<le> L \<and> L < 512 * unat S + length bs"
      have "unat S \<le> L div 512 \<and> L div 512 < unat S + unat cc" using * m unfolding lb by linarith
      moreover from this have "512 * (L div 512 - unat S) + L mod 512 = L - 512 * unat S"
        using m(1) by (simp add: diff_mult_distrib2)
      ultimately show "dlin s' L = bs ! (L - 512 * unat S)" unfolding dl by simp }
    { assume *: "L < 512 * unat S \<or> 512 * unat S + length bs + 0 \<le> L"
      have "\<not> (unat S \<le> L div 512 \<and> L div 512 < unat S + unat cc)" using * m unfolding lb by linarith
      then show "dlin s' L = dlin s L" unfolding dl by auto }
  qed (use st g rk in simp_all)
qed

section \<open>Writing into a file\<close>

lemma wput_facts:
  assumes "wput s s' a bs e"
  shows "lay s'" "good s s'" "same_table s s'" "bpc s' = bpc s" "faddr s' cs i = faddr s cs i"
    "file_chain s' c ds = file_chain s c ds" "rkeep s s'"
  using assms file_chain_keep [of s s' c ds] by (auto simp: wput_def bpc_def faddr_def goodD)

lemma wput_in:
  "wput s s' a bs e \<Longrightarrow> 512 * unat (database s) \<le> L \<Longrightarrow> L < DISK_SIZE \<Longrightarrow> a \<le> L \<Longrightarrow> L < a + length bs \<Longrightarrow>
     dlin s' L = bs ! (L - a)"
  unfolding wput_def by blast

text \<open>A write inside cluster \<open>C\<close> does not touch a byte of another cluster.\<close>

lemma wput_apart:
  assumes w: "wput s s' a bs e" and "lay s" "file_chain s d ds" "i < length ds * bpc s"
    and a: "a = 512 * unat (database s) + bpc s * (unat C - 2) + x" "x + length bs + e \<le> bpc s" "2 \<le> C"
    and "ds ! (i div bpc s) \<noteq> C"
  shows "fbyte s' ds i = fbyte s ds i"
proof -
  note f = wput_facts [OF w]
  have q: "i div bpc s < length ds" using assms(4) by (simp add: less_mult_imp_div_less)
  have c2: "2 \<le> ds ! (i div bpc s)"
    using file_sect(4) [OF assms(2,3) q csize_pos [OF assms(2)]] .
  define L where "L = faddr s ds i"
  have L: "L = 512 * unat (database s) + bpc s * (unat (ds ! (i div bpc s)) - 2) + i mod bpc s"
    by (simp add: L_def faddr_def)
  have im: "i mod bpc s < bpc s" using bpc_pos [OF assms(2)] by simp
  have "L < a \<or> a + length bs + e \<le> L"
  proof (rule ccontr)
    assume "\<not> (L < a \<or> a + length bs + e \<le> L)"
    then have y: "a \<le> L" "L < a + length bs + e" by auto
    then have "bpc s * (unat (ds ! (i div bpc s)) - 2) + i mod bpc s = bpc s * (unat C - 2) + (x + (L - a))"
      using L a(1) by linarith
    moreover have "x + (L - a) < bpc s" using y a(2) by linarith
    ultimately show False using faddr_apart [OF assms(2) c2 a(3) assms(8) im] by blast
  qed
  then have "dlin s' L = dlin s L"
    using w fbyte_lin(2,3) [OF assms(2-4)] unfolding wput_def L_def by blast
  then show ?thesis
    using fbyte_lin(1) [OF assms(2-4)] fbyte_lin(1) [OF f(1), of d ds i] f(4-6) assms(3,4) by (simp add: L_def)
qed

lemma wput_file:
  assumes w: "wput s s' (faddr s cs p) bs e" and "lay s" "file_chain s c cs" "p div bpc s < length cs"
    and e: "p mod bpc s + length bs + e \<le> bpc s" and i: "i < length cs * bpc s"
  shows "p \<le> i \<Longrightarrow> i < p + length bs \<Longrightarrow> fbyte s' cs i = bs ! (i - p)"
    "i < p \<or> p + length bs + e \<le> i \<Longrightarrow> fbyte s' cs i = fbyte s cs i"
proof -
  note f = wput_facts [OF w]
  have pm: "p = bpc s * (p div bpc s) + p mod bpc s" by simp
  have dl: "fbyte s' cs i = dlin s' (faddr s cs i)" "fbyte s cs i = dlin s (faddr s cs i)"
    using fbyte_lin(1) [OF assms(2,3) i] fbyte_lin(1) [OF f(1), of c cs i] f(4-6) assms(3) i by simp_all
  note r = fbyte_lin(2,3) [OF assms(2,3) i]
  show "fbyte s' cs i = bs ! (i - p)" if "p \<le> i" "i < p + length bs"
  proof -
    have "i div bpc s = p div bpc s"
    proof (rule div_nat_eqI)
      show "bpc s * (p div bpc s) \<le> i" using that(1) pm by linarith
      show "i < bpc s * Suc (p div bpc s)" using that(2) e pm unfolding mult_Suc_right by linarith
    qed
    from faddr_same [OF this, of cs] have fa: "faddr s cs i - faddr s cs p = i - p"
      "faddr s cs p \<le> faddr s cs i" "faddr s cs i < faddr s cs p + length bs" using that by linarith+
    show ?thesis unfolding dl using wput_in [OF w r fa(2,3)] fa(1) by simp
  qed
  show "fbyte s' cs i = fbyte s cs i" if *: "i < p \<or> p + length bs + e \<le> i"
  proof (cases "i div bpc s = p div bpc s")
    case True
    from faddr_same [OF this, of cs] have "faddr s cs i < faddr s cs p \<or> faddr s cs p + length bs + e \<le> faddr s cs i"
      using * by linarith
    then show ?thesis using w r unfolding dl wput_def by blast
  next
    case False
    have q: "i div bpc s < length cs" using i by (simp add: less_mult_imp_div_less)
    have "distinct cs" using assms(3) chain_distinct by (cases "c = 0") (auto simp: file_chain_def)
    then have "cs ! (i div bpc s) \<noteq> cs ! (p div bpc s)"
      using False q assms(4) by (simp add: nth_eq_iff_index_eq)
    then show ?thesis
      using file_sect(4) [OF assms(2-4) csize_pos [OF assms(2)]]
      by (intro wput_apart [OF w assms(2,3) i _ e]) (simp_all add: faddr_def)
  qed
qed

section \<open>Allocation for a file\<close>

text \<open>No entry has the reserved value 1, on which the search for a free cluster stops.\<close>

definition sane :: "vol \<Rightarrow> bool" where
  "sane s \<longleftrightarrow> (\<forall>c. 2 \<le> c \<longrightarrow> c < n_fatent s \<longrightarrow> fat_entry s c \<noteq> 1)"

text \<open>\<open>fwrite s cs sz s' cs' p bs\<close>: the file with the clusters \<open>cs\<close> and the size \<open>sz\<close> has in \<open>s'\<close> the
  bytes \<open>bs\<close> at position \<open>p\<close>; it has grown by clusters that were free, the rest of it is as
  before, and so is every file that shares no cluster with it.\<close>

definition fwrite :: "vol \<Rightarrow> DWORD list \<Rightarrow> nat \<Rightarrow> vol \<Rightarrow> DWORD list \<Rightarrow> nat \<Rightarrow> buffer \<Rightarrow> bool" where
  "fwrite s cs sz s' cs' p bs \<longleftrightarrow>
     lay s' \<and> good s s' \<and> rkeep s s' \<and> free_ok s' \<and> sane s' \<and> free_set s' \<subseteq> free_set s \<and>
     (\<exists>ns. cs' = cs @ ns \<and> set ns \<subseteq> free_set s) \<and>
     (\<forall>i < max sz (p + length bs). i < length cs' * bpc s \<longrightarrow>
        fbyte s' cs' i = (if p \<le> i \<and> i < p + length bs then bs ! (i - p) else fbyte s cs i)) \<and>
     (\<forall>d ds. file_chain s d ds \<longrightarrow> set ds \<inter> set cs = {} \<longrightarrow>
        file_chain s' d ds \<and> (\<forall>i < length ds * bpc s. fbyte s' ds i = fbyte s ds i))"

lemma file_chain_used: "lay s \<Longrightarrow> file_chain s d ds \<Longrightarrow> set ds \<inter> free_set s = {}"
proof -
  assume l: "lay s" "file_chain s d ds"
  have n: "2 \<le> n_fatent s" using layD(3) [OF l(1)] by (auto simp: gok_def word_le_nat_alt)
  have "fat_entry s x \<noteq> 0" if "x \<in> set ds" for x
  proof -
    have "chain (fat_entry s) (n_fatent s) d ds" using l(2) that by (auto simp: file_chain_def split: if_splits)
    from chain_nz [OF this n that] show ?thesis by (auto simp: word_le_nat_alt)
  qed
  then show ?thesis by (auto simp: free_set_def)
qed

lemma good_bpc: "good s s' \<Longrightarrow> bpc s' = bpc s"
  by (simp add: bpc_def goodD)

lemma fwrite_trans:
  assumes 1: "fwrite s cs sz s1 cs1 p xs" and 2: "fwrite s1 cs1 (max sz (p + length xs)) s2 cs2 (p + length xs) ys"
    and "lay s" "p \<le> sz" "p + length xs \<le> length cs1 * bpc s"  "sz \<le> length cs1 * bpc s"
  shows "fwrite s cs sz s2 cs2 p (xs @ ys)"
proof -
  have g: "good s s1" "good s1 s2" and b: "bpc s1 = bpc s"
    using 1 2 good_bpc [of s s1] by (auto simp: fwrite_def)
  obtain ns1 where ns1: "cs1 = cs @ ns1" "set ns1 \<subseteq> free_set s" using 1 by (auto simp: fwrite_def)
  obtain ns2 where ns2: "cs2 = cs1 @ ns2" "set ns2 \<subseteq> free_set s1" using 2 by (auto simp: fwrite_def)
  have fs: "free_set s1 \<subseteq> free_set s" "free_set s2 \<subseteq> free_set s1" using 1 2 by (auto simp: fwrite_def)
  have cb: "fbyte s2 cs2 i = (if p \<le> i \<and> i < p + length (xs @ ys) then (xs @ ys) ! (i - p) else fbyte s cs i)"
    if i: "i < max sz (p + length (xs @ ys))" "i < length cs2 * bpc s" for i
  proof -
    have i2: "i < max (max sz (p + length xs)) (p + length xs + length ys)" "i < length cs2 * bpc s1"
      using i b by (auto simp: max_def split: if_splits)
    have f2: "fbyte s2 cs2 i = (if p + length xs \<le> i \<and> i < p + length xs + length ys then ys ! (i - (p + length xs)) else fbyte s1 cs1 i)"
      using 2 i2 unfolding fwrite_def by blast
    have f1: "fbyte s1 cs1 i = (if p \<le> i \<and> i < p + length xs then xs ! (i - p) else fbyte s cs i)"
      if "i < max sz (p + length xs)"
    proof -
      have "i < length cs1 * bpc s" using that assms(5,6) by linarith
      then show ?thesis using 1 that unfolding fwrite_def by blast
    qed
    show ?thesis
    proof (cases "p + length xs \<le> i \<and> i < p + length xs + length ys")
      case True
      then show ?thesis using f2 by (auto simp: nth_append)
    next
      case False
      then have "i < max sz (p + length xs)" using i(1) assms(4) by (auto simp: max_def split: if_splits)
      from f1 [OF this] show ?thesis using f2 False by (auto simp: nth_append)
    qed
  qed
  have ot: "file_chain s2 d ds \<and> (\<forall>i < length ds * bpc s. fbyte s2 ds i = fbyte s ds i)"
    if d: "file_chain s d ds" "set ds \<inter> set cs = {}" for d ds
  proof -
    have 3: "file_chain s1 d ds" "\<forall>i < length ds * bpc s. fbyte s1 ds i = fbyte s ds i"
      using 1 d unfolding fwrite_def by blast+
    have "set ds \<inter> set cs1 = {}" using d(2) ns1 file_chain_used [OF assms(3) d(1)] by auto
    then have "file_chain s2 d ds \<and> (\<forall>i < length ds * bpc s1. fbyte s2 ds i = fbyte s1 ds i)"
      using 2 3(1) unfolding fwrite_def by blast
    then show ?thesis using 3(2) b by auto
  qed
  show ?thesis
    unfolding fwrite_def
  proof (intro conjI)
    show "lay s2" "free_ok s2" "sane s2" using 2 by (simp_all add: fwrite_def)
    show "good s s2" using g by (rule good_trans)
    show "rkeep s s2" using 1 2 rkeep_trans [OF g(1)] by (auto simp: fwrite_def)
    show "free_set s2 \<subseteq> free_set s" using fs by blast
    show "\<exists>ns. cs2 = cs @ ns \<and> set ns \<subseteq> free_set s" using ns1 ns2 fs by (intro exI [of _ "ns1 @ ns2"]) auto
  qed (use cb ot in blast)+
qed

lemma fbyte_prefix: "i < length cs * bpc s \<Longrightarrow> fbyte s (cs @ ns) i = fbyte s cs i"
  by (simp add: fbyte_def nth_append less_mult_imp_div_less)

lemma same_table_sane: "same_table s s' \<Longrightarrow> sane s' = sane s"
  using same_table_n [of s s'] by (auto simp: sane_def same_table_def)

lemma same_table_free_ok: "same_table s s' \<Longrightarrow> free_ok s' = free_ok s"
  using same_table_n [of s s'] same_table_free [of s s']
  by (auto simp: free_ok_def same_table_def fat_rest_def)

text \<open>The three ways in which a round of \<open>f_write\<close> changes the volume: not at all as the file sees
  it, by a new cluster, and by a transfer within one cluster.\<close>

lemma fwrite_keep:
  assumes "lay s" "dstep s s'" "same_table s s'" "free_ok s" "sane s" "file_chain s c cs" "sz \<le> length cs * bpc s" "p \<le> sz"
  shows "fwrite s cs sz s' cs p []"
  unfolding fwrite_def
proof (intro conjI allI impI)
  show "lay s'" "good s s'" "rkeep s s'" using assms(2) dstep_rkeep by (simp_all add: dstep_def)
  show "free_ok s'" "sane s'" "free_set s' \<subseteq> free_set s"
    using assms(4,5) same_table_free_ok [OF assms(3)] same_table_sane [OF assms(3)] same_table_free [OF assms(3)] by simp_all
  show "fbyte s' cs i = (if p \<le> i \<and> i < p + length [] then [] ! (i - p) else fbyte s cs i)" if "i < length cs * bpc s" for i
    using fbyte_keep [OF assms(2,1,6) that] by auto
  show "file_chain s' d ds" if "file_chain s d ds" for d ds using that file_chain_keep [OF assms(3)] by simp
  show "fbyte s' ds i = fbyte s ds i" if "file_chain s d ds" "i < length ds * bpc s" for d ds i
    by (rule fbyte_keep [OF assms(2,1) that])
qed simp_all

lemma fwrite_wput:
  assumes "lay s" "wput s s' (faddr s cs p) bs e" "free_ok s" "sane s" "file_chain s c cs"
    and "p div bpc s < length cs" "p mod bpc s + length bs + e \<le> bpc s" "p \<le> sz" "0 < e \<Longrightarrow> sz \<le> p"
  shows "fwrite s cs sz s' cs p bs"
proof -
  note f = wput_facts [OF assms(2)]
  show ?thesis
    unfolding fwrite_def
  proof (intro conjI allI impI)
    show "lay s'" "good s s'" "rkeep s s'" using f by simp_all
    show "free_ok s'" "sane s'" "free_set s' \<subseteq> free_set s"
      using assms(3,4) same_table_free_ok [OF f(3)] same_table_sane [OF f(3)] same_table_free [OF f(3)] by simp_all
    show "fbyte s' cs i = (if p \<le> i \<and> i < p + length bs then bs ! (i - p) else fbyte s cs i)"
      if i: "i < max sz (p + length bs)" "i < length cs * bpc s" for i
    proof (cases "p \<le> i \<and> i < p + length bs")
      case True
      then show ?thesis using wput_file(1) [OF assms(2,1,5-7) i(2)] by simp
    next
      case False
      then have "i < p \<or> p + length bs + e \<le> i" using i(1) assms(9) by (cases "e = 0") (auto simp: max_def split: if_splits)
      then show ?thesis using wput_file(2) [OF assms(2,1,5-7) i(2)] False by auto
    qed
    show "file_chain s' d ds" if "file_chain s d ds" for d ds using that f(6) by simp
    show "fbyte s' ds i = fbyte s ds i" if d: "file_chain s d ds" "set ds \<inter> set cs = {}" "i < length ds * bpc s" for d ds i
    proof (rule wput_apart [OF assms(2,1) d(1,3) _ assms(7)])
      show "faddr s cs p = 512 * unat (database s) + bpc s * (unat (cs ! (p div bpc s)) - 2) + p mod bpc s"
        by (simp add: faddr_def)
      show "2 \<le> cs ! (p div bpc s)" by (rule file_sect(4) [OF assms(1,5,6) csize_pos [OF assms(1)]])
      have "i div bpc s < length ds" using d(3) by (simp add: less_mult_imp_div_less)
      then show "ds ! (i div bpc s) \<noteq> cs ! (p div bpc s)"
        using d(2) assms(6) nth_mem [of "i div bpc s" ds] nth_mem [of "p div bpc s" cs] by (metis disjoint_iff)
    qed
  qed simp_all
qed

lemma takes_facts:
  assumes "takes s p v s'" "fat_inv s" "v \<in> free_set s" "p = 0 \<or> 2 \<le> p \<and> p < n_fatent s" "sane s" "free_ok s"
  shows "free_ok s'" "sane s'" "free_set s' \<subseteq> free_set s"
proof -
  have n: "n_fatent s' = n_fatent s" using assms(1) geo_n_fatent unfolding takes_def by blast
  have v: "2 \<le> v" "v \<noteq> 0" "v \<noteq> 1" using assms(3) by (auto simp: free_set_def word_le_nat_alt)
  have w: "fat_width s \<noteq> 0" "fat_width s \<noteq> 1" by (simp_all add: fat_width_def entry_mask_def)
  have e: "fat_entry s' d = (if d = v then fat_width s else if p \<noteq> 0 \<and> d = p then v else fat_entry s d)"
    if "d < n_fatent s" for d using assms(1) that by (simp add: takes_def)
  show "free_ok s'" using assms(1,6) by (simp add: takes_def)
  show "sane s'" using assms(5) e v w n by (simp add: sane_def)
  show "free_set s' \<subseteq> free_set s" using e v w n by (auto simp: free_set_def split: if_splits)
qed

lemma fwrite_grow:
  assumes "lay s" "dstep s s'" "v \<in> free_set s" "takes s (if cs = [] then 0 else last cs) v s'"
    and "free_ok s" "sane s" "file_chain s c cs" "sz \<le> length cs * bpc s" "p \<le> sz"
  shows "fwrite s cs sz s' (cs @ [v]) p []" "file_chain s' ((cs @ [v]) ! 0) (cs @ [v])"
proof -
  have ch: "chain (fat_entry s) (n_fatent s) c cs" if "cs \<noteq> []" using assms(7) that by (auto simp: file_chain_def split: if_splits)
  have p: "(if cs = [] then 0 else last cs) = 0 \<or> 2 \<le> (if cs = [] then 0 else last cs) \<and> (if cs = [] then 0 else last cs) < n_fatent s"
    using chain_range [OF ch] by auto
  note fi = layD(1) [OF assms(1)]
  note tf = takes_facts [OF assms(4) fi assms(3) p assms(6,5)]
  have v: "2 \<le> v" "v < n_fatent s" "v \<noteq> 0" using assms(3) by (auto simp: free_set_def word_le_nat_alt)
  have n: "n_fatent s' = n_fatent s" using assms(4) geo_n_fatent unfolding takes_def by blast
  show "file_chain s' ((cs @ [v]) ! 0) (cs @ [v])"
  proof (cases "cs = []")
    case True
    have "n_fatent s \<le> fat_entry s' v" using assms(4) True v width_end [OF layD(3) [OF assms(1)]] by (auto simp: takes_def)
    then show ?thesis using True v n by (simp add: file_chain_def)
  next
    case False
    have "chain (fat_entry s') (n_fatent s') c (cs @ [v])"
      using takes_chain [OF ch [OF False] fi assms(3)] assms(4) False by simp
    moreover have "(cs @ [v]) ! 0 = c" using chain_hd [OF ch [OF False]] False by (simp add: nth_append)
    moreover have "c \<noteq> 0" using ch [OF False] False by (cases cs) (auto simp: word_le_nat_alt)
    ultimately show ?thesis by (simp add: file_chain_def)
  qed
  show "fwrite s cs sz s' (cs @ [v]) p []"
    unfolding fwrite_def
  proof (intro conjI allI impI)
    show "lay s'" "good s s'" "rkeep s s'" using assms(2) dstep_rkeep by (simp_all add: dstep_def)
    show "\<exists>ns. cs @ [v] = cs @ ns \<and> set ns \<subseteq> free_set s" using assms(3) by auto
    fix i assume "i < max sz (p + length ([] :: buffer))"
    then have i: "i < length cs * bpc s" using assms(8,9) by simp
    have "i < length cs * bpc s'" using i dstep_facts(3) [OF assms(2)] by simp
    from fbyte_prefix [OF this] show "fbyte s' (cs @ [v]) i = (if p \<le> i \<and> i < p + length [] then [] ! (i - p) else fbyte s cs i)"
      using fbyte_keep [OF assms(2,1,7) i] by auto
  next
    fix d ds assume d: "file_chain s d ds" "set ds \<inter> set cs = {}"
    have "(if cs = [] then 0 else last cs) \<notin> set ds"
      using d chain_range [of "fat_entry s" "n_fatent s" d ds] last_in_set [of cs]
      by (fastforce simp: file_chain_def word_le_nat_alt split: if_splits)
    then show "file_chain s' d ds"
      using d(1) takes_other [OF _ fi assms(3,4), of d ds] by (simp add: file_chain_def split: if_splits)
  next
    fix d ds i assume "file_chain s d ds" "i < length ds * bpc s"
    then show "fbyte s' ds i = fbyte s ds i" by (rule fbyte_keep [OF assms(2,1)])
  qed (use tf in simp_all)
qed

section \<open>The cluster of the file pointer\<close>

text \<open>The file pointer during a round of \<open>f_write\<close>: in the cluster with index \<open>q\<close>, which exists.\<close>

definition wpos :: "vol \<Rightarrow> FIL \<Rightarrow> DWORD list \<Rightarrow> nat \<Rightarrow> nat \<Rightarrow> nat \<Rightarrow> bool" where
  "wpos s fp cs q k j \<longleftrightarrow> lay s \<and> file_chain s (sclust (fobj fp)) cs \<and>
     unat (objsize (fobj fp)) \<le> length cs * bpc s \<and> unat (fptr fp) \<le> unat (objsize (fobj fp)) \<and>
     unat (fptr fp) = bpc s * q + 512 * k + j \<and> k < unat (csize s) \<and> j < 512 \<and> q < length cs \<and>
     fclust fp = cs ! q"

lemma create_chain_follow:
  assumes "lay s" "2 \<le> c" "c < n_fatent s" "2 \<le> fat_entry s c" "fat_entry s c < n_fatent s"
  shows "wp (create_chain s c) (\<lambda>(v, s'). v = fat_entry s c \<and> dstep s s' \<and> same_table s s')"
proof -
  have "c \<noteq> 0" "\<not> fat_entry s c < 2" using assms(2,4) by (auto simp: word_le_nat_alt word_less_nat_alt)
  moreover have "wp (get_fat s c) (\<lambda>(v, s'). v = fat_entry s c \<and> dstep s s' \<and> same_table s s' \<and> n_fatent s' = n_fatent s)"
    using assms(2,3) by (intro get_fat_lay [OF assms(1)]) (simp add: same_table_n)
  ultimately show ?thesis
    unfolding create_chain_def using assms(5) by (auto simp: wp_bind elim!: wp_mono)
qed

lemma file_ok_keep:
  assumes "file_ok s fp cs" "dstep s s'" "same_table s s'"
  shows "file_ok s' fp cs"
  using assms(1) dstep_facts [OF assms(2)] file_chain_keep [OF assms(3)]
  by (simp add: file_ok_def)

text \<open>The cluster for a position at a cluster boundary: the next one of the chain, or a new one.\<close>

definition clust_post :: "vol \<Rightarrow> FIL \<Rightarrow> DWORD list \<Rightarrow> nat \<Rightarrow> DWORD \<Rightarrow> vol \<Rightarrow> bool" where
  "clust_post s fp cs q v s' \<longleftrightarrow>
     (if v = 0 then free_set s = {} \<and> dstep s s' \<and> same_table s s'
      else 2 \<le> v \<and> v < n_fatent s \<and> (\<exists>cs'. fwrite s cs (unat (objsize (fobj fp))) s' cs' (unat (fptr fp)) [] \<and>
             file_chain s' (cs' ! 0) cs' \<and> q < length cs' \<and> v = cs' ! q \<and>
             (sclust (fobj fp) \<noteq> 0 \<longrightarrow> cs' ! 0 = sclust (fobj fp))))"

lemma chain_last: "chain e n c cs \<Longrightarrow> n \<le> e (last cs)"
  by (induction cs arbitrary: c) (auto split: if_splits)

lemma file_chain_first:
  assumes "file_chain s c cs"
  shows "c = 0 \<longleftrightarrow> cs = []" "cs \<noteq> [] \<Longrightarrow> cs ! 0 = c" "cs \<noteq> [] \<Longrightarrow> chain (fat_entry s) (n_fatent s) c cs"
  using assms chain_hd [of "fat_entry s" "n_fatent s" c cs] by (auto simp: file_chain_def split: if_splits)

lemma clust_post_old:
  assumes "file_ok s fp cs" "free_ok s" "sane s" "dstep s s'" "same_table s s'" "q < length cs"
  shows "clust_post s fp cs q (cs ! q) s'"
proof -
  note ok = file_okD [OF assms(1)]
  note fs = file_sect(4,5) [OF ok(1,2) assms(6) csize_pos [OF ok(1)]]
  have ne: "cs \<noteq> []" using assms(6) by auto
  then have "file_chain s' (cs ! 0) cs"
    using ok(2) file_chain_keep [OF assms(5)] file_chain_first(2) [OF ok(2)] by simp
  moreover have "cs ! q \<noteq> 0" using fs(1) by (auto simp: word_le_nat_alt)
  ultimately show ?thesis
    unfolding clust_post_def
    using fs fwrite_keep [OF ok(1) assms(4,5,2,3) ok(2-4)] assms(6) file_chain_first(2) [OF ok(2) ne] by auto
qed

lemma clust_post_new:
  assumes "file_ok s fp cs" "free_ok s" "sane s"
    and p: "p = (if cs = [] then 0 else last cs)" "q = length cs"
  shows "wp (create_chain s p) (\<lambda>(v, s'). clust_post s fp cs q v s')"
proof -
  note ok = file_okD [OF assms(1)]
  note ch = file_chain_first [OF ok(2)]
  have "p = 0 \<or> 2 \<le> p \<and> p < n_fatent s \<and> n_fatent s \<le> fat_entry s p"
    using p(1) ch(3) chain_last chain_range last_in_set by (cases "cs = []") auto
  from create_chain_lay [OF ok(1) assms(2) this] show ?thesis
  proof (rule wp_mono, clarify, goal_cases)
    case (1 v s')
    have "\<not> (v = 1 \<and> (\<exists>c. 2 \<le> c \<and> c < n_fatent s \<and> fat_entry s c = 1) \<and> same_table s s')"
      using assms(3) by (auto simp: sane_def)
    then consider "v \<in> free_set s" "takes s p v s'" | "v = 0" "free_set s = {}" "same_table s s'" using 1(3) by blast
    then show ?case
    proof cases
      case a: 1
      note gr = fwrite_grow [OF ok(1) 1(2) a(1) a(2) [unfolded p(1)] assms(2,3) ok(2-4)]
      have "2 \<le> v" "v < n_fatent s" "v \<noteq> 0" using a(1) by (auto simp: free_set_def word_le_nat_alt)
      then show ?thesis
        unfolding clust_post_def using gr p(2) ch(1,2)
        by (auto simp: nth_append intro!: exI [of _ "cs @ [v]"])
    next
      case 2
      then show ?thesis using 1(2) by (simp add: clust_post_def)
    qed
  qed
qed

lemma f_write_next:
  assumes "file_ok s fp cs" "free_ok s" "sane s" "unat (fptr fp) = bpc s * q"
  shows "wp (if fptr fp = 0 then let clst = sclust (fobj fp) in if clst = 0 then create_chain s 0 else Some (clst, s)
             else create_chain s (fclust fp)) (\<lambda>(v, s'). clust_post s fp cs q v s')"
proof -
  note ok = file_okD [OF assms(1)]
  note l = ok(1) and ch = file_chain_first [OF ok(2)]
  note old = clust_post_old [OF assms(1-3)] and new = clust_post_new [OF assms(1-3)]
  have st: "dstep s s" "same_table s s" using dstep_refl [OF l] layD(1) [OF l] by (simp_all add: same_table_def)
  have ql: "q \<le> length cs"
    using assms(4) ok(3,4) bpc_pos [OF l] by (metis le_trans mult.commute mult_le_cancel2)
  show ?thesis
  proof (cases "fptr fp = 0")
    case True
    then have q0: "q = 0" using assms(4) bpc_pos [OF l] by simp
    show ?thesis
    proof (cases "cs = []")
      case t: True
      then show ?thesis using new [of 0 q] q0 True ch(1) by simp
    next
      case False
      then show ?thesis using old [OF st, of q] q0 True ch(1,2) by simp
    qed
  next
    case False
    then have p0: "0 < unat (fptr fp)" by (simp add: unat_gt_0)
    then have "q = Suc ((unat (fptr fp) - 1) div bpc s)"
      using prev_div(1) [OF p0 bpc_pos [OF l]] assms(4) bpc_pos [OF l] by simp
    then have fc: "fclust fp = cs ! (q - 1)" "0 < q" using ok(5) [OF p0] by auto
    then have ne: "cs \<noteq> []" using ql by auto
    show ?thesis
    proof (cases "q < length cs")
      case True
      have e: "fat_entry s (fclust fp) = cs ! q" using chain_nth [OF ch(3) [OF ne], of "q - 1"] fc True by simp
      note r = file_sect(4,5) [OF l ok(2) _ csize_pos [OF l]]
      have "wp (create_chain s (fclust fp)) (\<lambda>(v, s'). v = fat_entry s (fclust fp) \<and> dstep s s' \<and> same_table s s')"
        using r [of "q - 1"] r [OF True] fc True e by (intro create_chain_follow [OF l]) simp_all
      then show ?thesis using False e old True by (auto elim!: wp_mono)
    next
      case f: False
      then have "fclust fp = last cs" "q = length cs" using fc ql ne by (simp_all add: last_conv_nth)
      then show ?thesis using new [of "fclust fp" q] ne False by simp
    qed
  qed
qed

definition clust_done :: "vol \<Rightarrow> FIL \<Rightarrow> DWORD list \<Rightarrow> nat \<Rightarrow> nat \<Rightarrow> bool \<times> FRESULT \<times> FIL \<times> vol \<Rightarrow> bool" where
  "clust_done s fp cs q k = (\<lambda>(brk, r, fp', s'). r = FR_OK \<and>
     (if brk then fp' = fp \<and> free_set s = {} \<and> dstep s s' \<and> same_table s s'
      else \<exists>cs'. fwrite s cs (unat (objsize (fobj fp))) s' cs' (unat (fptr fp)) [] \<and> wpos s' fp' cs' q k 0 \<and>
             fp' = fp\<lparr>fclust := cs' ! q, fobj := (fobj fp)\<lparr>sclust := cs' ! 0\<rparr>\<rparr>))"

lemma clust_done_post:
  assumes "file_ok s fp cs" "clust_post s fp cs q v s'" "v \<noteq> 0" "unat (fptr fp) = bpc s * q"
    and "fp' = (let fp = fp\<lparr>fclust := v\<rparr>
                in if sclust (fobj fp) = 0 then fp\<lparr>fobj := (fobj fp)\<lparr>sclust := v\<rparr>\<rparr> else fp)"
  shows "clust_done s fp cs q 0 (False, FR_OK, fp', s')"
proof -
  note ok = file_okD [OF assms(1)]
  obtain cs' where c: "fwrite s cs (unat (objsize (fobj fp))) s' cs' (unat (fptr fp)) []" "file_chain s' (cs' ! 0) cs'"
    "q < length cs'" "v = cs' ! q" "sclust (fobj fp) \<noteq> 0 \<longrightarrow> cs' ! 0 = sclust (fobj fp)"
    using assms(2,3) by (auto simp: clust_post_def)
  have g: "good s s'" "lay s'" "bpc s' = bpc s" using c(1) good_bpc [of s s'] by (auto simp: fwrite_def)
  have le: "length cs \<le> length cs'" using c(1) by (auto simp: fwrite_def)
  have sz: "unat (objsize (fobj fp)) \<le> length cs' * bpc s'"
    unfolding g(3) by (rule order_trans [OF ok(3) mult_le_mono1 [OF le]])
  have q0: "q = 0" if "sclust (fobj fp) = 0"
    using ok(2-4) that assms(4) bpc_pos [OF ok(1)] by (auto simp: file_chain_def)
  have fp': "fp' = fp\<lparr>fclust := cs' ! q, fobj := (fobj fp)\<lparr>sclust := cs' ! 0\<rparr>\<rparr>"
    using assms(5) c(4,5) q0 by (cases "sclust (fobj fp) = 0") (auto simp: Let_def)
  have "wpos s' fp' cs' q 0 0"
    using g c(2,3) sz ok(4) assms(4) csize_pos [OF g(2)] by (simp add: wpos_def fp')
  then show ?thesis using c(1) fp' by (auto simp: clust_done_def)
qed

lemma f_write_clust_exact:
  assumes "file_ok s fp cs" "free_ok s" "sane s" "unat (fptr fp) mod 512 = 0"
  defines "q \<equiv> unat (fptr fp) div bpc s" and "k \<equiv> unat (fptr fp) mod bpc s div 512"
  shows "wp (f_write_clust s fp (of_nat k)) (clust_done s fp cs q k)"
proof -
  note ok = file_okD [OF assms(1)]
  note l = ok(1)
  have k: "k < unat (csize s)" unfolding k_def by (rule sect_pos_less [OF l])
  have csk: "of_nat k = (0::DWORD) \<longleftrightarrow> k = 0" using unat_of_sect [OF k] by (cases "k = 0") auto
  show ?thesis
  proof (cases "k = 0")
    case True
    have p: "unat (fptr fp) = bpc s * q"
      using mod_512_boundary [OF assms(4), of s] True by (auto simp: k_def q_def)
    have "wp (if fptr fp = 0 then let clst = sclust (fobj fp) in if clst = 0 then create_chain s 0 else Some (clst, s)
             else create_chain s (fclust fp)) (\<lambda>(v, s'). clust_post s fp cs q v s')"
      by (rule f_write_next [OF assms(1-3) p])
    then have "wp (if fptr fp = 0 then let clst = sclust (fobj fp) in if clst = 0 then create_chain s 0 else Some (clst, s)
             else create_chain s (fclust fp)) (\<lambda>(clst, s'). wp (
        if clst = 0 then Some (True, FR_OK, fp, s')
        else if clst = 1 then Some (False, FR_INT_ERR, fp, s')
        else if clst = 0xFFFFFFFF then Some (False, FR_DISK_ERR, fp, s')
        else Some (False, FR_OK, let fp = fp\<lparr>fclust := clst\<rparr>
                in if sclust (fobj fp) = 0 then fp\<lparr>fobj := (fobj fp)\<lparr>sclust := clst\<rparr>\<rparr> else fp, s'))
          (clust_done s fp cs q 0))"
    proof (rule wp_mono, clarify, goal_cases)
      case (1 v s')
      then have cp: "clust_post s fp cs q v s'" by simp
      show ?case
      proof (cases "v = 0")
        case v0: True
        then show ?thesis using cp by (simp add: clust_post_def clust_done_def)
      next
        case False
        then have "2 \<le> v" "v < n_fatent s" using cp by (auto simp: clust_post_def)
        then have v: "v \<noteq> 1" "v \<noteq> 0xFFFFFFFF"
          using layD(3) [OF l] by (auto simp: gok_def word_le_nat_alt word_less_nat_alt)
        show ?thesis using clust_done_post [OF assms(1) cp False p refl] False v by simp
      qed
    qed
    then show ?thesis
      unfolding f_write_clust_def True semiring_1_class.of_nat_0 by (simp only: simp_thms if_True wp_bind wp_case_prod Let_def)
  next
    case False
    have b: "unat (fptr fp) mod bpc s \<noteq> 0" using False by (auto simp: k_def)
    then have p0: "0 < unat (fptr fp)" by (cases "unat (fptr fp) = 0") auto
    have fc: "fclust fp = cs ! q" using ok(5) [OF p0] prev_div(2) [OF p0 bpc_pos [OF l] b] by (simp add: q_def)
    have pq: "unat (fptr fp) = bpc s * q + 512 * k + 0"
    proof -
      have "unat (fptr fp) mod bpc s mod 512 = 0" using assms(4) by (simp add: bpc_def mod_mod_cancel)
      then have "unat (fptr fp) mod bpc s = 512 * k" by (auto simp: k_def)
      then show ?thesis unfolding q_def by (metis add.right_neutral mult_div_mod_eq)
    qed
    have "bpc s * q < length cs * bpc s" using pq False ok(3,4) by linarith
    then have ql: "q < length cs" by (simp add: mult.commute)
    then have ne: "cs \<noteq> []" by auto
    have "fp\<lparr>fclust := cs ! q, fobj := (fobj fp)\<lparr>sclust := cs ! 0\<rparr>\<rparr> = fp"
      using fc file_chain_first(2) [OF ok(2) ne] by simp
    moreover have "wpos s fp cs q k 0" using ok pq k ql fc by (simp add: wpos_def)
    moreover have "fwrite s cs (unat (objsize (fobj fp))) s cs (unat (fptr fp)) []"
      using layD(1) [OF l] by (intro fwrite_keep [OF l dstep_refl [OF l] _ assms(2,3) ok(2-4)]) (simp add: same_table_def)
    ultimately have "clust_done s fp cs q k (False, FR_OK, fp, s)" unfolding clust_done_def by auto
    then show ?thesis using False csk by (simp add: f_write_clust_def)
  qed
qed

section \<open>The transfer\<close>

lemma sync_window_lay:
  assumes "lay s"
    and "\<And>s'. \<lbrakk>dstep s s'; same_table s s'; wflag s' = 0; win s' = win s; winsect s' = winsect s\<rbrakk> \<Longrightarrow> Q (FR_OK, s')"
  shows "wp (sync_window s) Q"
proof -
  note l = layD [OF assms(1)]
  have st: "dstep s s" "same_table s s" using dstep_refl [OF assms(1)] l(1) by (simp_all add: same_table_def)
  have g: "good s (synced s)" by (rule synced_good [OF l(2)])
  have l': "lay (synced s)" using assms(1) g by (rule lay_good) (simp add: wr_def)
  have "dstep s (synced s)" using l' g synced_dkeep [OF assms(1)] by (simp add: dstep_def)
  moreover have "same_table s (synced s)"
    using fat_entry_keep [OF synced_fkeep [OF l(2,4)] g l(3,5)] layD(1) [OF l'] fat_rest_good [OF g]
    by (simp add: same_table_def)
  ultimately show ?thesis
    unfolding sync_window_synced [OF l(2)] using l(6) st by (auto simp: wr_def intro!: assms(2))
qed

lemma wposD:
  assumes "wpos s fp cs q k j"
  shows "lay s" "file_chain s (sclust (fobj fp)) cs" "unat (objsize (fobj fp)) \<le> length cs * bpc s"
    "unat (fptr fp) \<le> unat (objsize (fobj fp))" "unat (fptr fp) = bpc s * q + 512 * k + j"
    "k < unat (csize s)" "j < 512" "q < length cs" "fclust fp = cs ! q"
    "unat (fptr fp) div bpc s = q" "unat (fptr fp) mod bpc s = 512 * k + j" "unat (fptr fp) mod 512 = j"
    "512 * k + 512 \<le> bpc s"
proof -
  show p: "lay s" "file_chain s (sclust (fobj fp)) cs" "unat (objsize (fobj fp)) \<le> length cs * bpc s"
    "unat (fptr fp) \<le> unat (objsize (fobj fp))" "unat (fptr fp) = bpc s * q + 512 * k + j"
    "k < unat (csize s)" "j < 512" "q < length cs" "fclust fp = cs ! q"
    using assms by (simp_all add: wpos_def)
  have "512 * (k + 1) \<le> 512 * unat (csize s)" using p(6) by (intro mult_le_mono2) simp
  then show b: "512 * k + 512 \<le> bpc s" by (simp add: bpc_def)
  show "unat (fptr fp) div bpc s = q" "unat (fptr fp) mod 512 = j" unfolding p(5) using pos_arith [OF p(6,7), of q] by simp_all
  show "unat (fptr fp) mod bpc s = 512 * k + j" unfolding p(5) using b p(7) by (simp add: add.assoc)
qed

lemma wpos_keep: "wpos s fp cs q k j \<Longrightarrow> dstep s s' \<Longrightarrow> same_table s s' \<Longrightarrow> wpos s' fp cs q k j"
  using dstep_facts [of s s'] file_chain_keep [of s s'] by (simp add: wpos_def)

lemma f_write_sect_exact:
  assumes "wpos s fp cs q k 0"
  shows "wp (f_write_sect s fp (of_nat k)) (\<lambda>(r, sec, s'). r = FR_OK \<and> sec = clst2sect s (cs ! q) + of_nat k \<and>
     dstep s s' \<and> same_table s s')"
proof -
  note p = wposD [OF assms]
  note fs = file_sect [OF p(1,2,8,6)]
  have "wp (if winsect s = fsect fp then sync_window s else Some (FR_OK, s)) (\<lambda>(r, s'). r = FR_OK \<and> dstep s s' \<and> same_table s s')"
    using dstep_refl [OF p(1)] layD(1) [OF p(1)] by (auto simp: same_table_def intro!: sync_window_lay [OF p(1)])
  then have "wp (if winsect s = fsect fp then sync_window s else Some (FR_OK, s))
      (\<lambda>(r, s'). r = FR_OK \<and> dstep s s' \<and> same_table s s' \<and> clst2sect s' (cs ! q) = clst2sect s (cs ! q))"
    by (rule wp_mono) (auto simp: dstep_facts)
  then show ?thesis
    unfolding f_write_sect_def wp_bind Let_def by (rule wp_mono) (use fs(3) p(9) in clarsimp)
qed

text \<open>\<open>xdone\<close>: \<open>cnt\<close> bytes of the caller's buffer are in the file, within one cluster.\<close>

definition xdone :: "vol \<Rightarrow> FIL \<Rightarrow> DWORD list \<Rightarrow> nat \<Rightarrow> nat \<Rightarrow> nat \<Rightarrow> buffer \<Rightarrow> UINT \<Rightarrow> UINT \<Rightarrow>
    FRESULT \<times> UINT \<times> FIL \<times> vol \<Rightarrow> bool" where
  "xdone s fp cs q k j buff btw bw = (\<lambda>(r, cnt, fp', s'). r = FR_OK \<and> 0 < unat cnt \<and> unat cnt \<le> unat btw \<and>
     fwrite s cs (unat (objsize (fobj fp))) s' cs (unat (fptr fp)) (take (unat cnt) (drop (unat bw) buff)) \<and>
     file_chain s' (sclust (fobj fp)) cs \<and> fobj fp' = fobj fp \<and> fptr fp' = fptr fp \<and> fclust fp' = cs ! q \<and>
     512 * k + j + unat cnt \<le> bpc s \<and>
     ((j + unat cnt) mod 512 \<noteq> 0 \<longrightarrow> j + unat cnt < 512 \<and> fsect fp' = clst2sect s (cs ! q) + of_nat k))"

lemma xdoneI:
  assumes w: "wpos s fp cs q k j" and s: "free_ok s" "sane s" "dstep s s1" "same_table s s1"
    and p: "wput s1 s' (512 * unat (clst2sect s (cs ! q) + of_nat k) + j) (take (unat cnt) (drop (unat bw) buff)) e"
    and c: "0 < unat cnt" "unat cnt \<le> unat btw" "unat bw + unat btw \<le> length buff" "512 * k + j + unat cnt + e \<le> bpc s"
    and e: "0 < e \<Longrightarrow> unat (objsize (fobj fp)) \<le> unat (fptr fp)"
    and f: "fobj fp' = fobj fp" "fptr fp' = fptr fp" "fclust fp' = cs ! q"
      "(j + unat cnt) mod 512 \<noteq> 0 \<Longrightarrow> j + unat cnt < 512 \<and> fsect fp' = clst2sect s (cs ! q) + of_nat k"
  shows "xdone s fp cs q k j buff btw bw (FR_OK, cnt, fp', s')"
proof -
  note wp = wposD [OF w] and d = dstep_facts [OF s(3)]
  let ?bs = "take (unat cnt) (drop (unat bw) buff)"
  have lb: "length ?bs = unat cnt" using c(2,3) by simp
  have ch1: "file_chain s1 (sclust (fobj fp)) cs" using wp(2) file_chain_keep [OF s(4)] by simp
  have a: "faddr s1 cs (unat (fptr fp)) = 512 * unat (clst2sect s (cs ! q) + of_nat k) + j"
    using faddr_sect [OF d(2) ch1 wp(8), of k j] wp(5-7) d(3-5) by simp
  have 1: "fwrite s cs (unat (objsize (fobj fp))) s1 cs (unat (fptr fp)) []"
    by (rule fwrite_keep [OF wp(1) s(3,4,1,2) wp(2-4)])
  have "free_ok s1" "sane s1" using 1 by (simp_all add: fwrite_def)
  then have 2: "fwrite s1 cs (unat (objsize (fobj fp))) s' cs (unat (fptr fp)) ?bs"
    using wp d(3) c(4) e lb by (intro fwrite_wput [OF d(2) p [folded a] _ _ ch1]) simp_all
  have "fwrite s cs (unat (objsize (fobj fp))) s' cs (unat (fptr fp)) ([] @ ?bs)"
    using 2 wp by (intro fwrite_trans [OF 1 _ wp(1,4)]) (simp_all add: max_absorb1)
  moreover have "file_chain s' (sclust (fobj fp)) cs" using wput_facts(6) [OF p] ch1 by simp
  ultimately show ?thesis using c f by (simp add: xdone_def)
qed

lemma f_write_partial_exact:
  assumes w: "wpos s fp cs q k j" and s: "free_ok s" "sane s" "dstep s s1" "same_table s s1"
    and c: "0 < btw" "unat bw + unat btw \<le> length buff"
    and f: "fobj fp1 = fobj fp" "fptr fp1 = fptr fp" "fclust fp1 = cs ! q" "fsect fp1 = clst2sect s (cs ! q) + of_nat k"
  shows "wp (f_write_partial s1 fp1 buff btw bw) (\<lambda>(r, cnt, s'). xdone s fp cs q k j buff btw bw (r, cnt, fp1, s'))"
proof -
  note p = wposD [OF w] and d = dstep_facts [OF s(3)]
  note fs = file_sect [OF p(1,2,8,6)]
  have j: "unat (fptr fp mod 512) = j" unfolding unat_32_mod by (rule p(12))
  define cnt where "cnt = (if 512 - fptr fp mod 512 > btw then btw else 512 - fptr fp mod 512)"
  note pc = part_count [OF c(1) cnt_def, unfolded j]
  show ?thesis
    unfolding f_write_partial_def Let_def f(2,4) cnt_def [symmetric] wp_bind j
  proof (rule move_window_data [OF d(2) fs(2)], goal_cases)
    case (1 s2)
    have t: "dstep s s2" "same_table s s2"
      using dstep_trans [OF s(3) 1(1)] same_table_trans [OF s(4) 1(2)] by simp_all
    let ?bs = "take (unat cnt) (drop (unat bw) buff)"
    have lb: "length ?bs = unat cnt" using pc c(2) by simp
    have l2: "lay s2" "length (win s2) = 512" using dstep_facts(2) [OF t(1)] layD(2) by simp_all
    have "in_data s2 (winsect s2)" using fs(1) 1(3) in_data_good [OF dstep_facts(1) [OF t(1)]] by simp
    then have "wput s2 (s2\<lparr>win := take j (win s2) @ ?bs @ drop (j + length ?bs) (win s2), wflag := 1\<rparr>)
           (512 * unat (winsect s2) + j) ?bs 0" using pc(3) lb by (intro wput_win [OF l2(1)]) simp_all
    then have "xdone s fp cs q k j buff btw bw (FR_OK, cnt, fp1, s2\<lparr>win := take j (win s2) @ ?bs @ drop (j + length ?bs) (win s2), wflag := 1\<rparr>)"
      unfolding 1(3) by (rule xdoneI [OF w s(1,2) t]) (use pc c f p(13) in \<open>auto simp: order_le_less\<close>)
    then show ?case using pc lb l2 c(2) by (simp add: memread_def memwrite_def)
  qed
qed

lemma f_write_edge_exact:
  assumes w: "wpos s fp cs q k 0" and s: "free_ok s" "sane s" "dstep s s1" "same_table s s1"
    and c: "0 < btw" "unat bw + unat btw \<le> length buff" "unat btw < 512"
    and S: "S = clst2sect s (cs ! q) + of_nat k"
  shows "wp (do {
         (res, s) \<leftarrow> f_write_edge s1 fp S;
         if res \<noteq> FR_OK then Some (res, 0, fp, s)
         else do {
           let fp = fp\<lparr>fsect := S\<rparr>;
           (res, wcnt, s) \<leftarrow> f_write_partial s fp buff btw bw;
           Some (res, wcnt, fp, s)
         }
       }) (xdone s fp cs q k 0 buff btw bw)"
proof (cases "fptr fp \<ge> objsize (fobj fp)")
  case False
  have "wp (f_write_partial s1 (fp\<lparr>fsect := S\<rparr>) buff btw bw)
      (\<lambda>(r, cnt, s'). xdone s fp cs q k 0 buff btw bw (r, cnt, fp\<lparr>fsect := S\<rparr>, s'))"
    using wposD(9) [OF w] S by (intro f_write_partial_exact [OF w s c(1,2)]) simp_all
  then show ?thesis using False by (simp add: f_write_edge_def wp_bind case_prod_unfold Let_def)
next
  case True
  note p = wposD [OF w] and d = dstep_facts [OF s(3)]
  note fs = file_sect [OF p(1,2,8,6), folded S]
  have m: "fptr fp mod 512 = 0" using fptr_mod [OF p(12)] by simp
  let ?bs = "take (unat btw) (drop (unat bw) buff)"
  have lb: "length ?bs = unat btw" using c(2) by simp
  have cnt: "btw < 512" using c(3) by (simp add: word_less_nat_alt)
  have "wp (sync_window s1) (\<lambda>(r, s2). r = FR_OK \<and> wp (f_write_partial (s2\<lparr>winsect := S\<rparr>) (fp\<lparr>fsect := S\<rparr>) buff btw bw)
      (\<lambda>(r, cnt, s'). xdone s fp cs q k 0 buff btw bw (r, cnt, fp\<lparr>fsect := S\<rparr>, s')))"
  proof (rule sync_window_lay [OF d(2)])
    fix s2 assume s2: "dstep s1 s2" "same_table s1 s2" "wflag s2 = 0"
    have t: "dstep s s2" "same_table s s2"
      using dstep_trans [OF s(3) s2(1)] same_table_trans [OF s(4) s2(2)] by simp_all
    have l2: "lay s2" "length (win s2) = 512" using dstep_facts(2) [OF t(1)] layD(2) by simp_all
    have "in_data s2 S" using fs(1) in_data_good [OF dstep_facts(1) [OF t(1)]] by simp
    from wput_edge [OF l2(1) s2(3) this, of ?bs]
    have "wput s2 (s2\<lparr>winsect := S, win := ?bs @ drop (unat btw) (win s2), wflag := 1\<rparr>)
           (512 * unat (clst2sect s (cs ! q) + of_nat k) + 0) ?bs (512 - unat btw)" using lb c(3) S by simp
    then have "xdone s fp cs q k 0 buff btw bw (FR_OK, btw, fp\<lparr>fsect := S\<rparr>,
        s2\<lparr>winsect := S, win := ?bs @ drop (unat btw) (win s2), wflag := 1\<rparr>)"
      by (rule xdoneI [OF w s(1,2) t]) (use c p(9,13) S True in \<open>auto simp: word_less_nat_alt word_le_nat_alt\<close>)
    then show "case (FR_OK, s2) of (r, s2) \<Rightarrow> r = FR_OK \<and> wp (f_write_partial (s2\<lparr>winsect := S\<rparr>) (fp\<lparr>fsect := S\<rparr>) buff btw bw)
      (\<lambda>(r, cnt, s'). xdone s fp cs q k 0 buff btw bw (r, cnt, fp\<lparr>fsect := S\<rparr>, s'))"
      using c l2 lb
      by (simp add: f_write_partial_def Let_def m cnt move_window_def memread_def memwrite_def)
  qed
  then show ?thesis
    using True by (auto simp: f_write_edge_def wp_bind case_prod_unfold Let_def elim!: wp_mono)
qed

lemma f_write_xfer_exact:
  assumes w: "wpos s fp cs q k 0" and s: "free_ok s" "sane s" "dstep s s1" "same_table s s1"
    and c: "0 < btw" "unat bw + unat btw \<le> length buff"
    and S: "S = clst2sect s (cs ! q) + of_nat k"
  shows "wp (f_write_xfer s1 fp buff btw bw S (of_nat k)) (xdone s fp cs q k 0 buff btw bw)"
proof (cases "0 < btw div 512")
  case False
  have "unat (btw div 512) = unat btw div 512" by (simp add: unat_div)
  then have "unat btw < 512" using False by (simp add: word_less_nat_alt div_eq_0_iff)
  then show ?thesis
    using f_write_edge_exact [OF w s c _ S] False by (simp add: f_write_xfer_def Let_def)
next
  case True
  note p = wposD [OF w] and d = dstep_facts [OF s(3)]
  define cc where "cc = clip_count s1 (of_nat k) (btw div 512)"
  note cb = clip_count_bounds [of "of_nat k" s1 btw, folded cc_def, unfolded unat_of_sect [OF p(6)] d(4), OF p(6) True]
  note fs = file_sect [OF p(1,2,8,6), folded S]
  have "unat S + unat cc \<le> DISK_SECTORS"
    using clst2sect_lay(2) [OF p(1) fs(4,5) p(6)] clst2sect_lay(3) [OF p(1) fs(4,5) cb(5)] unfolding S by linarith
  moreover have "unat bw + 512 * unat cc \<le> length buff" using cb(2) c(2) by linarith
  ultimately have "wp (f_write_direct s1 buff bw S cc) (\<lambda>(r, s'). r = RES_OK \<and>
     wput s1 s' (512 * unat S) (take (512 * unat cc) (drop (unat bw) buff)) 0)"
    using fs(1) in_data_good [OF d(1)] by (intro f_write_direct_exact [OF d(2)]) simp_all
  then have "wp (f_write_direct s1 buff bw S cc) (\<lambda>(r, s'). r = RES_OK \<and>
     xdone s fp cs q k 0 buff btw bw (FR_OK, 512 * cc, fp, s'))"
  proof (rule wp_mono, clarify, goal_cases)
    case (1 r s')
    then have x: "wput s1 s' (512 * unat (clst2sect s (cs ! q) + of_nat k) + 0) (take (unat (512 * cc)) (drop (unat bw) buff)) 0"
      using cb(4) S by simp
    have "512 * (k + unat cc) \<le> bpc s" unfolding bpc_def using cb(5) by simp
    then show ?case
      by (intro conjI refl, intro xdoneI [OF w s x]) (use cb c p in simp_all)
  qed
  then show ?thesis
    using True by (auto simp: f_write_xfer_def Let_def cc_def [symmetric] wp_bind elim!: wp_mono)
qed

section \<open>The loop\<close>

text \<open>\<open>wround\<close>: one round of the loop either finds the volume full, or writes the next \<open>cnt\<close> bytes.\<close>

definition wround :: "vol \<Rightarrow> FIL \<Rightarrow> DWORD list \<Rightarrow> buffer \<Rightarrow> UINT \<Rightarrow> UINT \<Rightarrow>
    bool \<times> FRESULT \<times> UINT \<times> FIL \<times> vol \<Rightarrow> bool" where
  "wround s fp cs buff btw bw = (\<lambda>(brk, r, cnt, fp', s'). r = FR_OK \<and>
     (if brk then fp' = fp \<and> free_set s = {} \<and> dstep s s' \<and> same_table s s'
      else 0 < unat cnt \<and> unat cnt \<le> unat btw \<and> fptr fp' = fptr fp \<and> objsize (fobj fp') = objsize (fobj fp) \<and>
        (\<exists>cs'. fwrite s cs (unat (objsize (fobj fp))) s' cs' (unat (fptr fp)) (take (unat cnt) (drop (unat bw) buff)) \<and>
               file_ok s' (f_write_advance fp' cnt) cs')))"

lemma div_mult_add: "r < b \<Longrightarrow> (b * q + r) div b = (q::nat)"
  by simp

lemma file_ok_write:
  assumes w: "wpos s fp cs q k j" and x: "xdone s fp cs q k j buff btw bw (r, cnt, fp', s')"
    and b: "unat (fptr fp) + unat btw < 2 ^ 32"
  shows "file_ok s' (f_write_advance fp' cnt) cs"
proof -
  note p = wposD [OF w]
  have xs: "0 < unat cnt" "unat cnt \<le> unat btw" "file_chain s' (sclust (fobj fp)) cs" "fobj fp' = fobj fp" "fptr fp' = fptr fp"
    "fclust fp' = cs ! q" "512 * k + j + unat cnt \<le> bpc s"
    "(j + unat cnt) mod 512 \<noteq> 0 \<longrightarrow> j + unat cnt < 512 \<and> fsect fp' = clst2sect s (cs ! q) + of_nat k"
    and g: "good s s'" "lay s'"
    using x by (auto simp: xdone_def fwrite_def)
  have bp: "bpc s' = bpc s" by (rule good_bpc [OF g(1)])
  have u: "unat (fptr fp + cnt) = unat (fptr fp) + unat cnt"
    using b xs(2) by (simp add: unat_word_ariths)
  have pe: "unat (fptr fp) + unat cnt \<le> bpc s * (q + 1)" using p(5) xs(7) by simp
  also have "\<dots> \<le> length cs * bpc s" using p(8) mult_le_mono2 [of "q + 1" "length cs" "bpc s"] by (simp add: mult.commute)
  finally have sz: "unat (fptr fp) + unat cnt \<le> length cs * bpc s" .
  have e: "unat (fptr fp) + unat cnt - 1 = bpc s * q + (512 * k + j + unat cnt - 1)" using p(5) xs(1) by linarith
  have d: "(unat (fptr fp) + unat cnt - 1) div bpc s = q"
    unfolding e by (rule div_mult_add) (use xs(1,7) in linarith)
  have m: "(unat (fptr fp) + unat cnt) mod 512 = (j + unat cnt) mod 512"
    using p(12) by (metis mod_add_left_eq)
  have s: "fsect fp' = clst2sect s (cs ! ((unat (fptr fp) + unat cnt) div bpc s)) +
       of_nat ((unat (fptr fp) + unat cnt) mod bpc s div 512)" if "(unat (fptr fp) + unat cnt) mod 512 \<noteq> 0"
  proof -
    have j: "j + unat cnt < 512" "fsect fp' = clst2sect s (cs ! q) + of_nat k" using xs(8) that m by auto
    have e: "unat (fptr fp) + unat cnt = bpc s * q + 512 * k + (j + unat cnt)" using p(5) by simp
    show ?thesis unfolding e pos_arith [OF p(6) j(1)] by (rule j(2))
  qed
  show ?thesis
    unfolding file_ok_def
    using g(2) xs sz p(3) u d s bp clst2sect_good [OF g(1)]
    by (auto simp: f_write_advance_def Let_def word_less_nat_alt)
qed

lemma wroundI:
  assumes f: "fwrite s cs (unat (objsize (fobj fp))) s1 cs1 (unat (fptr fp)) []" and "lay s" "unat (fptr fp) \<le> unat (objsize (fobj fp))"
    and w: "wpos s1 fp1 cs1 q k j" and x: "xdone s1 fp1 cs1 q k j buff btw bw (r, cnt, fp', s')"
    and e: "fptr fp1 = fptr fp" "objsize (fobj fp1) = objsize (fobj fp)"
    and b: "unat (fptr fp) + unat btw < 2 ^ 32"
  shows "wround s fp cs buff btw bw (False, r, cnt, fp', s')"
proof -
  have "file_ok s' (f_write_advance fp' cnt) cs1"
    using b e by (intro file_ok_write [OF w x]) simp
  moreover have "bpc s1 = bpc s" using f good_bpc [of s s1] by (simp add: fwrite_def)
  then have "fwrite s cs (unat (objsize (fobj fp))) s' cs1 (unat (fptr fp)) ([] @ take (unat cnt) (drop (unat bw) buff))"
    using x e wposD(3,4) [OF w] assms(3)
    by (intro fwrite_trans [OF f _ assms(2)]) (auto simp: xdone_def max_absorb1)
  ultimately show ?thesis using x e unfolding wround_def xdone_def by auto
qed

lemma wpos_inside:
  assumes "file_ok s fp cs" "unat (fptr fp) mod 512 \<noteq> 0"
  obtains q k j where "wpos s fp cs q k j" "0 < j" "fsect fp = clst2sect s (cs ! q) + of_nat k"
proof -
  note ok = file_okD [OF assms(1)]
  obtain q k j where p: "unat (fptr fp) = bpc s * q + 512 * k + j" "k < unat (csize s)" "j < 512"
    by (rule pos_cases [OF ok(1)])
  note pa = pos_arith [OF p(2,3), of q, folded p(1)]
  have j: "0 < j" using assms(2) pa(3) by simp
  have "length cs * bpc s mod 512 = 0" by (simp add: bpc_def)
  then have "unat (fptr fp) \<noteq> length cs * bpc s" using assms(2) by metis
  then have "unat (fptr fp) < length cs * bpc s" using ok(3,4) by linarith
  then have q: "q < length cs" using pa(1) by (metis less_mult_imp_div_less)
  have "unat (fptr fp) mod bpc s mod 512 = j" using pa(3) by (simp add: bpc_def mod_mod_cancel)
  then have p0: "0 < unat (fptr fp)" "unat (fptr fp) mod bpc s \<noteq> 0" using p(1) j by auto
  have "fclust fp = cs ! q" using ok(5) [OF p0(1)] prev_div(2) [OF p0(1) bpc_pos [OF ok(1)] p0(2)] pa(1) by simp
  then have "wpos s fp cs q k j" using ok p q by (simp add: wpos_def)
  moreover have "fsect fp = clst2sect s (cs ! q) + of_nat k" using ok(6) [OF assms(2)] pa by simp
  ultimately show ?thesis using that j by blast
qed

lemma f_write_step_exact:
  assumes "file_ok s fp cs" "free_ok s" "sane s" "0 < btw" "unat bw + unat btw \<le> length buff"
    and "unat (fptr fp) + unat btw < 2 ^ 32"
  shows "wp (f_write_step s fp buff btw bw) (wround s fp cs buff btw bw)"
proof (cases "unat (fptr fp) mod 512 = 0")
  case False
  note ok = file_okD [OF assms(1)]
  have st: "dstep s s" "same_table s s" using dstep_refl [OF ok(1)] layD(1) [OF ok(1)] by (simp_all add: same_table_def)
  obtain q k j where w: "wpos s fp cs q k j" "0 < j" "fsect fp = clst2sect s (cs ! q) + of_nat k"
    by (rule wpos_inside [OF assms(1) False])
  have f: "fwrite s cs (unat (objsize (fobj fp))) s cs (unat (fptr fp)) []"
    by (rule fwrite_keep [OF ok(1) st assms(2,3) ok(2-4)])
  have "wp (f_write_partial s fp buff btw bw) (\<lambda>(r, cnt, s'). xdone s fp cs q k j buff btw bw (r, cnt, fp, s'))"
    using w(3) wposD(9) [OF w(1)] by (intro f_write_partial_exact [OF w(1) assms(2,3) st assms(4,5)]) simp_all
  then have "wp (f_write_partial s fp buff btw bw) (\<lambda>(r, cnt, s'). wround s fp cs buff btw bw (False, r, cnt, fp, s'))"
    by (rule wp_mono) (auto intro: wroundI [OF f ok(1,4) w(1) _ refl refl assms(6)])
  moreover have "fptr fp mod 512 \<noteq> 0" using fptr_mod [of fp, OF refl] False by simp
  ultimately show ?thesis unfolding f_write_step_def by (simp add: wp_bind case_prod_unfold)
next
  case True
  note ok = file_okD [OF assms(1)]
  define q where "q = unat (fptr fp) div bpc s"
  define k where "k = unat (fptr fp) mod bpc s div 512"
  have xf: "wp (do {
          (res, sector, s) \<leftarrow> f_write_sect s1 fp1 (of_nat k);
          if res \<noteq> FR_OK then Some (False, res, 0, fp1, s)
          else do {
            (res, wcnt, fp, s) \<leftarrow> f_write_xfer s fp1 buff btw bw sector (of_nat k);
            Some (False, res, wcnt, fp, s)
          }
        }) (wround s fp cs buff btw bw)"
    if f: "fwrite s cs (unat (objsize (fobj fp))) s1 cs1 (unat (fptr fp)) []" and w: "wpos s1 fp1 cs1 q k 0"
      and e: "fptr fp1 = fptr fp" "objsize (fobj fp1) = objsize (fobj fp)" for s1 fp1 cs1
  proof -
    have s1: "free_ok s1" "sane s1" using f by (simp_all add: fwrite_def)
    have x: "wp (f_write_xfer s2 fp1 buff btw bw (clst2sect s1 (cs1 ! q) + of_nat k) (of_nat k))
        (\<lambda>(res, wcnt, fp', s'). wround s fp cs buff btw bw (False, res, wcnt, fp', s'))"
      if "dstep s1 s2" "same_table s1 s2" for s2
      by (rule wp_mono [OF f_write_xfer_exact [OF w s1 that assms(4,5) refl]])
        (auto intro: wroundI [OF f ok(1,4) w _ e assms(6)])
    from f_write_sect_exact [OF w] show ?thesis
      unfolding wp_bind by (rule wp_mono) (use x in \<open>auto simp: wp_bind case_prod_unfold\<close>)
  qed
  have "wp (f_write_clust s fp (of_nat k)) (clust_done s fp cs q k)"
    unfolding k_def q_def by (rule f_write_clust_exact [OF assms(1-3) True])
  then have "wp (f_write_clust s fp (of_nat k)) (\<lambda>(brk, res, fp1, s1). wp (if brk \<or> res \<noteq> FR_OK then Some (brk, res, 0, fp1, s1)
      else do {
          (res, sector, s) \<leftarrow> f_write_sect s1 fp1 (of_nat k);
          if res \<noteq> FR_OK then Some (False, res, 0, fp1, s)
          else do {
            (res, wcnt, fp, s) \<leftarrow> f_write_xfer s fp1 buff btw bw sector (of_nat k);
            Some (False, res, wcnt, fp, s)
          }
        }) (wround s fp cs buff btw bw))"
  proof (rule wp_mono, clarify, goal_cases)
    case (1 brk r fp1 s1)
    then have c: "clust_done s fp cs q k (brk, r, fp1, s1)" by simp
    show ?case
    proof (cases brk)
      case True
      then show ?thesis using c by (simp add: clust_done_def wround_def)
    next
      case False
      then obtain cs1 where "fwrite s cs (unat (objsize (fobj fp))) s1 cs1 (unat (fptr fp)) []" "wpos s1 fp1 cs1 q k 0"
        "fp1 = fp\<lparr>fclust := cs1 ! q, fobj := (fobj fp)\<lparr>sclust := cs1 ! 0\<rparr>\<rparr>" "r = FR_OK"
        using c by (auto simp: clust_done_def)
      then show ?thesis using xf [of s1 cs1 fp1] False by simp
    qed
  qed
  moreover have "fptr fp mod 512 = 0" using fptr_mod [OF True] by simp
  ultimately show ?thesis
    unfolding f_write_step_def Let_def csect_pos [OF ok(1)] k_def [symmetric]
    by (simp only: wp_bind wp_case_prod if_True simp_thms)
qed

text \<open>The result of the loop: everything is written, or the volume is full.\<close>

definition wdone :: "vol \<Rightarrow> FIL \<Rightarrow> DWORD list \<Rightarrow> buffer \<Rightarrow> nat \<Rightarrow> nat \<Rightarrow> FRESULT \<times> FIL \<times> UINT \<times> vol \<Rightarrow> bool" where
  "wdone s fp cs buff btw bw = (\<lambda>(r, fp', bw', s'). r = FR_OK \<and>
     (\<exists>n cs'. unat bw' = bw + n \<and> n \<le> btw \<and> (n = btw \<or> free_set s' = {}) \<and>
        fwrite s cs (unat (objsize (fobj fp))) s' cs' (unat (fptr fp)) (take n (drop bw buff)) \<and> file_ok s' fp' cs' \<and>
        unat (fptr fp') = unat (fptr fp) + n \<and>
        unat (objsize (fobj fp')) = max (unat (objsize (fobj fp))) (unat (fptr fp) + n)))"

lemma wdone_stop:
  assumes "file_ok s fp cs" "free_ok s" "sane s" "dstep s s'" "same_table s s'" "btw = 0 \<or> free_set s = {}"
  shows "wdone s fp cs buff btw (unat bw) (FR_OK, fp, bw, s')"
proof -
  note ok = file_okD [OF assms(1)]
  have "fwrite s cs (unat (objsize (fobj fp))) s' cs (unat (fptr fp)) []"
    by (rule fwrite_keep [OF ok(1) assms(4,5,2,3) ok(2-4)])
  then show ?thesis
    unfolding wdone_def using assms(6) file_ok_keep [OF assms(1,4,5)] same_table_free [OF assms(5)] ok(4)
    by (auto intro!: exI [of _ 0] exI [of _ cs])
qed

lemma wdone_next:
  fixes cnt bw :: DWORD
  assumes ok: "file_ok s fp cs"
    and r: "wround s fp cs buff btw bw (False, FR_OK, cnt, fp1, s1)"
    and "unat (fptr fp) + unat btw < 2 ^ 32" "unat bw + unat btw \<le> length buff"
    and w: "\<And>cs1. file_ok s1 (f_write_advance fp1 cnt) cs1 \<Longrightarrow> free_ok s1 \<Longrightarrow> sane s1 \<Longrightarrow>
              wdone s1 (f_write_advance fp1 cnt) cs1 buff (unat btw - unat cnt) (unat bw + unat cnt) y"
  shows "wdone s fp cs buff (unat btw) (unat bw) y"
proof -
  note okD = file_okD [OF ok]
  obtain cs1 where c: "0 < unat cnt" "unat cnt \<le> unat btw" "fptr fp1 = fptr fp" "objsize (fobj fp1) = objsize (fobj fp)"
    and f1: "fwrite s cs (unat (objsize (fobj fp))) s1 cs1 (unat (fptr fp)) (take (unat cnt) (drop (unat bw) buff))"
    and ok1: "file_ok s1 (f_write_advance fp1 cnt) cs1"
    using r by (auto simp: wround_def)
  have s1: "free_ok s1" "sane s1" and g: "good s s1" using f1 by (simp_all add: fwrite_def)
  have b: "bpc s1 = bpc s" by (rule good_bpc [OF g])
  have u: "unat (fptr fp + cnt) = unat (fptr fp) + unat cnt" using assms(3) c(2) by (simp add: unat_word_ariths)
  have m: "unat (max (objsize (fobj fp)) (fptr fp + cnt)) = max (unat (objsize (fobj fp))) (unat (fptr fp) + unat cnt)"
    using u by (simp add: max_def word_le_nat_alt)
  have lb: "length (take (unat cnt) (drop (unat bw) buff)) = unat cnt" using c(2) assms(4) by simp
  obtain r2 fp2 bw2 s2 where y: "y = (r2, fp2, bw2, s2)" by (cases y)
  from w [OF ok1 s1] obtain n cs2 where n: "unat bw2 = unat bw + unat cnt + n" "n \<le> unat btw - unat cnt"
      "n = unat btw - unat cnt \<or> free_set s2 = {}" "r2 = FR_OK" "file_ok s2 fp2 cs2"
      "unat (fptr fp2) = unat (fptr fp) + unat cnt + n"
      "unat (objsize (fobj fp2)) = max (max (unat (objsize (fobj fp))) (unat (fptr fp) + unat cnt)) (unat (fptr fp) + unat cnt + n)"
    and f2: "fwrite s1 cs1 (max (unat (objsize (fobj fp))) (unat (fptr fp) + unat cnt)) s2 cs2 (unat (fptr fp) + unat cnt)
           (take n (drop (unat bw + unat cnt) buff))"
    unfolding y wdone_def by (auto simp: c u m)
  note sz1 = file_okD(3,4) [OF ok1]
  have "fwrite s cs (unat (objsize (fobj fp))) s2 cs2 (unat (fptr fp))
      (take (unat cnt) (drop (unat bw) buff) @ take n (drop (unat bw + unat cnt) buff))"
  proof (rule fwrite_trans [OF f1 _ okD(1,4)], unfold lb)
    show "fwrite s1 cs1 (max (unat (objsize (fobj fp))) (unat (fptr fp) + unat cnt)) s2 cs2 (unat (fptr fp) + unat cnt)
           (take n (drop (unat bw + unat cnt) buff))" by (rule f2)
    show "unat (fptr fp) + unat cnt \<le> length cs1 * bpc s" "unat (objsize (fobj fp)) \<le> length cs1 * bpc s"
      using sz1(1) b c(3,4) m by simp_all
  qed
  moreover have "take (unat cnt) (drop (unat bw) buff) @ take n (drop (unat bw + unat cnt) buff) =
      take (unat cnt + n) (drop (unat bw) buff)"
    by (simp add: take_add add.commute [of "unat bw"])
  ultimately have "fwrite s cs (unat (objsize (fobj fp))) s2 cs2 (unat (fptr fp)) (take (unat cnt + n) (drop (unat bw) buff))"
    by simp
  then show ?thesis
    unfolding y wdone_def using n c(2) by (auto intro!: exI [of _ "unat cnt + n"] exI [of _ cs2] simp: max_def)
qed

lemma f_write_loop_exact:
  fixes btw bw :: DWORD
  assumes "file_ok s fp cs" "free_ok s" "sane s" "unat bw + unat btw \<le> length buff" "unat bw + unat btw < 2 ^ 32"
    and "unat (fptr fp) + unat btw < 2 ^ 32"
  shows "wp (f_write_loop s fp buff btw bw) (wdone s fp cs buff (unat btw) (unat bw))"
  using assms
proof (induction "unat btw" arbitrary: s fp cs btw bw rule: less_induct)
  case less
  note ok = file_okD [OF less.prems(1)]
  have st: "dstep s s" "same_table s s" using dstep_refl [OF ok(1)] layD(1) [OF ok(1)] by (simp_all add: same_table_def)
  show ?case
  proof (cases "0 < btw")
    case False
    then show ?thesis
      using wdone_stop [OF less.prems(1-3) st] by (subst f_write_loop.simps) (simp add: not_less)
  next
    case True
    have nx: "wp (f_write_loop s1 (f_write_advance fp1 cnt) buff (btw - cnt) (bw + cnt)) (wdone s fp cs buff (unat btw) (unat bw))"
      if r: "wround s fp cs buff btw bw (False, FR_OK, cnt, fp1, s1)" for cnt fp1 s1
    proof -
      obtain cs1 where c: "0 < unat cnt" "unat cnt \<le> unat btw" "fptr fp1 = fptr fp" "file_ok s1 (f_write_advance fp1 cnt) cs1"
        "free_ok s1" "sane s1" using r by (auto simp: wround_def fwrite_def)
      note cs = count_step [OF c(1,2) less.prems(4)]
      have u: "unat (fptr fp + cnt) = unat (fptr fp) + unat cnt" using less.prems(6) c(2) by (simp add: unat_word_ariths)
      have rec: "wp (f_write_loop s1 (f_write_advance fp1 cnt) buff (btw - cnt) (bw + cnt))
          (wdone s1 (f_write_advance fp1 cnt) cs2 buff (unat (btw - cnt)) (unat (bw + cnt)))"
        if "file_ok s1 (f_write_advance fp1 cnt) cs2" for cs2
        using that cs less.prems(5,6) c u by (intro less.hyps) simp_all
      from rec [OF c(4)] obtain y where y: "f_write_loop s1 (f_write_advance fp1 cnt) buff (btw - cnt) (bw + cnt) = Some y"
        by (elim wpE)
      have "wdone s fp cs buff (unat btw) (unat bw) y"
        by (rule wdone_next [OF less.prems(1) r less.prems(6,4)]) (use rec cs(5,6) less.prems(5) y in simp)
      then show ?thesis using y by simp
    qed
    have "wp (f_write_step s fp buff btw bw) (\<lambda>(brk, res, wcnt, fp, s). wp (if brk then Some (FR_OK, fp, bw, s)
        else if res \<noteq> FR_OK then Some (res, fp\<lparr>ferr := res\<rparr>, bw, s)
        else f_write_loop s (f_write_advance fp wcnt) buff (btw - wcnt) (bw + wcnt)) (wdone s0 fp0 cs buff (unat btw) (unat bw)))"
      if "s0 = s" "fp0 = fp" for s0 fp0
    proof (rule wp_mono [OF f_write_step_exact [OF less.prems(1-3) True less.prems(4,6)]], clarify, goal_cases)
      case (1 brk r cnt fp1 s1)
      show ?case
      proof (cases brk)
        case True
        then have "fp1 = fp" "free_set s = {}" "dstep s s1" "same_table s s1" using 1 by (simp_all add: wround_def)
        then show ?thesis using True wdone_stop [OF less.prems(1-3)] that by simp
      next
        case False
        then show ?thesis using nx [of cnt fp1 s1] 1 that by (auto simp: wround_def)
      qed
    qed
    from this [OF refl refl] show ?thesis
      using True by (subst f_write_loop.simps) (simp only: wp_bind wp_case_prod if_True)
  qed
qed

text \<open>\<open>f_write\<close> as a whole.\<close>

lemma f_write_exact:
  fixes btw :: DWORD
  assumes "validate sy (fobj fp) = (FR_OK, Some a)" "ferr fp = FR_OK" "fflag fp AND FA_WRITE \<noteq> 0"
    and "file_ok (load_vol sy a) fp cs" "free_ok (load_vol sy a)" "sane (load_vol sy a)"
    and "unat btw \<le> length buff" "unat (fptr fp) + unat btw < 2 ^ 32"
  shows "wp (f_write sy fp buff btw) (\<lambda>(r, fp', bw, sy'). r = FR_OK \<and>
     (\<exists>s' fp1. sy' = store_vol sy a s' \<and> fp' = fp1\<lparr>fflag := fflag fp1 OR FA_MODIFIED\<rparr> \<and>
        wdone (load_vol sy a) fp cs buff (unat btw) 0 (FR_OK, fp1, bw, s')))"
proof -
  have nw: "\<not> fptr fp + btw < fptr fp"
  proof -
    have "unat (fptr fp + btw) = unat (fptr fp) + unat btw" using assms(8) by (simp add: unat_word_ariths)
    then show ?thesis by (simp add: word_less_nat_alt)
  qed
  have "wp (f_write_loop (load_vol sy a) fp buff btw 0) (wdone (load_vol sy a) fp cs buff (unat btw) (unat (0::DWORD)))"
    using assms(7,8) by (intro f_write_loop_exact [OF assms(4-6)]) simp_all
  then show ?thesis
    unfolding f_write_def assms(1) using assms(2,3) nw
    by (simp add: wp_bind Let_def) (erule wp_mono, auto simp: wdone_def intro!: exI)
qed

end
