(* ===== verification/FF_SeekSpec.thy ===== *)
theory FF_SeekSpec
  imports FF_WriteSpec
begin

text \<open>
  \<open>f_lseek\<close> within a file, and the composition of writing, seeking and reading.
\<close>

section \<open>Seeking\<close>

lemma bcs_word:
  assumes "lay s" shows "unat (ucast (csize s) * 512 :: DWORD) = bpc s"
proof -
  have "unat (csize s) * 512 < 4294967296" using unat_16_less [of "csize s"] by linarith
  then show ?thesis by (simp add: unat_word_ariths unat_ucast_up bpc_def)
qed

text \<open>The next cluster of a chain, by either function that the loop calls.\<close>

lemma follow_either:
  assumes "lay s" "2 \<le> c" "c < n_fatent s" "2 \<le> fat_entry s c" "fat_entry s c < n_fatent s"
  shows "wp (if b then create_chain s c else get_fat s c) (\<lambda>(v, s'). v = fat_entry s c \<and> dstep s s' \<and> same_table s s')"
  using create_chain_follow [OF assms] assms by (auto intro!: get_fat_lay)

definition sdone :: "vol \<Rightarrow> FIL \<Rightarrow> DWORD list \<Rightarrow> nat \<Rightarrow> FRESULT \<times> FIL \<times> DWORD \<times> FSIZE_t \<times> vol \<Rightarrow> bool" where
  "sdone s fp cs t = (\<lambda>(r, fp', clst, ofs, s'). r = FR_OK \<and> dstep s s' \<and> same_table s s' \<and> fobj fp' = fobj fp \<and>
     fflag fp' = fflag fp \<and> ferr fp' = ferr fp \<and> fsect fp' = fsect fp \<and>
     (\<exists>m. m < length cs \<and> clst = cs ! m \<and> fclust fp' = cs ! m \<and> unat (fptr fp') = m * bpc s \<and>
          m * bpc s + unat ofs = t \<and> 0 < unat ofs \<and> unat ofs \<le> bpc s))"

lemma f_lseek_loop_exact:
  fixes ofs :: DWORD
  assumes "lay s" "file_chain s c cs" "m < length cs" "fclust fp = cs ! m" "unat (fptr fp) = m * bpc s"
    and "unat bcs = bpc s" "m * bpc s + unat ofs = t" "0 < unat ofs" "t \<le> length cs * bpc s" "t < 4294967296"
  shows "wp (f_lseek_loop s fp bcs (cs ! m) ofs) (sdone s fp cs t)"
  using assms
proof (induction "unat ofs" arbitrary: s fp m ofs rule: less_induct)
  case less
  note l = less.prems(1) and bp = bpc_pos [OF less.prems(1)]
  show ?case
  proof (cases "ofs > bcs")
    case False
    then have "unat ofs \<le> bpc s" using less.prems(6) by (simp add: word_less_nat_alt)
    then show ?thesis
      using False less.prems(3-5,7,8) dstep_refl [OF l] layD(1) [OF l]
      by (subst f_lseek_loop.simps) (auto simp: sdone_def same_table_def intro!: exI [of _ m])
  next
    case True
    then have gt: "bpc s < unat ofs" using less.prems(6) by (simp add: word_less_nat_alt)
    have m1: "Suc m < length cs"
    proof -
      have "Suc m * bpc s < length cs * bpc s" unfolding mult_Suc using gt less.prems(7,9) by linarith
      then show ?thesis unfolding mult_less_cancel2 by simp
    qed
    note r = file_sect(4,5) [OF l less.prems(2) _ csize_pos [OF l]]
    have ch: "chain (fat_entry s) (n_fatent s) c cs"
      using less.prems(2,3) by (auto simp: file_chain_def split: if_splits)
    have e: "fat_entry s (cs ! m) = cs ! Suc m" by (rule chain_nth [OF ch m1])
    have u: "unat (ofs - bcs) = unat ofs - bpc s" using gt less.prems(6) by (simp add: unat_sub word_le_nat_alt)
    have u2: "unat (fptr fp + bcs) = Suc m * bpc s"
    proof -
      have "unat (fptr fp) + unat bcs < 4294967296" using gt less.prems(5-7,10) by linarith
      from unat_plus [OF this] show ?thesis unfolding less.prems(5,6) mult_Suc by linarith
    qed
    have v: "cs ! Suc m \<noteq> 0" "cs ! Suc m \<noteq> 0xFFFFFFFF" "\<not> cs ! Suc m \<le> 1" "\<not> n_fatent s \<le> cs ! Suc m"
      using r [OF m1] layD(3) [OF l] by (auto simp: gok_def word_le_nat_alt word_less_nat_alt)
    have IH: "wp (f_lseek_loop s1 (fp\<lparr>fptr := fptr fp + bcs, fclust := cs ! Suc m\<rparr>) bcs (cs ! Suc m) (ofs - bcs)) (sdone s fp cs t)"
      if s1: "dstep s s1" "same_table s s1" for s1
    proof -
      note d = dstep_facts [OF s1(1)]
      have "wp (f_lseek_loop s1 (fp\<lparr>fptr := fptr fp + bcs, fclust := cs ! Suc m\<rparr>) bcs (cs ! Suc m) (ofs - bcs))
         (sdone s1 (fp\<lparr>fptr := fptr fp + bcs, fclust := cs ! Suc m\<rparr>) cs t)"
      proof (rule less.hyps)
        show "file_chain s1 c cs" using less.prems(2) file_chain_keep [OF s1(2)] by simp
        show "Suc m * bpc s1 + unat (ofs - bcs) = t" unfolding d(3) u mult_Suc using gt less.prems(7) by linarith
      qed (use d m1 u u2 gt bp less.prems(6,9,10) in simp_all)
      then show ?thesis
        by (rule wp_mono) (use dstep_trans [OF s1(1)] same_table_trans [OF s1(2)] d(3) in \<open>auto simp: sdone_def\<close>)
    qed
    have "wp (if fflag fp AND FA_WRITE \<noteq> 0 then create_chain s (cs ! m) else get_fat s (cs ! m))
        (\<lambda>(v, s'). v = cs ! Suc m \<and> dstep s s' \<and> same_table s s' \<and> n_fatent s' = n_fatent s)"
      by (rule wp_mono [OF follow_either [OF l]]) (use r [OF less.prems(3)] r [OF m1] e in \<open>auto dest: same_table_n\<close>)
    then have "wp (if fflag fp AND FA_WRITE \<noteq> 0 then create_chain s (cs ! m) else get_fat s (cs ! m))
        (\<lambda>(clst, s'). wp (if fflag fp AND FA_WRITE \<noteq> 0 \<and> clst = 0 then Some (FR_OK, fp\<lparr>fptr := fptr fp + bcs\<rparr>, clst, 0, s')
          else if clst = 0xFFFFFFFF then Some (FR_DISK_ERR, fp\<lparr>fptr := fptr fp + bcs\<rparr>, clst, ofs - bcs, s')
          else if clst \<le> 1 \<or> clst \<ge> n_fatent s' then Some (FR_INT_ERR, fp\<lparr>fptr := fptr fp + bcs\<rparr>, clst, ofs - bcs, s')
          else f_lseek_loop s' (fp\<lparr>fptr := fptr fp + bcs, fclust := clst\<rparr>) bcs clst (ofs - bcs)) (sdone s fp cs t))"
      by (rule wp_mono) (use v IH in auto)
    moreover have "fflag (fp\<lparr>fptr := x\<rparr>) = fflag fp" for x by simp
    ultimately show ?thesis
      using True by (subst f_lseek_loop.simps) (simp only: Let_def wp_bind wp_case_prod if_True)
  qed
qed

text \<open>Where the search starts: in the current cluster when the target is not before it, else in
  the first.\<close>

lemma cluster_start:
  assumes "lay s" "0 < unat p" "unat bcs = bpc s"
  shows "unat ((p - 1) AND NOT (bcs - 1) :: DWORD) = (unat p - 1) div bpc s * bpc s"
proof -
  obtain k where k: "k < 8" "unat (csize s) = 2 ^ k" using assms(1) by (auto simp: lay_def)
  have b: "bpc s = 2 ^ (k + 9)" using k by (simp add: bpc_def power_add)
  have "(2::nat) ^ (k + 9) < 2 ^ 32" using k(1) by (intro power_strict_increasing) simp_all
  then have "unat (of_nat (2 ^ (k + 9)) :: DWORD) = 2 ^ (k + 9)" by (subst unat_of_nat, subst mod_less) simp_all
  then have "bcs = 2 ^ (k + 9)" using assms(3) b by (simp add: word_unat_eq_iff)
  then have m: "bcs - 1 = mask (k + 9)" by (simp add: mask_eq_exp_minus_1)
  have "x AND NOT (mask n) = push_bit n (drop_bit n x)" for x :: DWORD and n
    by (rule bit_word_eqI) (auto simp: bit_simps)
  then have e: "(p - 1) AND NOT (bcs - 1) = push_bit (k + 9) (drop_bit (k + 9) (p - 1))" unfolding m .
  have "unat (p - 1) = unat p - 1" using assms(2) by (simp add: unat_sub word_le_nat_alt)
  moreover have "unat (p - 1) div 2 ^ (k + 9) * 2 ^ (k + 9) < 2 ^ 32"
    using le_less_trans [OF div_times_less_eq_dividend unat_32_less, of "p - 1"] by simp
  moreover have "unat p - 1 < 2 ^ 32" using le_less_trans [OF diff_le_self unat_32_less, of p] by simp
  ultimately show ?thesis
    unfolding e b
    by (simp add: unsigned_push_bit_eq unsigned_drop_bit_eq take_bit_nat_eq_self push_bit_nat_def drop_bit_nat_def)
qed

lemma f_lseek_start_exact:
  assumes ok: "file_ok s fp0 cs" and fp: "fp = fp0\<lparr>fptr := 0\<rparr>"
    and t: "0 < unat ofs" "unat ofs \<le> unat (objsize (fobj fp0))" and b: "unat bcs = bpc s"
  obtains m fp' ofs' where "f_lseek_start s fp (fptr fp0) ofs bcs = Some (FR_OK, fp', cs ! m, ofs', s)"
    "m < length cs" "fclust fp' = cs ! m" "unat (fptr fp') = m * bpc s" "m * bpc s + unat ofs' = unat ofs" "0 < unat ofs'"
    "fobj fp' = fobj fp0" "fflag fp' = fflag fp0" "ferr fp' = ferr fp0" "fsect fp' = fsect fp0"
proof -
  note okD = file_okD [OF ok] and bp = bpc_pos [OF file_okD(1) [OF ok]]
  have ne: "cs \<noteq> []" using okD(3) t by auto
  note fc = file_chain_first [OF okD(2)]
  define ip where "ip = fptr fp0"
  show thesis
  proof (cases "ip > 0 \<and> (ofs - 1) div bcs \<ge> (ip - 1) div bcs")
    case True
    then have ip: "0 < unat ip" by (simp add: word_less_nat_alt)
    define m where "m = (unat ip - 1) div bpc s"
    have dv: "unat ((x - 1) div bcs) = (unat x - 1) div bpc s" if "0 < unat x" for x
      using that by (simp add: unat_div b unat_sub word_le_nat_alt)
    have m: "m \<le> (unat ofs - 1) div bpc s" using True dv [OF ip] dv [OF t(1)] by (simp add: m_def word_le_nat_alt)
    have st: "unat ((ip - 1) AND NOT (bcs - 1)) = m * bpc s" unfolding m_def by (rule cluster_start [OF okD(1) ip b])
    have "m * bpc s \<le> (unat ofs - 1) div bpc s * bpc s" using m by (rule mult_le_mono1)
    also have "\<dots> \<le> unat ofs - 1" by (rule div_times_less_eq_dividend)
    finally have lt: "m * bpc s < unat ofs" using t(1) by linarith
    have ml: "m < length cs"
    proof -
      have "m * bpc s < length cs * bpc s" using lt t(2) okD(3) by linarith
      then show ?thesis by (rule mult_less_cancel2 [THEN iffD1, THEN conjunct2])
    qed
    let ?fp = "fp\<lparr>fptr := (ip - 1) AND NOT (bcs - 1)\<rparr>"
    show thesis
    proof (rule that [of ?fp m "ofs - ((ip - 1) AND NOT (bcs - 1))"])
      show "f_lseek_start s fp (fptr fp0) ofs bcs = Some (FR_OK, ?fp, cs ! m, ofs - ((ip - 1) AND NOT (bcs - 1)), s)"
        using True okD(5) ip by (simp add: f_lseek_start_def ip_def [symmetric] fp m_def)
      show "m * bpc s + unat (ofs - ((ip - 1) AND NOT (bcs - 1))) = unat ofs" "0 < unat (ofs - ((ip - 1) AND NOT (bcs - 1)))"
        using lt st by (simp_all add: unat_sub word_le_nat_alt)
    qed (use ml st okD(5) ip in \<open>simp_all add: fp m_def ip_def\<close>)
  next
    case False
    have "f_lseek_start s fp (fptr fp0) ofs bcs = Some (FR_OK, fp\<lparr>fclust := cs ! 0\<rparr>, cs ! 0, ofs, s)"
      using False fc(1) fc(2) ne unfolding f_lseek_start_def ip_def [symmetric] by (auto simp: fp Let_def)
    then show thesis using ne t by (intro that [of "fp\<lparr>fclust := cs ! 0\<rparr>" 0 ofs]) (simp_all add: fp)
  qed
qed

lemma seek_end:
  assumes ok: "file_ok s fp cs" and d: "sdone s fp1 cs (unat ofs) (r, fp2, c, ofs2, s2)" and f: "fobj fp1 = fobj fp"
    and t: "unat ofs \<le> unat (objsize (fobj fp))"
    and fp3: "fobj fp3 = fobj fp2" "fclust fp3 = fclust fp2" "fptr fp3 = ofs"
      "ofs mod 512 \<noteq> 0 \<Longrightarrow> fsect fp3 = clst2sect s2 c + ofs2 div 512"
  shows "fptr fp2 + ofs2 = ofs" "file_ok s2 fp3 cs" "ofs2 mod 512 = 0 \<longleftrightarrow> ofs mod 512 = 0"
    "clst2sect s2 c \<noteq> 0"
proof -
  note okD = file_okD [OF ok] and bp = bpc_pos [OF file_okD(1) [OF ok]]
  obtain m where m: "m < length cs" "c = cs ! m" "fclust fp2 = cs ! m" "unat (fptr fp2) = m * bpc s"
      "m * bpc s + unat ofs2 = unat ofs" "0 < unat ofs2" "unat ofs2 \<le> bpc s"
    and s2: "dstep s s2" "same_table s s2" "fobj fp2 = fobj fp"
    using d f by (auto simp: sdone_def)
  note ds = dstep_facts [OF s2(1)]
  have "unat (fptr fp2) + unat ofs2 < 4294967296" using m(4,5) unat_32_less [of ofs] by linarith
  from unat_plus [OF this] show "fptr fp2 + ofs2 = ofs" using m(4,5) by (simp add: word_unat_eq_iff)
  have dv: "(unat ofs - 1) div bpc s = m"
  proof -
    have e: "unat ofs - 1 = bpc s * m + (unat ofs2 - 1)" using m(5,6) by (simp add: mult.commute)
    show ?thesis unfolding e by (rule div_mult_add) (use m(6,7) in linarith)
  qed
  have md: "unat ofs mod 512 = unat ofs2 mod 512"
  proof -
    have "unat ofs = unat ofs2 + 512 * (m * unat (csize s))" using m(5) by (simp add: bpc_def)
    then show ?thesis by simp
  qed
  then show "ofs2 mod 512 = 0 \<longleftrightarrow> ofs mod 512 = 0"
    using unat_32_mod [of ofs] unat_32_mod [of ofs2] by (metis unat_eq_0)
  show "clst2sect s2 c \<noteq> 0"
    unfolding ds(5) m(2) by (rule file_sect(3) [OF okD(1,2) m(1) csize_pos [OF okD(1)]])
  have fs: "fsect fp3 = clst2sect s (cs ! (unat ofs div bpc s)) + of_nat (unat ofs mod bpc s div 512)"
    if "unat ofs mod 512 \<noteq> 0"
  proof -
    have "bpc s mod 512 = 0" by (simp add: bpc_def)
    then have "unat ofs2 \<noteq> bpc s" using that md by auto
    then have lt: "unat ofs2 < bpc s" using m(7) by simp
    have e: "unat ofs = bpc s * m + unat ofs2" using m(5) by (simp add: mult.commute)
    have "unat ofs div bpc s = m" "unat ofs mod bpc s = unat ofs2" unfolding e using lt by simp_all
    moreover have "ofs2 div 512 = of_nat (unat ofs2 div 512)" by (simp add: word_arith_nat_div)
    moreover have "ofs mod 512 \<noteq> 0" using that unat_32_mod [of ofs] by (metis unat_0)
    ultimately show ?thesis using fp3(4) ds(5) m(2) by simp
  qed
  show "file_ok s2 fp3 cs"
    unfolding file_ok_def
    using fp3 s2(3) ds(2,3) okD(2,3) file_chain_keep [OF s2(2)] t m(3) dv fs dstep_facts(5) [OF s2(1)] by simp
qed

text \<open>The file object after the pointer has been moved, before the sector of the position is set.\<close>

definition sought :: "vol \<Rightarrow> FIL \<Rightarrow> DWORD list \<Rightarrow> FSIZE_t \<Rightarrow> FIL \<Rightarrow> LBA_t \<Rightarrow> vol \<Rightarrow> bool" where
  "sought s fp cs ofs fp2 nsect s2 \<longleftrightarrow> dstep s s2 \<and> same_table s s2 \<and> fobj fp2 = fobj fp \<and> fflag fp2 = fflag fp \<and> ferr fp2 = ferr fp \<and>
     fptr fp2 = ofs \<and>
     (\<forall>fp3. fobj fp3 = fobj fp \<longrightarrow> fclust fp3 = fclust fp2 \<longrightarrow> fptr fp3 = ofs \<longrightarrow>
        (ofs mod 512 \<noteq> 0 \<longrightarrow> fsect fp3 = nsect) \<longrightarrow> file_ok s2 fp3 cs)"

text \<open>\<open>f_lseek\<close> to a position within the file.\<close>

lemma f_lseek_vol_exact:
  assumes ok: "file_ok s fp cs" and t: "unat ofs \<le> unat (objsize (fobj fp))"
  shows "wp (f_lseek_vol s fp ofs) (\<lambda>(r, fp', s'). r = FR_OK \<and> dstep s s' \<and> same_table s s' \<and>
     fobj fp' = fobj fp \<and> fflag fp' = fflag fp \<and> ferr fp' = ferr fp \<and> fptr fp' = ofs \<and> file_ok s' fp' cs)"
proof -
  note okD = file_okD [OF ok]
  note l = okD(1) and bp = bpc_pos [OF file_okD(1) [OF ok]]
  have st: "dstep s s" "same_table s s" using dstep_refl [OF l] layD(1) [OF l] by (simp_all add: same_table_def)
  have clip: "\<not> (ofs > objsize (fobj fp) \<and> fflag fp AND FA_WRITE = 0)" using t by (simp add: word_less_nat_alt)
  have clip2: "\<not> ofs > objsize (fobj fp)" using t by (simp add: word_less_nat_alt)
  show ?thesis
  proof (cases "ofs = 0")
    case True
    then show ?thesis
      using st okD(1-3) clip by (simp add: f_lseek_vol_def f_lseek_move_def file_ok_def)
  next
    case False
    then have t0: "0 < unat ofs" by (simp add: unat_gt_0)
    define bcs where "bcs = (ucast (csize s) * 512 :: DWORD)"
    have b: "unat bcs = bpc s" unfolding bcs_def by (rule bcs_word [OF l])
    obtain m fp1 ofs1 where s1: "f_lseek_start s (fp\<lparr>fptr := 0\<rparr>) (fptr fp) ofs bcs = Some (FR_OK, fp1, cs ! m, ofs1, s)"
      "m < length cs" "fclust fp1 = cs ! m" "unat (fptr fp1) = m * bpc s" "m * bpc s + unat ofs1 = unat ofs" "0 < unat ofs1"
      and f1: "fobj fp1 = fobj fp" "fflag fp1 = fflag fp" "ferr fp1 = ferr fp" "fsect fp1 = fsect fp"
      by (rule f_lseek_start_exact [OF ok refl t0 t b])
    have c0: "cs ! m \<noteq> 0" using file_sect(4) [OF l okD(2) s1(2) csize_pos [OF l]] by (auto simp: word_le_nat_alt)
    have "wp (f_lseek_loop s fp1 bcs (cs ! m) ofs1) (sdone s fp1 cs (unat ofs))"
      using f_lseek_loop_exact [OF l okD(2) s1(2-4) b s1(5,6)] t okD(3) by simp
    then have "wp (f_lseek_loop s fp1 bcs (cs ! m) ofs1) (\<lambda>(res, fp2, c, ofs2, s2).
        wp (if res \<noteq> FR_OK then Some (res, fp2, 0, s2)
          else let fp2 = fp2\<lparr>fptr := fptr fp2 + ofs2\<rparr>
            in if ofs2 mod SS \<noteq> 0 then
              let nsect = clst2sect s2 c
              in if nsect = 0 then Some (FR_INT_ERR, fp2, 0, s2)
                 else Some (FR_OK, fp2, nsect + ofs2 div SS, s2)
            else Some (FR_OK, fp2, 0, s2)) (\<lambda>(r, fp2, nsect, s2). r = FR_OK \<and> sought s fp cs ofs fp2 nsect s2))"
    proof (rule wp_mono, clarify, goal_cases)
      case (1 r fp2 c ofs2 s2)
      then have sd: "sdone s fp1 cs (unat ofs) (r, fp2, c, ofs2, s2)" "r = FR_OK" by (simp_all add: sdone_def)
      define fp3 where "fp3 = fp2\<lparr>fptr := ofs, fsect := clst2sect s2 c + ofs2 div 512\<rparr>"
      note se = seek_end [OF ok sd(1) f1(1) t, of fp3]
      have e: "fptr fp2 + ofs2 = ofs" "ofs2 mod 512 = 0 \<longleftrightarrow> ofs mod 512 = 0" "clst2sect s2 c \<noteq> 0"
        using se by (simp_all add: fp3_def)
      have "sought s fp cs ofs (fp2\<lparr>fptr := ofs\<rparr>) nsect s2" if "ofs mod 512 \<noteq> 0 \<longrightarrow> nsect = clst2sect s2 c + ofs2 div 512" for nsect
        unfolding sought_def using sd(1) f1 that seek_end(2) [OF ok sd(1) f1(1) t]
        by (auto simp: sdone_def)
      then show ?case using e sd(2) by (simp add: Let_def)
    qed
    moreover have "ofs > 0" using False by (simp add: word_gt_0)
    ultimately have "wp (f_lseek_move s (fp\<lparr>fptr := 0\<rparr>) (fptr fp) ofs) (\<lambda>(r, fp2, nsect, s2). r = FR_OK \<and> sought s fp cs ofs fp2 nsect s2)"
      unfolding f_lseek_move_def Let_def bcs_def [symmetric] s1(1) using c0
      by (simp add: wp_bind wp_case_prod)
    then show ?thesis
      unfolding f_lseek_vol_def Let_def using clip clip2
      by (auto simp: wp_bind sought_def word_less_nat_alt elim!: wp_mono)
  qed
qed


lemma f_lseek_exact:
  assumes "validate sy (fobj fp) = (FR_OK, Some a)" "ferr fp = FR_OK" "file_ok (load_vol sy a) fp cs"
    and "unat ofs \<le> unat (objsize (fobj fp))"
  shows "wp (f_lseek sy fp ofs) (\<lambda>(r, fp', sy'). r = FR_OK \<and> fptr fp' = ofs \<and> fobj fp' = fobj fp \<and>
     fflag fp' = fflag fp \<and> ferr fp' = FR_OK \<and> (\<exists>s'. sy' = store_vol sy a s' \<and> dstep (load_vol sy a) s' \<and>
       same_table (load_vol sy a) s' \<and> file_ok s' fp' cs))"
  unfolding f_lseek_def assms(1) using f_lseek_vol_exact [OF assms(3,4)] assms(2)
  by (auto simp: wp_bind elim!: wp_mono)

section \<open>Writing, seeking back and reading\<close>

lemma file_ok_flag: "file_ok s (fp\<lparr>fflag := f\<rparr>) cs = file_ok s fp cs"
  by (simp add: file_ok_def)

lemma validate_keep:
  assumes "validate sy ob = (FR_OK, Some a)" "good (load_vol sy a) s'"
    and "ofs_ptr ob' = ofs_ptr ob" "oid ob' = oid ob"
  shows "validate (store_vol sy a s') ob' = (FR_OK, Some a)"
  using assms goodD [OF assms(2)] by (auto simp: validate_def split: option.splits if_splits)

lemma lay_vdir: "lay s \<Longrightarrow> vdir s"
  using layD [of s] by (auto simp: vdir_def gok_def word_le_nat_alt fat_inv_def)

text \<open>\<open>f_write\<close> with the members that \<open>validate\<close> and a later access test.\<close>

lemma f_write_exact_obj:
  fixes btw :: DWORD
  assumes "validate sy (fobj fp) = (FR_OK, Some a)" "ferr fp = FR_OK" "fflag fp AND FA_WRITE \<noteq> 0"
    and "file_ok (load_vol sy a) fp cs" "free_ok (load_vol sy a)" "sane (load_vol sy a)"
    and "unat btw \<le> length buff" "unat (fptr fp) + unat btw < 2 ^ 32"
  shows "wp (f_write sy fp buff btw) (\<lambda>(r, fp', bw, sy'). r = FR_OK \<and> fflag fp' = fflag fp OR FA_MODIFIED \<and>
     ferr fp' = FR_OK \<and> ofs_ptr (fobj fp') = ofs_ptr (fobj fp) \<and> oid (fobj fp') = oid (fobj fp) \<and>
     dir_sect fp' = dir_sect fp \<and> dir_ptr fp' = dir_ptr fp \<and>
     (\<exists>s' fp1. sy' = store_vol sy a s' \<and> fp' = fp1\<lparr>fflag := fflag fp1 OR FA_MODIFIED\<rparr> \<and>
        wdone (load_vol sy a) fp cs buff (unat btw) 0 (FR_OK, fp1, bw, s')))"
proof -
  note l = file_okD(1) [OF assms(4)]
  have nw: "\<not> fptr fp + btw < fptr fp"
    using assms(8) by (simp add: word_less_nat_alt unat_word_ariths)
  have "wp (f_write_loop (load_vol sy a) fp buff btw 0) (wdone (load_vol sy a) fp cs buff (unat btw) (unat (0::DWORD)))"
    using assms(7,8) by (intro f_write_loop_exact [OF assms(4-6)]) simp_all
  moreover have "wp (f_write_loop (load_vol sy a) fp buff btw 0) (wpost (load_vol sy a) fp btw 0)"
    using assms(7) layD(1) [OF l] by (intro f_write_loop_wp lay_vdir [OF l]) (simp_all add: fat_inv_def)
  ultimately have "wp (f_write_loop (load_vol sy a) fp buff btw 0) (\<lambda>(r, fp1, bw, s'). r = FR_OK \<and> wsame fp fp1 \<and>
      ferr fp1 = ferr fp \<and> wdone (load_vol sy a) fp cs buff (unat btw) 0 (FR_OK, fp1, bw, s'))"
    by (rule wp_conjI [THEN wp_mono]) (auto simp: wdone_def wpost_def simp del: unat_0)
  then show ?thesis
    unfolding f_write_def assms(1) using assms(2,3) nw
    by (simp add: wp_bind Let_def) (erule wp_mono, force simp: wsame_def)
qed

definition seek_read :: "sys \<Rightarrow> FIL \<Rightarrow> FSIZE_t \<Rightarrow> buffer \<Rightarrow> UINT \<Rightarrow> (FRESULT list \<times> UINT \<times> buffer \<times> sys) option" where
  "seek_read sy fp ofs rbuf btr = do {
     (r1, fp1, sy1) \<leftarrow> f_lseek sy fp ofs;
     (r2, _, b, br, sy2) \<leftarrow> f_read sy1 fp1 rbuf btr;
     Some ([r1, r2], br, b, sy2)
   }"

lemma seek_read_exact:
  assumes v: "validate sy (fobj fp) = (FR_OK, Some a)" "ferr fp = FR_OK" "fflag fp AND FA_READ \<noteq> 0"
    and f: "file_ok (load_vol sy a) fp cs"
    and b: "unat ofs + unat btr \<le> unat (objsize (fobj fp))" "unat btr \<le> length rbuf"
  shows "wp (seek_read sy fp ofs rbuf btr) (\<lambda>(rs, br, b, sy'). rs = [FR_OK, FR_OK] \<and> br = btr \<and>
     b = content (load_vol sy a) cs (unat ofs) (unat btr) @ drop (unat btr) rbuf \<and>
     same_table (load_vol sy a) (load_vol sy' a))"
proof -
  note l = file_okD [OF f]
  have "unat ofs \<le> unat (objsize (fobj fp))" using b(1) by simp
  note sk = f_lseek_exact [OF v(1,2) f this]
  show ?thesis unfolding seek_read_def
  proof (rule wp_bindI [OF sk], clarsimp simp only: prod.case, goal_cases)
    case (1 r fp' sy' s')
    note o = 1(1-4) and st = 1(5-7)
    have g: "good (load_vol sy a) s'" using st(1) by (simp add: dstep_def)
    have c: "content s' cs (unat ofs) (unat btr) = content (load_vol sy a) cs (unat ofs) (unat btr)"
      using b(1) l(3) by (intro content_keep [OF st(1) l(1,2)]) simp
    have "wp (f_read (store_vol sy a s') fp' rbuf btr) (\<lambda>(r, fp'', b, br, sy'). r = FR_OK \<and>
        unat br = min (unat btr) (unat (objsize (fobj fp')) - unat (fptr fp')) \<and>
        b = content s' cs (unat (fptr fp')) (min (unat btr) (unat (objsize (fobj fp')) - unat (fptr fp'))) @
              drop (min (unat btr) (unat (objsize (fobj fp')) - unat (fptr fp'))) rbuf \<and>
        (\<exists>s''. sy' = store_vol (store_vol sy a s') a s'' \<and> same_table s' s''))"
      using f_read_exact [of "store_vol sy a s'" fp' a cs btr rbuf] validate_keep [OF v(1) g] o v(2,3) st(3) b(2)
      by (auto elim!: wp_mono)
    moreover have "min (unat btr) (unat (objsize (fobj fp)) - unat ofs) = unat btr" using b(1) by simp
    ultimately show ?case
      using o c by (auto simp: wp_bind word_unat_eq_iff elim!: wp_mono dest: same_table_trans [OF st(2)])
  qed
qed

definition write_read_back :: "sys \<Rightarrow> FIL \<Rightarrow> buffer \<Rightarrow> UINT \<Rightarrow> buffer \<Rightarrow> (FRESULT list \<times> UINT \<times> UINT \<times> buffer \<times> sys) option" where
  "write_read_back sy fp buff btw rbuf = do {
     (r, fp1, bw, sy1) \<leftarrow> f_write sy fp buff btw;
     (rs, br, b, sy2) \<leftarrow> seek_read sy1 fp1 (fptr fp) rbuf bw;
     Some (r # rs, bw, br, b, sy2)
   }"

lemma fwrite_content:
  assumes "fwrite s cs sz s' cs' p bs" "p + length bs \<le> length cs' * bpc s"
  shows "content s' cs' p (length bs) = bs"
  using assms by (intro nth_equalityI) (auto simp: content_def fwrite_def)

lemma write_read_back_exact:
  fixes btw :: DWORD
  assumes v: "validate sy (fobj fp) = (FR_OK, Some a)" "ferr fp = FR_OK" "fflag fp AND FA_WRITE \<noteq> 0" "fflag fp AND FA_READ \<noteq> 0"
    and f: "file_ok (load_vol sy a) fp cs" "free_ok (load_vol sy a)" "sane (load_vol sy a)"
    and b: "unat btw \<le> length buff" "unat (fptr fp) + unat btw < 2 ^ 32" "unat btw \<le> length rbuf"
  shows "wp (write_read_back sy fp buff btw rbuf) (\<lambda>(rs, bw, br, b, sy'). rs = [FR_OK, FR_OK, FR_OK] \<and>
     br = bw \<and> unat bw \<le> unat btw \<and> b = take (unat bw) buff @ drop (unat bw) rbuf \<and>
     (bw = btw \<or> free_set (load_vol sy' a) = {}))"
  unfolding write_read_back_def
proof (rule wp_bindI [OF f_write_exact_obj [OF v(1-3) f b(1,2)]], clarify, goal_cases)
  case (1 r fp' bw sy' s' fp1)
  note o = 1(1-4)
  from 1(7) obtain n cs' where w: "unat bw = n" "n \<le> unat btw" "n = unat btw \<or> free_set s' = {}"
    "fwrite (load_vol sy a) cs (unat (objsize (fobj fp))) s' cs' (unat (fptr fp)) (take n buff)"
    "file_ok s' fp1 cs'" "unat (objsize (fobj fp1)) = max (unat (objsize (fobj fp))) (unat (fptr fp) + n)"
    by (auto simp: wdone_def)
  define fp2 where "fp2 = fp1\<lparr>fflag := fflag fp1 OR FA_MODIFIED\<rparr>"
  have g: "good (load_vol sy a) s'" using w(4) by (simp add: fwrite_def)
  have "fflag fp2 = fflag fp OR FA_MODIFIED" using o(1) by (simp add: fp2_def)
  then have fl: "fflag fp2 AND FA_READ \<noteq> 0" using v(4) by (simp add: bit.conj_disj_distrib2)
  have k: "file_ok (load_vol (store_vol sy a s') a) fp2 cs'" using w(5) by (simp add: fp2_def file_ok_def)
  have ln: "length (take n buff) = n" using w(2) b(1) by simp
  have "content s' cs' (unat (fptr fp)) n = take n buff"
    using fwrite_content [OF w(4)] ln file_okD(3) [OF w(5)] w(6) g by (simp add: bpc_def goodD)
  moreover have "wp (seek_read (store_vol sy a s') fp2 (fptr fp) rbuf bw) (\<lambda>(rs, br, b, sy'). rs = [FR_OK, FR_OK] \<and> br = bw \<and>
     b = content s' cs' (unat (fptr fp)) n @ drop n rbuf \<and> same_table s' (load_vol sy' a))"
    using seek_read_exact [OF validate_keep [OF v(1) g] _ fl k, of "fptr fp" bw rbuf] o w b(3)
    by (simp add: fp2_def)
  ultimately show ?case
    unfolding fp2_def using w(1-3)
    by (auto simp: wp_bind word_unat_eq_iff dest: same_table_free elim!: wp_mono)
qed

end
