(* ===== verification/FF_Demo.thy ===== *)
theory FF_Demo
  imports FF_SeekSpec FF_Api
begin

text \<open>
  A concrete volume, on which the theorems about volumes and files are applied: a FAT12 volume
  with one sector per cluster, two copies of a FAT of one sector, one sector of root directory
  and the data area from sector 4 on.  The chain 2, 3 belongs to a file of 700 bytes whose byte
  \<open>i\<close> is \<open>i\<close> modulo 256, the clusters 4 and 5 are free, and the window is invalid.
\<close>

definition demo_disk :: disk where
  "demo_disk i =
     (if 512 \<le> i \<and> i < 518 then [0xF8, 0xFF, 0xFF, 0x03, 0xF0, 0xFF] ! (i - 512)
      else if 2048 \<le> i then of_nat i else 0)"

definition demo_fs :: FATFS where
  "demo_fs =
     \<lparr>fs_type = FS_FAT12, pdrv = 0, n_fats = 2, wflag = 0, fsi_flag = 0, fs_id = 1, n_rootdir = 16, csize = 1,
      last_clst = 0xFFFFFFFF, free_clst = 0xFFFFFFFF, n_fatent = 6, fsize = 1, volbase = 0, fatbase = 1, dirbase = 3,
      database = 4, winsect = 0xFFFFFFFF, win = replicate 512 0\<rparr>"

definition demo_sys :: sys where
  "demo_sys = \<lparr>FatFs = Some 0, Fsid = 1, objs = (\<lambda>a. if a = 0 then demo_fs else blank_FATFS), sdisk = demo_disk\<rparr>"

definition demo_vol :: vol where
  "demo_vol = load_vol demo_sys 0"

text \<open>The file, open for reading and writing at its start.\<close>

definition demo_file :: FIL where
  "demo_file =
     \<lparr>fobj = \<lparr>ofs_ptr = Some 0, oid = 1, attr = 0, stat = 0, sclust = 2, objsize = 700\<rparr>,
      fflag = FA_READ OR FA_WRITE, ferr = FR_OK, fptr = 0, fclust = 0, fsect = 0, dir_sect = 3, dir_ptr = 0\<rparr>"

lemma demo_file_simps [simp]:
  "fobj demo_file = \<lparr>ofs_ptr = Some 0, oid = 1, attr = 0, stat = 0, sclust = 2, objsize = 700\<rparr>"
  "fflag demo_file = FA_READ OR FA_WRITE" "ferr demo_file = FR_OK" "fptr demo_file = 0"
  by (simp_all add: demo_file_def)

lemma demo_vol_simps [simp]:
  "fs_type demo_vol = 1" "n_fats demo_vol = 2" "wflag demo_vol = 0" "fsi_flag demo_vol = 0" "fs_id demo_vol = 1"
  "n_rootdir demo_vol = 16" "csize demo_vol = 1" "last_clst demo_vol = 0xFFFFFFFF" "free_clst demo_vol = 0xFFFFFFFF"
  "n_fatent demo_vol = 6" "fsize demo_vol = 1" "volbase demo_vol = 0" "fatbase demo_vol = 1" "dirbase demo_vol = 3"
  "database demo_vol = 4" "winsect demo_vol = 0xFFFFFFFF" "win demo_vol = replicate 512 0" "vdisk demo_vol = demo_disk"
  by (simp_all add: demo_vol_def demo_sys_def demo_fs_def load_vol_def FATFS.defs vol.defs)

lemma demo_clusters: "2 \<le> c \<and> c < 6 \<longleftrightarrow> c = 2 \<or> c = 3 \<or> c = 4 \<or> (c :: DWORD) = 5"
proof
  assume "2 \<le> c \<and> c < 6"
  then have "unat c \<in> {2, 3, 4, 5}" by (auto simp: word_le_nat_alt word_less_nat_alt)
  then show "c = 2 \<or> c = 3 \<or> c = 4 \<or> c = 5" by (auto simp: word_unat_eq_iff)
qed auto

lemma demo_entries [simp]:
  "fat_entry demo_vol 2 = 3" "fat_entry demo_vol 3 = 0xFFF" "fat_entry demo_vol 4 = 0" "fat_entry demo_vol 5 = 0"
  by (simp_all add: fat_entry_def entry_of_def fat_byte_def vbyte_def demo_disk_def)

lemma demo_lay: "lay demo_vol"
  by (auto simp: lay_def fat_inv_def vok_def coh_def gok_def fat_on_disk_def wr_def intro!: exI [of _ 0])

lemma demo_chain: "chain (fat_entry demo_vol) 6 2 [2, 3]"
  by simp

lemma demo_free_set: "free_set demo_vol = {4, 5}"
proof -
  have "free_set demo_vol = {c. (2 \<le> c \<and> c < 6) \<and> fat_entry demo_vol c = 0}" by (simp add: free_set_def)
  also have "\<dots> = {4, 5}" unfolding demo_clusters by auto
  finally show ?thesis .
qed

lemma demo_free_ok: "free_ok demo_vol"
  by (simp add: free_ok_def)

lemma demo_sane: "sane demo_vol"
  unfolding sane_def
proof (intro allI impI)
  fix c assume "2 \<le> c" "c < n_fatent demo_vol"
  then consider "c = 2" | "c = 3" | "c = 4" | "c = 5" using demo_clusters [of c] by fastforce
  then show "fat_entry demo_vol c \<noteq> 1" by cases simp_all
qed

lemma demo_file_ok: "file_ok demo_vol demo_file [2, 3]"
  by (simp add: file_ok_def demo_lay file_chain_def demo_file_def bpc_def)

text \<open>The same file with its position inside the first cluster.\<close>

definition demo_mid :: FIL where
  "demo_mid = demo_file\<lparr>fptr := 300, fclust := 2, fsect := 4\<rparr>"

lemma demo_mid_ok: "file_ok demo_vol demo_mid [2, 3]"
  by (simp add: file_ok_def demo_lay file_chain_def demo_mid_def bpc_def clst2sect_def)

text \<open>An empty file on the same volume.\<close>

definition demo_empty :: FIL where
  "demo_empty = demo_file\<lparr>fobj := (fobj demo_file)\<lparr>sclust := 0, objsize := 0\<rparr>\<rparr>"

lemma demo_empty_ok: "file_ok demo_vol demo_empty []"
  by (simp add: file_ok_def demo_lay file_chain_def demo_empty_def)

lemma demo_valid [simp]: "ofs_ptr ob = Some 0 \<Longrightarrow> oid ob = 1 \<Longrightarrow> validate demo_sys ob = (FR_OK, Some 0)"
  by (simp add: validate_def demo_sys_def demo_fs_def disk_status_def)

lemma demo_validate: "validate demo_sys (fobj demo_file) = (FR_OK, Some 0)"
  by simp

text \<open>A file whose first cluster is the reserved number 1, as a corrupted directory entry has it.\<close>

definition demo_broken :: FIL where
  "demo_broken = demo_file\<lparr>fobj := (fobj demo_file)\<lparr>sclust := 1\<rparr>\<rparr>"

lemma demo_sys_ok: "sys_ok demo_sys"
proof -
  have "coh (load_vol demo_sys 0)" "gok (load_vol demo_sys 0)"
    using demo_lay by (simp_all add: lay_def fat_inv_def vok_def demo_vol_def [symmetric])
  then show ?thesis
    by (simp add: sys_ok_def) (simp add: demo_sys_def demo_fs_def blank_FATFS_def)
qed

lemma store_load: "store_vol sy a (load_vol sy a) = sy"
proof -
  have "FATFS.truncate (load_vol sy a) = objs sy a" by (cases "objs sy a") (simp add: load_vol_def FATFS.defs vol.defs)
  then show ?thesis by (simp add: store_vol_def)
qed

lemma demo_load [simp]: "load_vol demo_sys 0 = demo_vol" "store_vol demo_sys 0 demo_vol = demo_sys"
  by (simp_all add: demo_vol_def store_load)

end
