(* ===== verification/FF_TruncSpec.thy ===== *)
theory FF_TruncSpec
  imports FF_SeekSpec
begin

text \<open>
  What \<open>f_truncate\<close> and the removal of chains do to the files of a volume: the clusters behind the
  position are free afterwards, the rest of the file and every other file are as before.
\<close>

lemma remove_chain_loop_dstep:
  assumes "remove_chain_loop s c = Some y"
  shows "lay s \<longrightarrow> dstep s (snd y)"
  using assms
proof (rule remove_chain_loop.raw_induct [where P = "\<lambda>s c y. lay s \<longrightarrow> dstep s (snd y)", rotated])
  fix f :: "vol \<Rightarrow> DWORD \<Rightarrow> (FRESULT \<times> vol) option" and s clst y
  assume f: "\<And>s c y. f s c = Some y \<Longrightarrow> lay s \<longrightarrow> dstep s (snd y)"
    and b: "do {
     (nxt, s) \<leftarrow> get_fat s clst;
     if nxt = 0 then Some (FR_OK, s)
     else if nxt = 1 then Some (FR_INT_ERR, s)
     else if nxt = 0xFFFFFFFF then Some (FR_DISK_ERR, s)
     else do {
       (res, s) \<leftarrow> put_fat s clst 0;
       if res \<noteq> FR_OK then Some (res, s)
       else do {
         let s = (if free_clst s < n_fatent s - 2
                  then s\<lparr>free_clst := free_clst s + 1, fsi_flag := fsi_flag s OR 1\<rparr> else s);
         if nxt < n_fatent s then f s nxt else Some (FR_OK, s)
       }
     }
   } = Some y"
  have f': "f s' c = Some y \<Longrightarrow> dstep s s' \<Longrightarrow> dstep s (snd y)" for s' c y
    using f [of s' c y] dstep_trans [of s s'] dstep_lay by blast
  have g: "f (s'\<lparr>free_clst := a, fsi_flag := b\<rparr>) c = Some y \<Longrightarrow> dstep s s' \<Longrightarrow> dstep s (snd y)" for s' a b c y
    using f' [of "s'\<lparr>free_clst := a, fsi_flag := b\<rparr>" c y] by simp
  have p: "lay s \<Longrightarrow> get_fat s clst = Some (v, s1) \<Longrightarrow> put_fat s1 clst 0 = Some (r, s2) \<Longrightarrow> dstep s s2" for v s1 r s2
    using get_fat_dstepD [of s clst v s1] put_fat_dstepD [of s1 clst 0 r s2] dstep_lay dstep_trans by blast
  show "lay s \<longrightarrow> dstep s (snd y)"
    using b by (auto simp: Let_def bind_eq_Some_conv split: if_splits prod.splits
        intro: p get_fat_dstepD f' g)
qed

lemma remove_chain_lay:
  assumes "lay s" "chain (fat_entry s) (n_fatent s) c cs"
  shows "wp (remove_chain s c 0) (\<lambda>(r, s'). r = FR_OK \<and> frees s cs s' \<and> dstep s s')"
proof -
  obtain s' where s: "remove_chain s c 0 = Some (FR_OK, s')" "frees s cs s'"
    using remove_chain_exact [OF layD(1) [OF assms(1)] assms(2)] by (auto simp: wp_def)
  then have "remove_chain_loop s c = Some (FR_OK, s')" by (auto simp: remove_chain_def split: if_splits)
  from remove_chain_loop_dstep [OF this] assms(1) s show ?thesis by simp
qed

text \<open>Cutting a chain behind the cluster \<open>p\<close>.\<close>

definition cuts :: "vol \<Rightarrow> DWORD \<Rightarrow> DWORD list \<Rightarrow> vol \<Rightarrow> bool" where
  "cuts s p cs s' \<longleftrightarrow> fat_inv s' \<and> geo s' = geo s \<and> (free_ok s \<longrightarrow> free_ok s') \<and>
     (\<forall>d < n_fatent s. fat_entry s' d = (if d \<in> set cs then 0 else if d = p then fat_width s else fat_entry s d))"

lemma remove_chain_cut:
  assumes "lay s" "chain (fat_entry s) (n_fatent s) c cs" "2 \<le> p" "p < n_fatent s" "p \<notin> set cs" "fat_entry s p \<noteq> 0"
  shows "wp (remove_chain s c p) (\<lambda>(r, s'). r = FR_OK \<and> cuts s p cs s' \<and> dstep s s')"
proof -
  have c: "\<not> (c < 2 \<or> c \<ge> n_fatent s)" using assms(2) by (cases cs) auto
  have p0: "p \<noteq> 0" using assms(3) by (auto simp: word_le_nat_alt)
  have w0: "fat_width s \<noteq> 0" by (simp add: fat_width_def entry_mask_def)
  from ft.put_law [OF layD(1) [OF assms(1)] assms(3,4), of "0xFFFFFFFF"]
  obtain s1 where s1: "put_fat s p 0xFFFFFFFF = Some (FR_OK, s1)" "fat_rest s1 = fat_rest s"
    "\<forall>d < n_fatent s. fat_entry s1 d = (if d = p then 0xFFFFFFFF AND fat_width s else fat_entry s d)"
    by (auto simp: wp_def)
  have e1: "fat_entry s1 d = (if d = p then fat_width s else fat_entry s d)" if "d < n_fatent s" for d
    using s1(3) that by (simp add: width_all)
  have d1: "dstep s s1" by (rule put_fat_dstepD [OF s1(1) assms(1)])
  have n1: "n_fatent s1 = n_fatent s" using dstepD [OF d1] by simp
  have "free_set s1 = free_set s" using e1 n1 w0 assms(6) by (auto simp: free_set_def split: if_splits)
  then have f1: "free_ok s \<longrightarrow> free_ok s1" using s1(2) n1 by (simp add: free_ok_def fat_rest_def)
  have "fat_entry s1 x = fat_entry s x" if "x \<in> set cs" for x
    using e1 that assms(5) chain_range [OF assms(2) that] by auto
  then have "chain (fat_entry s1) (n_fatent s1) c cs"
    using assms(2) chain_cong [of cs "fat_entry s1" "fat_entry s"] n1 by simp
  then obtain s2 where s2: "remove_chain_loop s1 c = Some (FR_OK, s2)" "frees s1 cs s2"
    using remove_chain_loop_exact [OF layD(1) [OF dstep_lay [OF d1]]] by (auto simp: wp_def)
  have "geo s2 = geo s" using s2(2) s1(2) by (simp add: frees_def fat_rest_def)
  then have "cuts s p cs s2" using s2(2) n1 e1 f1 by (auto simp: cuts_def frees_def)
  moreover have "dstep s s2" using remove_chain_loop_dstep [OF s2(1)] dstep_lay [OF d1] dstep_trans [OF d1] by simp
  ultimately show ?thesis unfolding remove_chain_def using c p0 s1(1) s2(1) by simp
qed

lemma chain_take:
  assumes "chain e n c cs" "m < length cs" "\<And>x. x \<in> set (take m cs) \<Longrightarrow> e' x = e x" "n \<le> e' (cs ! m)"
  shows "chain e' n c (take (Suc m) cs)"
  using assms
proof (induction cs arbitrary: c m)
  case (Cons x cs)
  show ?case
  proof (cases m)
    case 0
    then show ?thesis using Cons.prems by simp
  next
    case (Suc k)
    then have "cs \<noteq> []" using Cons.prems(2) by auto
    then have "chain e' n (e c) (take (Suc k) cs)" using Cons Suc by (intro Cons.IH) auto
    moreover have "e' c = e c" using Cons.prems(1,3) Suc by auto
    ultimately show ?thesis using Cons.prems(1) Suc \<open>cs \<noteq> []\<close> by auto
  qed
qed simp

lemma cuts_chain:
  assumes "chain (fat_entry s) (n_fatent s) c cs" "Suc m < length cs" "lay s" "cuts s (cs ! m) (drop (Suc m) cs) s'"
  shows "chain (fat_entry s') (n_fatent s') c (take (Suc m) cs)"
proof -
  have n: "n_fatent s' = n_fatent s" by (rule geo_n_fatent) (use assms(4) in \<open>simp add: cuts_def\<close>)
  note ds = chain_distinct [OF assms(1)]
  have e: "fat_entry s' x = (if x = cs ! m then fat_width s else fat_entry s x)" if "x \<in> set (take (Suc m) cs)" for x
  proof -
    have "x \<notin> set (drop (Suc m) cs)" using that ds set_take_disj_set_drop_if_distinct [of cs "Suc m" "Suc m"] by auto
    moreover have "x < n_fatent s" using that chain_range [OF assms(1), of x] by (auto dest: in_set_takeD)
    ultimately show ?thesis using assms(4) by (simp add: cuts_def)
  qed
  have nm: "cs ! m \<notin> set (take m cs)"
    using ds assms(2) by (auto simp: in_set_conv_nth nth_eq_iff_index_eq)
  have tk: "take (Suc m) cs = take m cs @ [cs ! m]" using assms(2) by (simp add: take_Suc_conv_app_nth)
  show ?thesis
    unfolding n
  proof (rule chain_take [OF assms(1)])
    show "fat_entry s' x = fat_entry s x" if "x \<in> set (take m cs)" for x
      using e [of x] that nm by (auto simp: tk)
    show "n_fatent s \<le> fat_entry s' (cs ! m)" using e [of "cs ! m"] width_end [OF layD(3) [OF assms(3)]] by (simp add: tk)
  qed (use assms(2) in simp)
qed

text \<open>The number of clusters that hold the first \<open>n\<close> bytes of a file.\<close>

definition clusters_for :: "vol \<Rightarrow> nat \<Rightarrow> nat" where
  "clusters_for s n = (n + bpc s - 1) div bpc s"

lemma clusters_for_0: "lay s \<Longrightarrow> clusters_for s 0 = 0"
  using bpc_pos [of s] by (simp add: clusters_for_def)

lemma clusters_for_pos: "lay s \<Longrightarrow> 0 < n \<Longrightarrow> clusters_for s n = Suc ((n - 1) div bpc s)"
  using bpc_pos [of s] div_add_self2 [of "bpc s" "n - 1"] by (simp add: clusters_for_def)

text \<open>\<open>f_truncate\<close> within the file: the chain is cut behind the clusters that the bytes before the position need, and
  the entries of all the others are 0.\<close>

definition trunc_done :: "vol \<Rightarrow> FIL \<Rightarrow> DWORD list \<Rightarrow> FRESULT \<times> FIL \<times> vol \<Rightarrow> bool" where
  "trunc_done s fp cs = (\<lambda>(r, fp', s'). r = FR_OK \<and> dstep s s' \<and> (free_ok s \<longrightarrow> free_ok s') \<and>
     fptr fp' = fptr fp \<and> objsize (fobj fp') = fptr fp \<and>
     (let k = clusters_for s (unat (fptr fp)) in k \<le> length cs \<and> file_ok s' fp' (take k cs) \<and>
        (\<forall>d < n_fatent s. fat_entry s' d =
           (if d \<in> set (drop k cs) then 0 else if 0 < k \<and> k < length cs \<and> d = cs ! (k - 1) then fat_width s else fat_entry s d))))"

lemma f_truncate_zero:
  assumes ok: "file_ok s fp cs" and p: "fptr fp = 0" "fptr fp < objsize (fobj fp)"
  shows "wp (f_truncate_vol s fp) (trunc_done s fp cs)"
proof -
  note okD = file_okD [OF ok]
  have "0 < unat (objsize (fobj fp))" using p by (simp add: word_less_nat_alt)
  then have ne: "cs \<noteq> []" using okD(3) by auto
  have ch: "chain (fat_entry s) (n_fatent s) (sclust (fobj fp)) cs"
    by (rule file_chain_first(3) [OF okD(2) ne])
  have "trunc_done s fp cs (FR_OK, fp\<lparr>fobj := (fobj fp)\<lparr>sclust := 0, objsize := 0\<rparr>, fflag := x\<rparr>, s')"
    if "frees s cs s'" "dstep s s'" for s' x
    using that p clusters_for_0 [OF okD(1)] by (auto simp: trunc_done_def frees_def file_ok_def dstep_lay file_chain_def)
  then show ?thesis
    unfolding f_truncate_vol_def using p remove_chain_lay [OF okD(1) ch]
    by (auto simp: wp_bind elim!: wp_mono)
qed

lemma file_ok_cut:
  assumes ok: "file_ok s fp cs" and p: "0 < unat (fptr fp)" and m: "m = (unat (fptr fp) - 1) div bpc s" "m < length cs"
    and s': "dstep s s'" "chain (fat_entry s') (n_fatent s') (sclust (fobj fp)) (take (Suc m) cs)"
    and f: "fp' = fp\<lparr>fobj := (fobj fp)\<lparr>objsize := fptr fp\<rparr>, fflag := x\<rparr>"
  shows "file_ok s' fp' (take (Suc m) cs)"
proof -
  note okD = file_okD [OF ok]
  note fa = dstep_facts [OF s'(1)]
  have b: "0 < bpc s" by (rule bpc_pos [OF okD(1)])
  have s0: "sclust (fobj fp) \<noteq> 0" using file_chain_first(1) [OF okD(2)] m(2) by auto
  have "unat (fptr fp) - 1 < bpc s * Suc m" unfolding m(1) using b by (rule dividend_less_times_div [THEN order_less_le_trans]) simp
  then have le: "unat (fptr fp) \<le> Suc m * bpc s" using p by (simp add: mult.commute)
  have dv: "unat (fptr fp) div bpc s = m" if "unat (fptr fp) mod 512 \<noteq> 0"
  proof -
    have "unat (fptr fp) mod bpc s mod 512 = unat (fptr fp) mod 512" by (simp add: bpc_def mod_mod_cancel)
    then have "unat (fptr fp) mod bpc s \<noteq> 0" using that by auto
    then show ?thesis using prev_div(2) [OF p b] m(1) by simp
  qed
  have l: "length (take (Suc m) cs) = Suc m" using m(2) by simp
  show ?thesis
    unfolding file_ok_def l
  proof (intro conjI impI)
    show "file_chain s' (sclust (fobj fp')) (take (Suc m) cs)" using s'(2) s0 by (simp add: file_chain_def f)
    show "fclust fp' = take (Suc m) cs ! ((unat (fptr fp') - 1) div bpc s')"
      using ok p m(1) fa(3) by (simp add: file_ok_def f)
    show "fsect fp' = clst2sect s' (take (Suc m) cs ! (unat (fptr fp') div bpc s')) + of_nat (unat (fptr fp') mod bpc s' div 512)"
      if "unat (fptr fp') mod 512 \<noteq> 0"
      using ok that dv dstep_facts(5) [OF s'(1)] fa(3) by (simp add: file_ok_def f)
  qed (use dstep_lay [OF s'(1)] le fa(3) in \<open>simp_all add: f\<close>)
qed

lemma cut_free_set:
  assumes "lay s" "file_chain s c cs" "n_fatent s' = n_fatent s"
    and "\<forall>d < n_fatent s. fat_entry s' d =
       (if d \<in> set (drop k cs) then 0 else if 0 < k \<and> k < length cs \<and> d = cs ! (k - 1) then fat_width s else fat_entry s d)"
  shows "free_set s' = free_set s \<union> set (drop k cs)"
proof -
  have r: "2 \<le> d \<and> d < n_fatent s" if "d \<in> set cs" for d
    using assms(2) chain_range that by (fastforce simp: file_chain_def split: if_splits)
  have w0: "fat_width s \<noteq> 0" by (simp add: fat_width_def entry_mask_def)
  have nf: "fat_entry s (cs ! (k - 1)) \<noteq> 0" if "0 < k" "k < length cs"
  proof -
    have ne: "cs \<noteq> []" using that by auto
    have "2 \<le> n_fatent s" using layD(3) [OF assms(1)] by (auto simp: gok_def word_le_nat_alt)
    then have "2 \<le> fat_entry s (cs ! (k - 1))" using chain_nz [OF file_chain_first(3) [OF assms(2) ne]] that by simp
    then show ?thesis by (auto simp: word_le_nat_alt)
  qed
  have "d \<in> free_set s' \<longleftrightarrow> d \<in> free_set s \<union> set (drop k cs)" for d
  proof (cases "d \<in> set cs \<or> 2 \<le> d \<and> d < n_fatent s")
    case True
    then have d: "2 \<le> d" "d < n_fatent s" using r by auto
    then show ?thesis using assms(4) w0 nf by (auto simp: free_set_def assms(3))
  qed (auto simp: free_set_def assms(3) dest: in_set_dropD)
  then show ?thesis by blast
qed

text \<open>The state after the chain is cut at the cluster of the position, and the object that goes with it.\<close>

abbreviation (input) cut_fp :: "FIL \<Rightarrow> FIL" where
  "cut_fp fp \<equiv> fp\<lparr>fobj := (fobj fp)\<lparr>objsize := fptr fp\<rparr>, fflag := fflag fp OR FA_MODIFIED\<rparr>"

lemma trunc_doneI:
  assumes "file_ok s fp cs" "0 < unat (fptr fp)" "m = (unat (fptr fp) - 1) div bpc s" "m < length cs"
    and "dstep s s'" "free_ok s \<longrightarrow> free_ok s'" "chain (fat_entry s') (n_fatent s') (sclust (fobj fp)) (take (Suc m) cs)"
    and "\<forall>d < n_fatent s. fat_entry s' d = (if d \<in> set (drop (Suc m) cs) then 0
          else if Suc m < length cs \<and> d = cs ! m then fat_width s else fat_entry s d)"
  shows "trunc_done s fp cs (FR_OK, cut_fp fp, s')"
  unfolding trunc_done_def using assms file_ok_cut [OF assms(1-5,7) refl]
    clusters_for_pos [OF file_okD(1) [OF assms(1)] assms(2)]
  by (auto simp: Let_def)

lemma truncate_behind:
  assumes ok: "file_ok s fp cs" "0 < unat (fptr fp)" "m = (unat (fptr fp) - 1) div bpc s" and m: "Suc m < length cs"
    and d1: "dstep s s1" and t1: "same_table s s1"
  shows "wp (remove_chain s1 (fat_entry s (cs ! m)) (cs ! m)) (\<lambda>(r, s'). r = FR_OK \<and> trunc_done s fp cs (FR_OK, cut_fp fp, s'))"
    "fat_entry s (cs ! m) < n_fatent s1"
proof -
  note okD = file_okD [OF ok(1)]
  have ne: "cs \<noteq> []" using m by auto
  have n1: "n_fatent s1 = n_fatent s" by (rule same_table_n [OF t1])
  have c1: "chain (fat_entry s1) (n_fatent s1) (sclust (fobj fp)) cs"
    by (rule file_chain_first(3) [OF _ ne]) (use okD(2) file_chain_keep [OF t1] in simp)
  have e1: "fat_entry s1 d = fat_entry s d" if "d < n_fatent s" for d using t1 that by (simp add: same_table_def)
  have r: "2 \<le> cs ! m" "cs ! m < n_fatent s1" "cs ! Suc m < n_fatent s1"
    using chain_range [OF c1, of "cs ! m"] chain_range [OF c1, of "cs ! Suc m"] m by auto
  have nx: "fat_entry s (cs ! m) = cs ! Suc m" using chain_nth [OF c1 m] e1 r n1 by simp
  have nz: "fat_entry s1 (cs ! m) \<noteq> 0"
    using chain_range [OF c1, of "cs ! Suc m"] m nx e1 r n1 by (auto simp: word_le_nat_alt)
  have dr: "drop (Suc m) cs = cs ! Suc m # drop (Suc (Suc m)) cs" using m by (simp add: Cons_nth_drop_Suc)
  have "cs = take (Suc m) cs @ cs ! Suc m # drop (Suc (Suc m)) cs" using dr by (metis append_take_drop_id)
  then have cd: "chain (fat_entry s1) (n_fatent s1) (cs ! Suc m) (drop (Suc m) cs)"
    using chain_suffix [of "fat_entry s1" "n_fatent s1" "sclust (fobj fp)" "take (Suc m) cs"] c1 dr by metis
  have nd: "cs ! m \<notin> set (drop (Suc m) cs)"
    using chain_distinct [OF c1] m by (auto simp: in_set_conv_nth nth_eq_iff_index_eq)
  show "fat_entry s (cs ! m) < n_fatent s1" using nx r by simp
  have "trunc_done s fp cs (FR_OK, cut_fp fp, s')" if "cuts s1 (cs ! m) (drop (Suc m) cs) s'" "dstep s1 s'" for s'
  proof (rule trunc_doneI [OF ok])
    show "dstep s s'" by (rule dstep_trans [OF d1 that(2)])
    show "chain (fat_entry s') (n_fatent s') (sclust (fobj fp)) (take (Suc m) cs)"
      by (rule cuts_chain [OF c1 m dstep_lay [OF d1] that(1)])
    have "fat_width s1 = fat_width s" using dstepD [OF d1] by (simp add: fat_width_def)
    then show "\<forall>d < n_fatent s. fat_entry s' d = (if d \<in> set (drop (Suc m) cs) then 0
      else if Suc m < length cs \<and> d = cs ! m then fat_width s else fat_entry s d)"
      using that(1) m e1 n1 by (simp add: cuts_def)
    show "free_ok s \<longrightarrow> free_ok s'"
      using that(1) t1 same_table_free [OF t1] n1 by (simp add: cuts_def same_table_def free_ok_def fat_rest_def)
  qed (use m in simp)
  then show "wp (remove_chain s1 (fat_entry s (cs ! m)) (cs ! m)) (\<lambda>(r, s'). r = FR_OK \<and> trunc_done s fp cs (FR_OK, cut_fp fp, s'))"
    unfolding nx by (intro wp_mono [OF remove_chain_cut [OF dstep_lay [OF d1] cd r(1,2) nd nz]]) auto
qed

lemma truncate_at_end:
  assumes ok: "file_ok s fp cs" "0 < unat (fptr fp)" "m = (unat (fptr fp) - 1) div bpc s" and m: "Suc m = length cs"
    and d1: "dstep s s1" and t1: "same_table s s1"
  shows "trunc_done s fp cs (FR_OK, cut_fp fp, s1)" "\<not> fat_entry s (cs ! m) < n_fatent s1"
proof -
  note okD = file_okD [OF ok(1)]
  have ne: "cs \<noteq> []" using m by auto
  have n1: "n_fatent s1 = n_fatent s" by (rule same_table_n [OF t1])
  have c1: "chain (fat_entry s1) (n_fatent s1) (sclust (fobj fp)) cs"
    by (rule file_chain_first(3) [OF _ ne]) (use okD(2) file_chain_keep [OF t1] in simp)
  have f1: "free_ok s \<longrightarrow> free_ok s1"
    using t1 same_table_free [OF t1] n1 by (simp add: same_table_def free_ok_def fat_rest_def)
  show "trunc_done s fp cs (FR_OK, cut_fp fp, s1)"
    by (rule trunc_doneI [OF ok _ d1 f1]) (use m t1 c1 in \<open>simp_all add: same_table_def\<close>)
  have "last cs = cs ! m" using ne by (simp add: last_conv_nth m [symmetric])
  then show "\<not> fat_entry s (cs ! m) < n_fatent s1"
    using chain_last [OF file_chain_first(3) [OF okD(2) ne]] n1 by simp
qed

lemma f_truncate_cut:
  assumes ok: "file_ok s fp cs" and p: "fptr fp \<noteq> 0" "fptr fp < objsize (fobj fp)"
  shows "wp (f_truncate_vol s fp) (trunc_done s fp cs)"
proof -
  note okD = file_okD [OF ok]
  have p0: "0 < unat (fptr fp)" using p(1) by (simp add: unat_gt_0)
  define m where "m = (unat (fptr fp) - 1) div bpc s"
  have "unat (fptr fp) - 1 < length cs * bpc s" using p p0 okD(3) by (simp add: word_less_nat_alt)
  then have m: "m < length cs" by (simp add: m_def less_mult_imp_div_less)
  then have ne: "cs \<noteq> []" by auto
  note ch = file_chain_first(3) [OF okD(2) ne]
  have fc: "fclust fp = cs ! m" using ok p0 by (simp add: file_ok_def m_def)
  have r: "2 \<le> cs ! m" "cs ! m < n_fatent s" using chain_range [OF ch, of "cs ! m"] m by auto
  have n2: "2 \<le> n_fatent s" using layD(3) [OF okD(1)] by (auto simp: gok_def word_le_nat_alt)
  have "2 \<le> fat_entry s (cs ! m)" using chain_nz [OF ch n2] m by simp
  then have e1: "fat_entry s (cs ! m) \<noteq> 1" by (auto simp: word_le_nat_alt)
  have g: "wp (get_fat s (fclust fp)) (\<lambda>(v, s1). v = fat_entry s (cs ! m) \<and> dstep s s1 \<and> same_table s s1)"
    using r fc by (intro get_fat_lay [OF okD(1)]) simp
  show ?thesis
  proof (cases "Suc m < length cs")
    case True
    note tb = truncate_behind [OF ok p0 m_def True]
    show ?thesis
      unfolding f_truncate_vol_def using p fc e1 tb(2)
      by (auto simp: wp_bind Let_def intro!: wp_mono [OF g [unfolded fc]] wp_mono [OF tb(1)])
  next
    case False
    then have "Suc m = length cs" using m by simp
    from truncate_at_end [OF ok p0 m_def this] show ?thesis
      unfolding f_truncate_vol_def using p fc e1 g
      by (auto simp: wp_bind Let_def elim!: wp_mono)
  qed
qed

lemma f_truncate_vol_exact:
  assumes "file_ok s fp cs" "fptr fp < objsize (fobj fp)"
  shows "wp (f_truncate_vol s fp) (trunc_done s fp cs)"
  using f_truncate_zero [OF assms(1) _ assms(2)] f_truncate_cut [OF assms(1) _ assms(2)] by blast

lemma f_truncate_exact:
  assumes "validate sy (fobj fp) = (FR_OK, Some a)" "ferr fp = FR_OK" "fflag fp AND FA_WRITE \<noteq> 0"
    and "file_ok (load_vol sy a) fp cs" "fptr fp < objsize (fobj fp)"
  shows "wp (f_truncate sy fp) (\<lambda>(r, fp', sy'). \<exists>s'. sy' = store_vol sy a s' \<and> trunc_done (load_vol sy a) fp cs (r, fp', s'))"
  unfolding f_truncate_def assms(1) using assms(2,3) f_truncate_vol_exact [OF assms(4,5)]
  by (auto simp: wp_bind elim!: wp_mono)

end
