(* ===== verification/Props_File.thy ===== *)
theory Props_File
  imports FF_Demo FF_TruncSpec
begin

text \<open>
  The contract of an open file.  The abstract file is a list of bytes with a position; the theorems
  show that \<open>f_read\<close>, \<open>f_write\<close>, \<open>f_lseek\<close> and \<open>f_truncate\<close> implement the operations on it, on
  every volume whose geometry fits the device, and that other files are not touched.
\<close>

section \<open>The abstract file\<close>

record afile =
  adata :: buffer
  apos :: nat

definition afile_write :: "afile \<Rightarrow> buffer \<Rightarrow> afile" where
  "afile_write f bs =
     \<lparr>adata = take (apos f) (adata f) @ bs @ drop (apos f + length bs) (adata f), apos = apos f + length bs\<rparr>"

definition afile_read :: "afile \<Rightarrow> nat \<Rightarrow> buffer \<times> afile" where
  "afile_read f n = (let bs = take n (drop (apos f) (adata f)) in (bs, f\<lparr>apos := apos f + length bs\<rparr>))"

definition afile_truncate :: "afile \<Rightarrow> afile" where
  "afile_truncate f = f\<lparr>adata := take (apos f) (adata f)\<rparr>"

text \<open>The abstract file of an open file with the clusters \<open>cs\<close>.\<close>

definition abs_file :: "vol \<Rightarrow> FIL \<Rightarrow> DWORD list \<Rightarrow> afile" where
  "abs_file s fp cs = \<lparr>adata = content s cs 0 (unat (objsize (fobj fp))), apos = unat (fptr fp)\<rparr>"

lemma content_0 [simp]: "content s cs p 0 = []"
  by (simp add: content_def)

lemma take_content: "m \<le> n \<Longrightarrow> take m (content s cs p n) = content s cs p m"
  by (simp add: content_def take_map take_upt)

lemma drop_content: "drop m (content s cs p n) = content s cs (p + m) (n - m)"
  by (cases "m \<le> n") (simp_all add: content_def drop_map drop_upt)

lemma content_splice:
  assumes "fwrite s cs sz s' cs' p bs" "p \<le> sz" "max sz (p + length bs) \<le> length cs' * bpc s"
  shows "content s' cs' 0 (max sz (p + length bs)) =
         take p (content s cs 0 sz) @ bs @ drop (p + length bs) (content s cs 0 sz)"
proof (rule nth_equalityI)
  show "length (content s' cs' 0 (max sz (p + length bs))) =
        length (take p (content s cs 0 sz) @ bs @ drop (p + length bs) (content s cs 0 sz))"
    using assms(2) by simp
next
  fix i assume "i < length (content s' cs' 0 (max sz (p + length bs)))"
  then have i: "i < max sz (p + length bs)" "i < length cs' * bpc s" using assms(3) by (simp_all add: less_le_trans)
  then have "fbyte s' cs' i = (if p \<le> i \<and> i < p + length bs then bs ! (i - p) else fbyte s cs i)"
    using assms(1) by (simp add: fwrite_def)
  then show "content s' cs' 0 (max sz (p + length bs)) ! i =
      (take p (content s cs 0 sz) @ bs @ drop (p + length bs) (content s cs 0 sz)) ! i"
    using i assms(2) by (auto simp: content_def nth_append)
qed

lemma abs_file_flag [simp]: "abs_file s (fp\<lparr>fflag := x\<rparr>) cs = abs_file s fp cs"
  by (simp add: abs_file_def)

declare file_ok_flag [simp]

text \<open>What \<open>f_write\<close> did, in terms of the abstract file and of the relation \<open>fwrite\<close> on volumes.\<close>

lemma f_write_outcome:
  fixes btw :: UINT
  assumes "validate sy (fobj fp) = (FR_OK, Some a)" "ferr fp = FR_OK" "fflag fp AND FA_WRITE \<noteq> 0"
    and "file_ok (load_vol sy a) fp cs" "free_ok (load_vol sy a)" "sane (load_vol sy a)"
    and "unat btw \<le> length buff" "unat (fptr fp) + unat btw < 2 ^ 32"
  obtains fp1 bw s' cs' where
    "f_write sy fp buff btw = Some (FR_OK, fp1\<lparr>fflag := fflag fp1 OR FA_MODIFIED\<rparr>, bw, store_vol sy a s')"
    "unat bw \<le> unat btw" "bw = btw \<or> free_set s' = {}" "file_ok s' fp1 cs'"
    "fwrite (load_vol sy a) cs (unat (objsize (fobj fp))) s' cs' (unat (fptr fp)) (take (unat bw) buff)"
    "abs_file s' fp1 cs' = afile_write (abs_file (load_vol sy a) fp cs) (take (unat bw) buff)"
proof -
  obtain fp1 bw s' where w: "f_write sy fp buff btw = Some (FR_OK, fp1\<lparr>fflag := fflag fp1 OR FA_MODIFIED\<rparr>, bw, store_vol sy a s')"
    "wdone (load_vol sy a) fp cs buff (unat btw) 0 (FR_OK, fp1, bw, s')"
    using f_write_exact [OF assms] by (auto simp: wp_def)
  then obtain cs' where d: "unat bw \<le> unat btw" "bw = btw \<or> free_set s' = {}" "file_ok s' fp1 cs'"
    "fwrite (load_vol sy a) cs (unat (objsize (fobj fp))) s' cs' (unat (fptr fp)) (take (unat bw) buff)"
    "unat (fptr fp1) = unat (fptr fp) + unat bw"
    "unat (objsize (fobj fp1)) = max (unat (objsize (fobj fp))) (unat (fptr fp) + unat bw)"
    by (auto simp: wdone_def word_unat_eq_iff)
  have l: "length (take (unat bw) buff) = unat bw" using d(1) assms(7) by simp
  have g: "good (load_vol sy a) s'" using d(4) by (simp add: fwrite_def)
  have "unat (objsize (fobj fp1)) \<le> length cs' * bpc (load_vol sy a)"
    using file_okD(3) [OF d(3)] goodD(6) [OF g] by (simp add: bpc_def)
  then have "abs_file s' fp1 cs' = afile_write (abs_file (load_vol sy a) fp cs) (take (unat bw) buff)"
    using content_splice [OF d(4)] file_okD(4) [OF assms(4)] d(5,6) l
    by (simp add: abs_file_def afile_write_def)
  then show ?thesis using that [OF w(1) d(1-4)] by blast
qed

section \<open>Writing\<close>

text \<open>C3: \<open>f_write\<close> on an open file implements the write of the abstract file.  It returns
  \<open>FR_OK\<close> and writes all bytes of the request, or as many as fit when it stops because no
  cluster is free; the object, the volume and the free-cluster count are consistent again.\<close>

theorem f_write_refines:
  fixes btw :: UINT
  assumes "validate sy (fobj fp) = (FR_OK, Some a)" "ferr fp = FR_OK" "fflag fp AND FA_WRITE \<noteq> 0"
    and "file_ok (load_vol sy a) fp cs" "free_ok (load_vol sy a)" "sane (load_vol sy a)"
    and "unat btw \<le> length buff" "unat (fptr fp) + unat btw < 2 ^ 32"
  shows "\<exists>fp' bw sy' cs'. f_write sy fp buff btw = Some (FR_OK, fp', bw, sy') \<and> unat bw \<le> unat btw \<and>
     (bw = btw \<or> free_set (load_vol sy' a) = {}) \<and>
     abs_file (load_vol sy' a) fp' cs' = afile_write (abs_file (load_vol sy a) fp cs) (take (unat bw) buff) \<and>
     file_ok (load_vol sy' a) fp' cs' \<and> free_ok (load_vol sy' a) \<and> sane (load_vol sy' a) \<and>
     fflag fp' AND FA_MODIFIED \<noteq> 0"
  by (rule f_write_outcome [OF assms]) (auto simp: fwrite_def bit.conj_disj_distrib2)

theorem f_write_refines_witness:
  "\<exists>fp' bw sy' cs'. f_write demo_sys demo_file [1, 2, 3] 3 = Some (FR_OK, fp', bw, sy') \<and> unat bw \<le> unat (3 :: UINT) \<and>
     (bw = 3 \<or> free_set (load_vol sy' 0) = {}) \<and>
     abs_file (load_vol sy' 0) fp' cs' =
       afile_write (abs_file (load_vol demo_sys 0) demo_file [2, 3]) (take (unat bw) [1, 2, 3]) \<and>
     file_ok (load_vol sy' 0) fp' cs' \<and> free_ok (load_vol sy' 0) \<and> sane (load_vol sy' 0) \<and>
     fflag fp' AND FA_MODIFIED \<noteq> 0"
  using demo_file_ok demo_free_ok demo_sane
  by (intro f_write_refines demo_validate) simp_all

lemma file_ok_frame:
  assumes "file_ok s fp ds" "fwrite s cs sz s' cs' p bs" "set ds \<inter> set cs = {}"
  shows "file_ok s' fp ds" "abs_file s' fp ds = abs_file s fp ds"
proof -
  note ok = file_okD [OF assms(1)]
  have s: "lay s'" "good s s'" "file_chain s' (sclust (fobj fp)) ds"
    "\<forall>i < length ds * bpc s. fbyte s' ds i = fbyte s ds i"
    using assms(2,3) ok(2) by (auto simp: fwrite_def)
  have b: "bpc s' = bpc s" using goodD(6) [OF s(2)] by (simp add: bpc_def)
  show "file_ok s' fp ds"
    using assms(1) s clst2sect_good [OF s(2)] by (simp add: file_ok_def b)
  show "abs_file s' fp ds = abs_file s fp ds"
    using s(4) ok(3) by (auto simp: abs_file_def content_def)
qed

text \<open>C13: \<open>f_write\<close> does not touch other files: every file whose chain shares no cluster
  with the chain of the written file has the same chain and the same bytes after the call.\<close>

theorem f_write_isolated:
  fixes btw :: UINT
  assumes "validate sy (fobj fp) = (FR_OK, Some a)" "ferr fp = FR_OK" "fflag fp AND FA_WRITE \<noteq> 0"
    and "file_ok (load_vol sy a) fp cs" "free_ok (load_vol sy a)" "sane (load_vol sy a)"
    and "unat btw \<le> length buff" "unat (fptr fp) + unat btw < 2 ^ 32"
    and "file_ok (load_vol sy a) fp2 ds" "set ds \<inter> set cs = {}"
  shows "\<exists>r sy'. f_write sy fp buff btw = Some (r, sy') \<and> file_ok (load_vol (snd (snd sy')) a) fp2 ds \<and>
     abs_file (load_vol (snd (snd sy')) a) fp2 ds = abs_file (load_vol sy a) fp2 ds"
proof -
  obtain fp1 bw s' cs' where
    w: "f_write sy fp buff btw = Some (FR_OK, fp1\<lparr>fflag := fflag fp1 OR FA_MODIFIED\<rparr>, bw, store_vol sy a s')"
      "fwrite (load_vol sy a) cs (unat (objsize (fobj fp))) s' cs' (unat (fptr fp)) (take (unat bw) buff)"
    by (rule f_write_outcome [OF assms(1-8)])
  then show ?thesis using file_ok_frame [OF assms(9) w(2) assms(10)] by auto
qed

theorem f_write_isolated_witness:
  "\<exists>r sy'. f_write demo_sys demo_file [1, 2, 3] 3 = Some (r, sy') \<and>
     file_ok (load_vol (snd (snd sy')) 0) demo_empty [] \<and>
     abs_file (load_vol (snd (snd sy')) 0) demo_empty [] = abs_file (load_vol demo_sys 0) demo_empty []"
  using demo_file_ok demo_free_ok demo_sane demo_empty_ok
  by (intro f_write_isolated [where cs = "[2, 3]"] demo_validate) simp_all

section \<open>Reading and seeking\<close>

text \<open>C4: \<open>f_read\<close> on an open file implements the read of the abstract file: it returns \<open>FR_OK\<close>,
  the buffer starts with the bytes of the file from the position on, as many as requested or up
  to the end of the file, the position moves by their number, and the file is unchanged.\<close>

theorem f_read_refines:
  fixes btr :: UINT
  assumes "validate sy (fobj fp) = (FR_OK, Some a)" "ferr fp = FR_OK" "fflag fp AND FA_READ \<noteq> 0"
    and "file_ok (load_vol sy a) fp cs" "unat btr \<le> length buff"
  shows "\<exists>fp' buff' br sy'. f_read sy fp buff btr = Some (FR_OK, fp', buff', br, sy') \<and>
     afile_read (abs_file (load_vol sy a) fp cs) (unat btr) = (take (unat br) buff', abs_file (load_vol sy' a) fp' cs) \<and>
     drop (unat br) buff' = drop (unat br) buff \<and> length buff' = length buff \<and>
     file_ok (load_vol sy' a) fp' cs \<and> same_table (load_vol sy a) (load_vol sy' a)"
proof -
  define n where "n = min (unat btr) (unat (objsize (fobj fp)) - unat (fptr fp))"
  obtain fp' br s' where r: "f_read sy fp buff btr =
      Some (FR_OK, fp', content (load_vol sy a) cs (unat (fptr fp)) n @ drop n buff, br, store_vol sy a s')"
    "unat br = n" "fobj fp' = fobj fp" "unat (fptr fp') = unat (fptr fp) + n" "file_ok s' fp' cs"
    "dstep (load_vol sy a) s'" "same_table (load_vol sy a) s'"
    using f_read_exact [OF assms] by (auto simp: wp_def n_def)
  note ok = file_okD [OF assms(4)]
  have "content s' cs 0 (unat (objsize (fobj fp))) = content (load_vol sy a) cs 0 (unat (objsize (fobj fp)))"
    using ok(3) by (intro content_keep [OF r(6) ok(1,2)]) simp
  moreover have "n \<le> length buff" using assms(5) by (simp add: n_def)
  ultimately show ?thesis
    using r n_def by (auto simp: afile_read_def abs_file_def drop_content take_content Let_def min_def)
qed

theorem f_read_refines_witness:
  "\<exists>fp' buff' br sy'. f_read demo_sys demo_file [0, 0, 0] 3 = Some (FR_OK, fp', buff', br, sy') \<and>
     afile_read (abs_file (load_vol demo_sys 0) demo_file [2, 3]) (unat (3 :: UINT)) =
       (take (unat br) buff', abs_file (load_vol sy' 0) fp' [2, 3]) \<and>
     drop (unat br) buff' = drop (unat br) [0, 0, 0] \<and> length buff' = length [0, 0, 0 :: BYTE] \<and>
     file_ok (load_vol sy' 0) fp' [2, 3] \<and> same_table (load_vol demo_sys 0) (load_vol sy' 0)"
  using demo_file_ok by (intro f_read_refines demo_validate) simp_all

text \<open>C15: \<open>f_lseek\<close> to a position inside the file moves the position of the abstract file and
  nothing else.\<close>

theorem f_lseek_refines:
  assumes "validate sy (fobj fp) = (FR_OK, Some a)" "ferr fp = FR_OK" "file_ok (load_vol sy a) fp cs"
    and "unat ofs \<le> unat (objsize (fobj fp))"
  shows "\<exists>fp' sy'. f_lseek sy fp ofs = Some (FR_OK, fp', sy') \<and> file_ok (load_vol sy' a) fp' cs \<and>
     abs_file (load_vol sy' a) fp' cs = (abs_file (load_vol sy a) fp cs)\<lparr>apos := unat ofs\<rparr> \<and>
     same_table (load_vol sy a) (load_vol sy' a)"
proof -
  obtain fp' s' where r: "f_lseek sy fp ofs = Some (FR_OK, fp', store_vol sy a s')" "fptr fp' = ofs" "fobj fp' = fobj fp"
    "file_ok s' fp' cs" "dstep (load_vol sy a) s'" "same_table (load_vol sy a) s'"
    using f_lseek_exact [OF assms] by (auto simp: wp_def)
  note ok = file_okD [OF assms(3)]
  have "content s' cs 0 (unat (objsize (fobj fp))) = content (load_vol sy a) cs 0 (unat (objsize (fobj fp)))"
    using ok(3) by (intro content_keep [OF r(5) ok(1,2)]) simp
  then show ?thesis using r by (simp add: abs_file_def)
qed

theorem f_lseek_refines_witness:
  "\<exists>fp' sy'. f_lseek demo_sys demo_file 600 = Some (FR_OK, fp', sy') \<and> file_ok (load_vol sy' 0) fp' [2, 3] \<and>
     abs_file (load_vol sy' 0) fp' [2, 3] = (abs_file (load_vol demo_sys 0) demo_file [2, 3])\<lparr>apos := unat (600 :: FSIZE_t)\<rparr> \<and>
     same_table (load_vol demo_sys 0) (load_vol sy' 0)"
  using demo_file_ok by (intro f_lseek_refines demo_validate) simp_all

text \<open>C12: bytes written at some position are read back: \<open>f_write\<close>, \<open>f_lseek\<close> to the position and
  \<open>f_read\<close> of the number of bytes written give the bytes of the first buffer.\<close>

theorem write_read_back_returns:
  fixes btw :: UINT
  assumes "validate sy (fobj fp) = (FR_OK, Some a)" "ferr fp = FR_OK" "fflag fp AND FA_WRITE \<noteq> 0" "fflag fp AND FA_READ \<noteq> 0"
    and "file_ok (load_vol sy a) fp cs" "free_ok (load_vol sy a)" "sane (load_vol sy a)"
    and "unat btw \<le> length buff" "unat (fptr fp) + unat btw < 2 ^ 32" "unat btw \<le> length rbuf"
  shows "\<exists>bw b sy'. write_read_back sy fp buff btw rbuf = Some ([FR_OK, FR_OK, FR_OK], bw, bw, b, sy') \<and>
     unat bw \<le> unat btw \<and> take (unat bw) b = take (unat bw) buff \<and> (bw = btw \<or> free_set (load_vol sy' a) = {})"
  using write_read_back_exact [OF assms] assms(8) by (fastforce simp: wp_def)

theorem write_read_back_returns_witness:
  "\<exists>bw b sy'. write_read_back demo_sys demo_file [1, 2, 3] 3 [0, 0, 0] = Some ([FR_OK, FR_OK, FR_OK], bw, bw, b, sy') \<and>
     unat bw \<le> unat (3 :: UINT) \<and> take (unat bw) b = take (unat bw) [1, 2, 3] \<and> (bw = 3 \<or> free_set (load_vol sy' 0) = {})"
  using demo_file_ok demo_free_ok demo_sane
  by (intro write_read_back_returns demo_validate) simp_all

section \<open>Truncation\<close>

text \<open>C14: \<open>f_truncate\<close> inside the file cuts it at its position: the file keeps exactly the clusters that
  the bytes before the position need, and its bytes are those before the position.  Every cluster behind them is free afterwards
  (its entry of the table is 0), the last cluster kept gets the end mark when one behind it was freed, no other entry of the table
  changes, and the count of free clusters stays correct.\<close>

theorem f_truncate_refines:
  assumes "validate sy (fobj fp) = (FR_OK, Some a)" "ferr fp = FR_OK" "fflag fp AND FA_WRITE \<noteq> 0"
    and "file_ok (load_vol sy a) fp cs" "fptr fp < objsize (fobj fp)"
    and "k = (unat (fptr fp) + bpc (load_vol sy a) - 1) div bpc (load_vol sy a)"
  shows "\<exists>fp' sy'. f_truncate sy fp = Some (FR_OK, fp', sy') \<and> k \<le> length cs \<and>
     file_ok (load_vol sy' a) fp' (take k cs) \<and>
     abs_file (load_vol sy' a) fp' (take k cs) = afile_truncate (abs_file (load_vol sy a) fp cs) \<and>
     (\<forall>d < n_fatent (load_vol sy a). fat_entry (load_vol sy' a) d =
        (if d \<in> set (drop k cs) then 0
         else if 0 < k \<and> k < length cs \<and> d = cs ! (k - 1) then fat_width (load_vol sy a)
         else fat_entry (load_vol sy a) d)) \<and>
     free_set (load_vol sy' a) = free_set (load_vol sy a) \<union> set (drop k cs) \<and>
     (free_ok (load_vol sy a) \<longrightarrow> free_ok (load_vol sy' a))"
proof -
  let ?s = "load_vol sy a"
  note ok = file_okD [OF assms(4)]
  have kk: "k = clusters_for ?s (unat (fptr fp))" using assms(6) by (simp add: clusters_for_def)
  obtain fp' s' where t: "f_truncate sy fp = Some (FR_OK, fp', store_vol sy a s')" "trunc_done ?s fp cs (FR_OK, fp', s')"
    using f_truncate_exact [OF assms(1-5)] by (auto simp: wp_def trunc_done_def)
  then have k: "dstep ?s s'" "free_ok ?s \<longrightarrow> free_ok s'" "fptr fp' = fptr fp" "objsize (fobj fp') = fptr fp"
    "k \<le> length cs" "file_ok s' fp' (take k cs)"
    "\<forall>d < n_fatent ?s. fat_entry s' d =
       (if d \<in> set (drop k cs) then 0 else if 0 < k \<and> k < length cs \<and> d = cs ! (k - 1) then fat_width ?s else fat_entry ?s d)"
    by (simp_all add: trunc_done_def Let_def kk)
  have "abs_file s' fp' (take k cs) = afile_truncate (abs_file ?s fp cs)"
  proof -
    have l: "unat (fptr fp) \<le> k * bpc ?s" "unat (fptr fp) \<le> length cs * bpc ?s"
      using file_okD(3) [OF k(6)] k(4,5) dstep_facts(3) [OF k(1)] ok(3,4) by simp_all
    have "fbyte s' (take k cs) i = fbyte ?s cs i" if "i < unat (fptr fp)" for i
    proof -
      have "i div bpc ?s < k" using that l(1) by (simp add: less_mult_imp_div_less)
      then have "fbyte s' (take k cs) i = fbyte s' cs i" using dstep_facts(3) [OF k(1)] by (simp add: fbyte_def)
      also have "\<dots> = fbyte ?s cs i" using that l(2) by (intro fbyte_keep [OF k(1) ok(1,2)]) simp
      finally show ?thesis .
    qed
    then have "content s' (take k cs) 0 (unat (fptr fp)) = content ?s cs 0 (unat (fptr fp))"
      by (simp add: content_def)
    then show ?thesis using k(3,4) ok(4) by (simp add: abs_file_def afile_truncate_def take_content)
  qed
  moreover have "free_set s' = free_set ?s \<union> set (drop k cs)"
    by (rule cut_free_set [OF ok(1,2) _ k(7)]) (use dstepD [OF k(1)] in simp)
  ultimately show ?thesis using t(1) k by (intro exI [of _ fp'] exI [of _ "store_vol sy a s'"]) simp
qed

theorem f_truncate_refines_witness:
  "\<exists>fp' sy'. f_truncate demo_sys demo_mid = Some (FR_OK, fp', sy') \<and> 1 \<le> length [2, 3 :: DWORD] \<and>
     file_ok (load_vol sy' 0) fp' (take 1 [2, 3]) \<and>
     abs_file (load_vol sy' 0) fp' (take 1 [2, 3]) = afile_truncate (abs_file (load_vol demo_sys 0) demo_mid [2, 3]) \<and>
     (\<forall>d < n_fatent (load_vol demo_sys 0). fat_entry (load_vol sy' 0) d =
        (if d \<in> set (drop 1 [2, 3]) then 0
         else if 0 < (1 :: nat) \<and> 1 < length [2, 3 :: DWORD] \<and> d = [2, 3] ! (1 - 1) then fat_width (load_vol demo_sys 0)
         else fat_entry (load_vol demo_sys 0) d)) \<and>
     free_set (load_vol sy' 0) = free_set (load_vol demo_sys 0) \<union> set (drop 1 [2, 3]) \<and>
     (free_ok (load_vol demo_sys 0) \<longrightarrow> free_ok (load_vol sy' 0))"
  by (rule f_truncate_refines) (use demo_mid_ok in \<open>simp_all add: demo_mid_def demo_validate bpc_def\<close>)

section \<open>Errors\<close>

text \<open>C24: an I/O error stays with the file object: when \<open>f_write\<close> or \<open>f_read\<close> stopped on a disk or
  an internal error, every later \<open>f_read\<close>, \<open>f_write\<close>, \<open>f_lseek\<close> and \<open>f_truncate\<close> on the object returns the same error and
  changes neither the object nor the volume.  (\<open>f_sync\<close> and \<open>f_close\<close> do not look at the error of the object.)\<close>

definition io_stuck :: "FRESULT \<Rightarrow> sys \<Rightarrow> FIL \<Rightarrow> bool" where
  "io_stuck r sy fp \<longleftrightarrow>
     (\<forall>b n. f_read sy fp b n = Some (r, fp, b, 0, sy) \<and> f_write sy fp b n = Some (r, fp, 0, sy)) \<and>
     (\<forall>ofs. f_lseek sy fp ofs = Some (r, fp, sy)) \<and> f_truncate sy fp = Some (r, fp, sy)"

lemma io_stuckI:
  assumes "validate sy (fobj fp) = (FR_OK, Some a)" "ferr fp = r" "r \<noteq> FR_OK"
  shows "io_stuck r sy fp"
  using assms by (simp add: io_stuck_def f_read_def f_write_def f_lseek_def f_truncate_def)

lemma f_write_stuck:
  assumes "sys_ok sy" "unat n \<le> length buff" "f_write sy fp buff n = Some (r, fp', k, sy')" "r \<in> {FR_DISK_ERR, FR_INT_ERR}"
  shows "io_stuck r sy' fp'"
proof (cases rule: validate_cases [of sy "fobj fp"])
  case (ok a)
  note m = sys_ok_mounted [OF assms(1) ok(3)]
  show ?thesis
  proof (cases "ferr fp = FR_OK \<and> fflag fp AND FA_WRITE \<noteq> 0")
    case True
    define n' where "n' = (if fptr fp + n < fptr fp then 0xFFFFFFFF - fptr fp else n)"
    have "unat n' \<le> unat n" unfolding n'_def by (rule clip_wrap)
    then have "wp (f_write_loop (load_vol sy a) fp buff n' 0) (wpost (load_vol sy a) fp n' 0)"
      using assms(2) m by (intro f_write_loop_wp) auto
    then obtain s' where "wpost (load_vol sy a) fp n' 0 (r, fp', k, s')" "sy' = store_vol sy a s'"
      using assms(3,4) ok True by (auto simp: f_write_def Let_def n'_def [symmetric] wp_def)
    then show ?thesis
      using assms(4) validate_keep [OF ok(1)] by (intro io_stuckI) (auto simp: wpost_def wsame_def)
  next
    case False
    then show ?thesis using assms(3,4) ok(1) by (auto simp: f_write_def split: if_splits intro: io_stuckI)
  qed
next
  case bad
  then show ?thesis using assms(3,4) by (auto simp: f_write_def)
qed

lemma f_read_stuck:
  assumes "sys_ok sy" "unat n \<le> length buff" "f_read sy fp buff n = Some (r, fp', b, k, sy')" "r \<in> {FR_DISK_ERR, FR_INT_ERR}"
  shows "io_stuck r sy' fp'"
proof (cases rule: validate_cases [of sy "fobj fp"])
  case (ok a)
  note m = sys_ok_mounted [OF assms(1) ok(3)]
  show ?thesis
  proof (cases "ferr fp = FR_OK \<and> fflag fp AND FA_READ \<noteq> 0")
    case True
    define n' where "n' = (if n > objsize (fobj fp) - fptr fp then objsize (fobj fp) - fptr fp else n)"
    have "unat n' \<le> unat n" by (auto simp: n'_def word_less_nat_alt)
    then have "wp (f_read_loop (load_vol sy a) fp buff n' 0) (rpost (load_vol sy a) fp buff n' 0)"
      using assms(2) m by (intro f_read_loop_wp) (auto simp: vdir_def)
    then obtain s' where "rpost (load_vol sy a) fp buff n' 0 (r, fp', b, k, s')" "sy' = store_vol sy a s'"
      using assms(3,4) ok True by (auto simp: f_read_def Let_def n'_def [symmetric] wp_def)
    then show ?thesis
      using assms(4) validate_keep [OF ok(1)] by (intro io_stuckI) (auto simp: rpost_def fsame_def)
  next
    case False
    then show ?thesis using assms(3,4) ok(1) by (auto simp: f_read_def split: if_splits intro: io_stuckI)
  qed
next
  case bad
  then show ?thesis using assms(3,4) by (auto simp: f_read_def)
qed

theorem io_error_sticky:
  assumes "sys_ok sy" "unat n \<le> length buff" "r \<in> {FR_DISK_ERR, FR_INT_ERR}"
    and "f_write sy fp buff n = Some (r, fp', k, sy') \<or> f_read sy fp buff n = Some (r, fp', b, k, sy')"
  shows "io_stuck r sy' fp'"
  using f_write_stuck [OF assms(1,2) _ assms(3)] f_read_stuck [OF assms(1,2) _ assms(3)] assms(4) by blast

theorem io_error_sticky_witness:
  "io_stuck FR_INT_ERR demo_sys (demo_broken\<lparr>ferr := FR_INT_ERR\<rparr>)"
proof -
  have "f_read demo_sys demo_broken [0] 1 = Some (FR_INT_ERR, demo_broken\<lparr>ferr := FR_INT_ERR\<rparr>, [0], 0, demo_sys)"
    by (subst f_read_def, subst f_read_loop.simps)
      (simp add: demo_broken_def f_read_step_def f_read_sect_def)
  then show ?thesis by (intro io_error_sticky [OF demo_sys_ok, of 1 "[0]" _ demo_broken _ 0 _ "[0]"]) simp_all
qed

section \<open>Bounds\<close>


text \<open>C25: on every volume, also a corrupted one, \<open>f_write\<close> never moves the position over the 4 GiB limit:
  the position advances by the number of bytes written without wrapping around, and the size of the
  file covers it.\<close>

theorem f_write_no_wrap:
  assumes "sys_ok sy" "unat btw \<le> length buff" "fptr fp \<le> objsize (fobj fp)"
  shows "\<exists>r fp' bw sy'. f_write sy fp buff btw = Some (r, fp', bw, sy') \<and> unat bw \<le> unat btw \<and>
     unat (fptr fp') = unat (fptr fp) + unat bw \<and> fptr fp' \<le> objsize (fobj fp') \<and> objsize (fobj fp) \<le> objsize (fobj fp')"
proof (cases rule: validate_cases [of sy "fobj fp"])
  case (ok a)
  note m = sys_ok_mounted [OF assms(1) ok(3)]
  define n where "n = (if fptr fp + btw < fptr fp then 0xFFFFFFFF - fptr fp else btw)"
  have n: "unat n \<le> unat btw" "unat (fptr fp) + unat n < 4294967296"
    unfolding n_def using clip_wrap [of "fptr fp" btw] by simp_all
  have "wp (f_write_loop (load_vol sy a) fp buff n 0) (wpost (load_vol sy a) fp n 0)"
    using n(1) assms(2) m by (intro f_write_loop_wp) auto
  then obtain r fp' bw s' where l: "f_write_loop (load_vol sy a) fp buff n 0 = Some (r, fp', bw, s')"
    "wpost (load_vol sy a) fp n 0 (r, fp', bw, s')" by (auto simp: wp_def)
  have f: "fptr fp' = fptr fp + bw" "unat bw \<le> unat n"
    "objsize (fobj fp') = (if bw = 0 then objsize (fobj fp) else max (objsize (fobj fp)) (fptr fp'))"
    using l(2) n(2) by (auto simp: wpost_def algebra_simps)
  have "unat (fptr fp') = unat (fptr fp) + unat bw" using n(2) f(1,2) by (simp add: unat_plus)
  then show ?thesis
    using ok l(1) f n(1) assms(3) by (auto simp: f_write_def Let_def n_def [symmetric])
next
  case bad
  then show ?thesis using assms(3) by (auto simp: f_write_def)
qed

theorem f_write_no_wrap_witness:
  "\<exists>r fp' bw sy'. f_write demo_sys demo_file [1, 2, 3] 3 = Some (r, fp', bw, sy') \<and> unat bw \<le> unat (3 :: UINT) \<and>
     unat (fptr fp') = unat (fptr demo_file) + unat bw \<and> fptr fp' \<le> objsize (fobj fp') \<and>
     objsize (fobj demo_file) \<le> objsize (fobj fp')"
  by (rule f_write_no_wrap [OF demo_sys_ok]) simp_all

end
