(* ===== verification/FF_NameSpec.thy ===== *)
theory FF_NameSpec
  imports FF_Demo
begin

text \<open>
  What \<open>create_name\<close> makes of a path segment and what \<open>get_fileinfo\<close> makes of a directory entry: the
  11 bytes of a short name are the upper-case body and extension, padded with blanks, and reading the
  entry gives the name back.
\<close>

section \<open>Segments\<close>

text \<open>A character of a short name as a client writes it: printable ASCII that is neither a separator
  nor a dot nor refused.\<close>

definition name_char :: "BYTE \<Rightarrow> bool" where
  "name_char c \<longleftrightarrow> 0x20 < c \<and> c < 0x80 \<and> \<not> IsSeparator c \<and> c \<noteq> 0x2E \<and> \<not> sfn_illegal c"

lemma name_char_step:
  assumes "name_char (p ! si)" "si < length p" "i < ni" "i < length sfn"
  shows "create_name_loop p si i ni sfn = create_name_loop p (Suc si) (Suc i) ni (sfn[i := to_upper (p ! si)])"
proof -
  have c: "\<not> p ! si \<le> 0x20" "\<not> IsSeparator (p ! si)" "p ! si \<noteq> 0x2E" "\<not> 0x80 \<le> p ! si" "\<not> sfn_illegal (p ! si)"
    using assms(1) by (auto simp: name_char_def)
  show ?thesis
    using assms(2-4) c
    by (subst create_name_loop.simps) (simp add: ldb_def stb_def dbc_1st_def to_upper_def Let_def)
qed

lemma name_run:
  assumes "list_all name_char cs" "p = pre @ cs @ rest" "i + length cs \<le> ni" "ni \<le> length sfn"
  shows "create_name_loop p (length pre) i ni sfn =
     create_name_loop p (length pre + length cs) (i + length cs) ni
       (take i sfn @ map to_upper cs @ drop (i + length cs) sfn)"
  using assms
proof (induction cs arbitrary: pre i sfn)
  case (Cons c cs)
  have p: "p ! length pre = c" "length pre < length p" using Cons.prems(2) by simp_all
  have st: "create_name_loop p (length pre) i ni sfn =
      create_name_loop p (length (pre @ [c])) (Suc i) ni (sfn[i := to_upper c])"
    using name_char_step [of p "length pre" i ni sfn] Cons.prems p by simp
  have "create_name_loop p (length (pre @ [c])) (Suc i) ni (sfn[i := to_upper c]) =
     create_name_loop p (length (pre @ [c]) + length cs) (Suc i + length cs) ni
       (take (Suc i) (sfn[i := to_upper c]) @ map to_upper cs @ drop (Suc i + length cs) (sfn[i := to_upper c]))"
    using Cons.prems by (intro Cons.IH) simp_all
  moreover have "take (Suc i) (sfn[i := to_upper c]) = take i sfn @ [to_upper c]"
    using Cons.prems(3,4) by (simp add: take_Suc_conv_app_nth)
  ultimately show ?case using st by simp
qed simp

text \<open>The short name of a body and an extension.\<close>

definition sfn_of :: "buffer \<Rightarrow> buffer \<Rightarrow> buffer" where
  "sfn_of body ext =
     map to_upper body @ replicate (8 - length body) 0x20 @ map to_upper ext @ replicate (3 - length ext) 0x20"

definition name_str :: "buffer \<Rightarrow> buffer \<Rightarrow> buffer" where
  "name_str body ext = body @ (if ext = [] then [] else 0x2E # ext)"

lemma length_sfn_of [simp]: "length body \<le> 8 \<Longrightarrow> length ext \<le> 3 \<Longrightarrow> length (sfn_of body ext) = 11"
  by (simp add: sfn_of_def)

text \<open>A name of 1 to 8 characters with an extension of up to 3 ends its segment in front of \<open>t\<close>.\<close>

lemma name_stop: "si < length p \<Longrightarrow> p ! si \<le> 0x20 \<Longrightarrow> create_name_loop p si i ni sfn = Some (Some (p ! si, Suc si, i), sfn)"
  by (subst create_name_loop.simps) (simp add: ldb_def)

lemma name_dot: "si < length p \<Longrightarrow> p ! si = 0x2E \<Longrightarrow> create_name_loop p si i 8 sfn = create_name_loop p (Suc si) 8 11 sfn"
  by (subst create_name_loop.simps) (simp add: ldb_def IsSeparator_def)

lemma create_name_loop_83:
  assumes n: "list_all name_char body" "list_all name_char ext" "length body \<le> 8" "length ext \<le> 3"
    and p: "p = name_str body ext @ t # rest" and t: "t \<le> 0x20"
  shows "create_name_loop p 0 0 8 (replicate 11 0x20 @ [x]) = Some (Some (t, Suc (length (name_str body ext)),
     if ext = [] then length body else 8 + length ext), sfn_of body ext @ [x])"
proof -
  define f1 where "f1 = map to_upper body @ replicate (11 - length body) 0x20 @ [x]"
  have r1: "create_name_loop p 0 0 8 (replicate 11 0x20 @ [x]) = create_name_loop p (length body) (length body) 8 f1"
    using name_run [OF n(1), of p "[]" _ 0 8 "replicate 11 0x20 @ [x]"] p n(3)
    by (simp add: name_str_def f1_def drop_append)
  show ?thesis
  proof (cases "ext = []")
    case True
    have "create_name_loop p (length body) (length body) 8 f1 = Some (Some (t, Suc (length body), length body), f1)"
      using name_stop [of "length body" p] p t True by (simp add: name_str_def nth_append)
    moreover have "f1 = sfn_of body ext @ [x]"
      using True n(3) by (simp add: f1_def sfn_of_def flip: replicate_add)
    ultimately show ?thesis using r1 True by (simp add: name_str_def)
  next
    case False
    have "create_name_loop p (length body) (length body) 8 f1 = create_name_loop p (length (body @ [0x2E])) 8 11 f1"
      using name_dot [of "length body" p] p False by (simp add: name_str_def nth_append)
    also have "\<dots> = create_name_loop p (length (body @ [0x2E]) + length ext) (8 + length ext) 11
        (take 8 f1 @ map to_upper ext @ drop (8 + length ext) f1)"
      using n p False by (intro name_run [where rest = "t # rest"]) (simp_all add: name_str_def f1_def)
    also have "take 8 f1 @ map to_upper ext @ drop (8 + length ext) f1 = sfn_of body ext @ [x]"
      using n(3,4) by (simp add: f1_def sfn_of_def)
    also have "create_name_loop p (length (body @ [0x2E]) + length ext) (8 + length ext) 11 (sfn_of body ext @ [x]) =
        Some (Some (t, Suc (length (name_str body ext)), 8 + length ext), sfn_of body ext @ [x])"
      using name_stop [of "length (name_str body ext)" p] p t False by (simp add: name_str_def nth_append)
    finally show ?thesis using r1 False by simp
  qed
qed

lemma to_upper_nz: "name_char c \<Longrightarrow> to_upper c \<noteq> 0xE5 \<and> to_upper c \<noteq> 0x20 \<and> to_upper c \<noteq> 0 \<and> to_upper c \<noteq> 0x05"
proof -
  assume c: "name_char c"
  show ?thesis
  proof (cases "IsLower c")
    case True
    then have "unat (c - 0x20) = unat c - 32" "0x61 \<le> unat c" "unat c \<le> 0x7A"
      by (simp_all add: IsLower_def word_le_nat_alt unat_sub)
    then show ?thesis using True by (auto simp: to_upper_def word_unat_eq_iff)
  next
    case False
    then show ?thesis using c by (auto simp: to_upper_def name_char_def)
  qed
qed

lemma create_name_83:
  assumes n: "list_all name_char body" "list_all name_char ext" "body \<noteq> []" "length body \<le> 8" "length ext \<le> 3"
    and "length (fn dp) = 12"
  shows "create_name sc dp (name_str body ext @ 0 # rest) =
     Some (FR_OK, dp\<lparr>fn := sfn_of body ext @ [NS_LAST]\<rparr>, rest)"
proof -
  have m: "memset (fn dp) 0 0x20 11 = Some (replicate 11 0x20 @ [fn dp ! 11])"
    using assms(6) Cons_nth_drop_Suc [of 11 "fn dp"] by (simp add: memset_def memwrite_def)
  have s0: "sfn_of body ext ! 0 = to_upper (body ! 0)" using n(3) by (cases body) (simp_all add: sfn_of_def)
  have "to_upper (body ! 0) \<noteq> 0xE5" using n(1,3) by (cases body) (simp_all add: to_upper_nz)
  then show ?thesis
    unfolding create_name_def m using create_name_loop_83 [OF n(1,2,4,5) refl, of 0 rest "fn dp ! 11"] n s0
    by (simp add: ldb_def stb_def nth_append list_update_append)
qed

section \<open>Reading a name from an entry\<close>

lemma fileinfo_blanks:
  assumes "\<And>j. j < n \<Longrightarrow> w ! (p + si + j) = 0x20" "p + si + n \<le> length w"
  shows "fileinfo_name w p (n + k) si di f = fileinfo_name w p k (si + n) di f"
  using assms
proof (induction n arbitrary: si)
  case (Suc n)
  have "w ! (p + si) = 0x20" using Suc.prems(1) [of 0] by simp
  moreover have "fileinfo_name w p (n + k) (Suc si) di f = fileinfo_name w p k (Suc si + n) di f"
    using Suc.prems(1) [of "Suc _"] Suc.prems(2) by (intro Suc.IH) simp_all
  ultimately show ?case using Suc.prems(2) by (simp add: ldb_def)
qed simp

lemma fileinfo_chars:
  assumes "\<And>j. j < length cs \<Longrightarrow> w ! (p + si + j) = cs ! j" "p + si + length cs \<le> length w"
    and "\<forall>c \<in> set cs. c \<noteq> 0x20 \<and> c \<noteq> 0x05" "si + length cs \<le> 8 \<or> 9 \<le> si" "di + length cs \<le> length f"
  shows "fileinfo_name w p (length cs + k) si di f =
     fileinfo_name w p k (si + length cs) (di + length cs) (take di f @ cs @ drop (di + length cs) f)"
  using assms
proof (induction cs arbitrary: si di f)
  case (Cons c cs)
  have "w ! (p + si) = c" using Cons.prems(1) [of 0] by simp
  moreover have "fileinfo_name w p (length cs + k) (Suc si) (Suc di) (f[di := c]) =
     fileinfo_name w p k (Suc si + length cs) (Suc di + length cs)
       (take (Suc di) (f[di := c]) @ cs @ drop (Suc di + length cs) (f[di := c]))"
    using Cons.prems(1) [of "Suc _"] Cons.prems(2-5) by (intro Cons.IH) auto
  moreover have "take (Suc di) (f[di := c]) = take di f @ [c]"
    using Cons.prems(5) by (simp add: take_Suc_conv_app_nth)
  ultimately show ?case using Cons.prems(2-5) by (auto simp: ldb_def stb_def)
qed simp

lemma fileinfo_name_83:
  assumes n: "list_all name_char body" "list_all name_char ext" "length body \<le> 8" "length ext \<le> 3"
    and w: "take 11 (drop p w) = sfn_of body ext" "p + 11 \<le> length w" and f: "length f = 13"
  shows "\<exists>f'. fileinfo_name w p 11 0 0 f = Some (length (name_str body ext), f') \<and> length f' = 13 \<and>
     take (length (name_str body ext)) f' = name_str (map to_upper body) (map to_upper ext)"
proof -
  define b where "b = map to_upper body"
  define e where "e = map to_upper ext"
  have wn: "w ! (p + j) = sfn_of body ext ! j" if "j < 11" for j using w that by (metis nth_drop nth_take le_add1 le_trans)
  have l: "length b = length body" "length e = length ext" by (simp_all add: b_def e_def)
  have s: "sfn_of body ext = b @ replicate (8 - length b) 0x20 @ e @ replicate (3 - length e) 0x20"
    by (simp add: sfn_of_def b_def e_def)
  have ok: "\<forall>c \<in> set b. c \<noteq> 0x20 \<and> c \<noteq> 0x05" "\<forall>c \<in> set e. c \<noteq> 0x20 \<and> c \<noteq> 0x05"
    using n(1,2) to_upper_nz by (auto simp: b_def e_def list_all_iff)
  define f1 where "f1 = b @ drop (length b) f"
  have f1: "length f1 = 13" "take (length b) f1 = b" using f l n(3) by (simp_all add: f1_def)
  have "fileinfo_name w p 11 0 0 f = fileinfo_name w p (length b + (8 - length b + 3)) 0 0 f" using l n(3) by simp
  also have "\<dots> = fileinfo_name w p (8 - length b + 3) (length b) (length b) f1"
    using fileinfo_chars [of b w p 0 0 f "8 - length b + 3"] wn w(2) ok(1) l n(3) f
    by (simp add: f1_def s nth_append)
  also have "\<dots> = fileinfo_name w p 3 8 (length b) f1"
    using fileinfo_blanks [of "8 - length b" w p "length b" 3 "length b" f1] wn [of "length b + _"] w(2) l n(3)
    by (simp add: s nth_append add.assoc)
  finally have st: "fileinfo_name w p 11 0 0 f = fileinfo_name w p 3 8 (length b) f1" .
  have ext: "w ! (p + (8 + j)) = (if j < length e then e ! j else 0x20)" if "j < 3" for j
  proof -
    have "sfn_of body ext ! (8 + j) = (e @ replicate (3 - length e) 0x20) ! j"
      unfolding s append_assoc [symmetric, of b] using l n(3) by (subst nth_append) simp
    then show ?thesis using wn [of "8 + j"] that l n(4) by (simp add: nth_append)
  qed
  show ?thesis
  proof (cases e)
    case Nil
    have "fileinfo_name w p (3 + 0) 8 (length b) f1 = fileinfo_name w p 0 (8 + 3) (length b) f1"
      using ext w(2) Nil by (intro fileinfo_blanks) (simp_all add: add.assoc)
    then show ?thesis using st f1 Nil l by (simp add: name_str_def b_def e_def)
  next
    case (Cons x xs)
    define f2 where "f2 = b @ 0x2E # x # drop (length b + 2) f"
    have lx: "Suc (length xs) \<le> 3" using Cons l n(4) by simp
    have "f1[length b := 0x2E, Suc (length b) := x] = f2"
      using f l n(3) Cons_nth_drop_Suc [of "length b" f] Cons_nth_drop_Suc [of "Suc (length b)" f]
      by (simp add: f1_def f2_def list_update_append)
        (metis Cons_nth_drop_Suc One_nat_def Suc_eq_plus1 add_2_eq_Suc' list_update_code(2) list_update_code(3))
    then have "fileinfo_name w p (Suc (length xs + (2 - length xs))) 8 (length b) f1 =
        fileinfo_name w p (length xs + (2 - length xs)) 9 (length b + 2) f2"
      using ext [of 0] Cons w(2) f1 l n(3) ok(2) by (simp add: ldb_def stb_def)
    also have "\<dots> = fileinfo_name w p (2 - length xs) (9 + length xs) (length b + 2 + length xs)
        (take (length b + 2) f2 @ xs @ drop (length b + 2 + length xs) f2)"
      using ext [of "Suc _"] Cons w(2) l n(3) lx ok(2) f by (intro fileinfo_chars) (auto simp: f2_def add.assoc)
    also have "\<dots> = Some (length b + 2 + length xs, take (length b + 2) f2 @ xs @ drop (length b + 2 + length xs) f2)"
      using fileinfo_blanks [of "2 - length xs" w p "9 + length xs" 0] ext [of "Suc (length xs) + _"] Cons w(2) lx
      by (simp add: add.assoc)
    finally show ?thesis using st Cons l f lx n(3) by (auto simp: f2_def name_str_def b_def e_def)
  qed
qed

end
