(* ===== verification/FF_DirSpec.thy ===== *)
theory FF_DirSpec
  imports FF_NameSpec
begin

text \<open>
  The fixed root directory of a FAT12 or FAT16 volume as a list of 32-byte entries, and what the search
  for a name, the registration of an entry and its removal do to the list.
\<close>

section \<open>Moving the window\<close>

text \<open>The sectors of the second copy of the FAT.\<close>

definition second_fat :: "vol \<Rightarrow> LBA_t \<Rightarrow> bool" where
  "second_fat s n \<longleftrightarrow> n_fats s = 2 \<and> infat s (n - fsize s)"

lemma synced_vbyte:
  assumes "vok s" "j < 512" "\<not> second_fat s n"
  shows "vbyte (synced s) n j = vbyte s n j"
proof -
  have "n \<noteq> winsect s + fsize s" if "infat s (winsect s)" "n_fats s = 2"
    using that assms(3) by (auto simp: second_fat_def)
  then show ?thesis
    using assms(1,2) by (auto simp: synced_def vbyte_def Let_def disk_store_sector word_unat_eq_iff [symmetric])
qed

lemma move_window_vbyte:
  assumes "vok s" "wr s" "unat n < DISK_SECTORS" "move_window s n = Some (r, s')"
    and "unat k < DISK_SECTORS" "j < 512" "\<not> second_fat s k"
  shows "vbyte s' k j = vbyte s k j"
proof (cases "n = winsect s")
  case True
  then show ?thesis using assms(4) by (simp add: move_window_def)
next
  case False
  define s1 where "s1 = (if wflag s = 0 then s else synced s)"
  have s1: "sync_window s = Some (FR_OK, s1)" "vok s1" "wflag s1 = 0"
    using sync_window_synced [OF assms(1)] assms(2) synced_good [OF assms(1)] assms(1)
    by (auto simp: s1_def wr_def good_def)
  then have s': "s' = s1\<lparr>win := disk_bytes (vdisk s1) (unat n * 512) 512, winsect := n\<rparr>"
    using assms(3,4) False by (simp add: move_window_def disk_read_1)
  have "vbyte s' k j = vbyte s1 k j"
    using s1(2,3) assms(5,6) by (auto simp: s' vbyte_def vok_def coh_def)
  then show ?thesis using synced_vbyte [OF assms(1,6,7)] by (simp add: s1_def)
qed

section \<open>The entries of the root directory\<close>

definition root_ok :: "vol \<Rightarrow> bool" where
  "root_ok s \<longleftrightarrow> lay s \<and> fs_type s \<noteq> FS_FAT32 \<and>
     unat (dirbase s) = unat (fatbase s) + unat (n_fats s) * unat (fsize s) \<and>
     16 dvd unat (n_rootdir s) \<and> 0 < unat (n_rootdir s) \<and>
     unat (dirbase s) + unat (n_rootdir s) div 16 \<le> unat (database s) \<and> 0 < unat (dirbase s)"

definition dsect :: "vol \<Rightarrow> nat \<Rightarrow> LBA_t" where
  "dsect s k = dirbase s + of_nat (k div 16)"

definition dentry :: "vol \<Rightarrow> nat \<Rightarrow> buffer" where
  "dentry s k = map (\<lambda>j. vbyte s (dsect s k) (k mod 16 * 32 + j)) [0 ..< 32]"

definition root_dir :: "vol \<Rightarrow> buffer list" where
  "root_dir s = map (dentry s) [0 ..< unat (n_rootdir s)]"

text \<open>The search that a directory promises: the first entry with the name that is not a volume label,
  in front of the end mark.\<close>

fun lookup :: "buffer \<Rightarrow> buffer list \<Rightarrow> nat option" where
  "lookup nm [] = None"
| "lookup nm (e # es) =
     (if e ! 0 = 0 then None
      else if e ! 11 AND AM_VOL = 0 \<and> take 11 e = nm then Some 0
      else map_option Suc (lookup nm es))"

lemma length_dentry [simp]: "length (dentry s k) = 32"
  by (simp add: dentry_def)

lemma nth_dentry [simp]: "j < 32 \<Longrightarrow> dentry s k ! j = vbyte s (dsect s k) (k mod 16 * 32 + j)"
  by (simp add: dentry_def)

lemma length_root_dir [simp]: "length (root_dir s) = unat (n_rootdir s)"
  by (simp add: root_dir_def)

lemma nth_root_dir [simp]: "k < unat (n_rootdir s) \<Longrightarrow> root_dir s ! k = dentry s k"
  by (simp add: root_dir_def)

lemma dsect_facts:
  assumes "root_ok s" "k < unat (n_rootdir s)"
  shows "unat (dsect s k) = unat (dirbase s) + k div 16" "unat (dsect s k) < DISK_SECTORS"
    "\<not> second_fat s (dsect s k)" "\<not> infat s (dsect s k)" "\<not> in_data s (dsect s k)" "dsect s k \<noteq> 0"
proof -
  note r = assms(1) [unfolded root_ok_def]
  have l: "lay s" using r by simp
  have db: "unat (database s) \<le> 128" using l by (auto simp: lay_def)
  have k: "k div 16 < unat (n_rootdir s) div 16" using assms(2) r by (auto elim!: dvdE simp: less_mult_imp_div_less)
  then have lt: "unat (dirbase s) + k div 16 < 128" using r db by linarith
  show u: "unat (dsect s k) = unat (dirbase s) + k div 16"
    unfolding dsect_def using lt by (subst unat_add_lem [THEN iffD1]) (simp_all add: unat_of_nat)
  show "unat (dsect s k) < DISK_SECTORS" using u lt by simp
  have nf: "n_fats s = 1 \<or> n_fats s = 2" by (rule layD(8) [OF l])
  show "\<not> infat s (dsect s k)" using infat_unat(2) [OF l, of "dsect s k"] u r nf by auto
  show "\<not> in_data s (dsect s k)" using u k r by (simp add: in_data_def)
  show "dsect s k \<noteq> 0" using u r by (auto simp: unat_eq_zero [symmetric])
  show "\<not> second_fat s (dsect s k)"
  proof
    assume s: "second_fat s (dsect s k)"
    then have i: "infat s (dsect s k - fsize s)" "n_fats s = 2" by (simp_all add: second_fat_def)
    have "fsize s \<le> dsect s k" using u r i(2) by (simp add: word_le_nat_alt)
    then have "unat (dsect s k - fsize s) = unat (dsect s k) - unat (fsize s)" by (rule unat_sub)
    then show False using infat_unat(2) [OF l i(1)] u r i(2) by simp
  qed
qed

text \<open>A step that keeps the root directory.\<close>

definition rootstep :: "vol \<Rightarrow> vol \<Rightarrow> bool" where
  "rootstep s s' \<longleftrightarrow> dstep s s' \<and> same_table s s' \<and> (\<forall>k < unat (n_rootdir s). dentry s' k = dentry s k)"

lemma dsect_good: "good s s' \<Longrightarrow> dsect s' k = dsect s k"
  by (simp add: dsect_def goodD)

lemma rootstep_trans: "rootstep s s1 \<Longrightarrow> rootstep s1 s2 \<Longrightarrow> rootstep s s2"
  using dstep_trans [of s s1 s2] same_table_trans [of s s1 s2] dstep_facts(1) [of s s1]
  by (auto simp: rootstep_def goodD)

lemma rootstep_root: "rootstep s s' \<Longrightarrow> root_ok s \<Longrightarrow> root_ok s' \<and> root_dir s' = root_dir s \<and> n_rootdir s' = n_rootdir s \<and> dirbase s' = dirbase s"
  using dstep_facts(1,2) [of s s'] by (auto simp: rootstep_def root_ok_def root_dir_def goodD)

lemma rootstep_refl: "root_ok s \<Longrightarrow> rootstep s s"
  using dstep_refl [of s] layD(1) [of s] by (simp add: rootstep_def root_ok_def same_table_def)

text \<open>Moving the window to a sector of the root directory shows its entries.\<close>

lemma move_window_root:
  assumes "root_ok s" "k < unat (n_rootdir s)"
    and "\<And>s'. \<lbrakk>rootstep s s'; winsect s' = dsect s k; length (win s') = 512;
           \<And>j. j < 32 \<Longrightarrow> win s' ! (k mod 16 * 32 + j) = dentry s k ! j\<rbrakk> \<Longrightarrow> Q (FR_OK, s')"
  shows "wp (move_window s (dsect s k)) Q"
proof -
  note d = dsect_facts [OF assms(1)]
  have l: "lay s" using assms(1) by (simp add: root_ok_def)
  have "wp (move_window s (dsect s k)) (\<lambda>(r, s'). r = FR_OK \<and> dstep s s' \<and> same_table s s' \<and> winsect s' = dsect s k)"
    by (rule move_window_data [OF l d(2) [OF assms(2)]]) simp
  then obtain s' where m: "move_window s (dsect s k) = Some (FR_OK, s')" "dstep s s'" "same_table s s'" "winsect s' = dsect s k"
    by (auto simp: wp_def)
  note g = dstep_facts(1) [OF m(2)]
  have v: "vbyte s' (dsect s i) j = vbyte s (dsect s i) j" if "i < unat (n_rootdir s)" "j < 512" for i j
    using that d [OF that(1)] by (intro move_window_vbyte [OF layD(2,6) [OF l] d(2) [OF assms(2)] m(1)]) simp_all
  have b: "i mod 16 * 32 + j < 512" if "j < 32" for i j :: nat
    using that mod_less_divisor [of 16 i] by linarith
  have e: "dentry s' i = dentry s i" if "i < unat (n_rootdir s)" for i
    by (rule nth_equalityI) (use that v b dsect_good [OF g] in auto)
  have "win s' ! (k mod 16 * 32 + j) = dentry s k ! j" if "j < 32" for j
    using v [OF assms(2) b [OF that]] m(4) that by (simp add: vbyte_def)
  then show ?thesis
    using m e goodD(1) [OF g] by (simp add: assms(3) rootstep_def)
qed

section \<open>Positions in the directory\<close>

definition at_ent :: "vol \<Rightarrow> DIR \<Rightarrow> nat \<Rightarrow> bool" where
  "at_ent s dp k \<longleftrightarrow> k < unat (n_rootdir s) \<and> clust dp = 0 \<and> sect dp = dsect s k \<and> dir dp = k mod 16 * 32 \<and>
     dptr dp = of_nat (32 * k)"

lemma root_ofs:
  assumes "k \<le> unat (n_rootdir s)"
  shows "unat (of_nat (32 * k) :: DWORD) = 32 * k" "32 * k < 0x200000"
proof -
  show "32 * k < 0x200000" using assms unat_16_less [of "n_rootdir s"] by linarith
  then show "unat (of_nat (32 * k) :: DWORD) = 32 * k" by (subst unat_of_nat) simp
qed

lemma dir_sdi_root:
  assumes "root_ok s" "sclust (dobj dp) = 0"
  shows "\<exists>dp'. dir_sdi s dp 0 = Some (FR_OK, dp', s) \<and> at_ent s dp' 0 \<and> fn dp' = fn dp \<and> dobj dp' = dobj dp"
proof -
  have "fs_type s = 1 \<or> fs_type s = 2" using assms(1) layD(3) [of s] by (auto simp: root_ok_def gok_def)
  then have t: "\<not> FS_FAT32 \<le> fs_type s" by (auto simp: word_le_nat_alt)
  have "dirbase s \<noteq> 0" "0 < unat (n_rootdir s)" using assms(1) by (auto simp: root_ok_def)
  then show ?thesis
    using assms(2) t
    by (simp add: dir_sdi_def dir_sdi_set_def at_ent_def dsect_def word_le_nat_alt unat_ucast_up)
qed

lemma dir_next_root:
  assumes "root_ok s" "at_ent s dp k"
  shows "if Suc k < unat (n_rootdir s)
     then \<exists>dp'. dir_next s dp st = Some (FR_OK, dp', s) \<and> at_ent s dp' (Suc k) \<and> fn dp' = fn dp \<and> dobj dp' = dobj dp
     else \<exists>dp'. dir_next s dp st = Some (FR_NO_FILE, dp', s) \<and> fn dp' = fn dp \<and> dobj dp' = dobj dp"
proof -
  note a = assms(2) [unfolded at_ent_def]
  define ofs :: DWORD where "ofs = of_nat (32 * Suc k)"
  have "Suc k \<le> unat (n_rootdir s)" using a by simp
  note u = root_ofs [OF this, folded ofs_def]
  have o: "dptr dp + 32 = ofs" using a by (simp add: ofs_def)
  have nm: "\<not> 0x200000 \<le> ofs" using u by (simp add: word_le_nat_alt)
  have s0: "sect dp \<noteq> 0" using a dsect_facts(6) [OF assms(1)] by simp
  have "unat (ofs mod 512) = 32 * Suc k mod 512" using u(1) by (simp add: unat_mod)
  also have "\<dots> = Suc k mod 16 * 32" using mult_mod_right [of 32 "Suc k" 16] by simp
  finally have dr: "unat (ofs mod 512) = Suc k mod 16 * 32" .
  then have md: "ofs mod 512 = 0 \<longleftrightarrow> Suc k mod 16 = 0" by (simp add: word_unat_eq_iff)
  have dv: "ucast (n_rootdir s) \<le> ofs div 32 \<longleftrightarrow> unat (n_rootdir s) \<le> Suc k"
    using u(1) by (simp add: word_le_nat_alt unat_div unat_ucast_up)
  have sc: "Suc k div 16 = (if Suc k mod 16 = 0 then Suc (k div 16) else k div 16)" by (simp add: div_Suc)
  show ?thesis
  proof (cases "Suc k < unat (n_rootdir s)")
    case True
    then show ?thesis
      using a s0 nm o md dv dr sc
      by (auto simp: dir_next_def dir_next_set_def at_ent_def dsect_def ofs_def [symmetric] Let_def)
  next
    case False
    then have "Suc k = unat (n_rootdir s)" using a by simp
    then have "Suc k mod 16 = 0" using assms(1) by (simp add: root_ok_def dvd_eq_mod_eq_0)
    then show ?thesis
      using a s0 nm o md dv False by (simp add: dir_next_def Let_def)
  qed
qed

section \<open>The search\<close>

lemma dentry_win:
  assumes "at_ent s dp k" "length (win s') = 512" "\<And>j. j < 32 \<Longrightarrow> win s' ! (k mod 16 * 32 + j) = dentry s k ! j"
  shows "dir dp + 32 \<le> 512" "take 11 (drop (dir dp) (win s')) = take 11 (dentry s k)"
    "j < 32 \<Longrightarrow> win s' ! (dir dp + j) = dentry s k ! j"
proof -
  show le: "dir dp + 32 \<le> 512" using assms(1) mod_less_divisor [of 16 k] by (simp add: at_ent_def)
  show "win s' ! (dir dp + j) = dentry s k ! j" if "j < 32" for j using assms(1,3) that by (simp add: at_ent_def)
  then show "take 11 (drop (dir dp) (win s')) = take 11 (dentry s k)"
    using le assms(2) by (intro nth_equalityI) (simp_all del: nth_dentry)
qed

definition dfound :: "vol \<Rightarrow> DIR \<Rightarrow> nat option \<Rightarrow> FRESULT \<times> DIR \<times> vol \<Rightarrow> bool" where
  "dfound s dp x = (\<lambda>(r, dp', s'). rootstep s s' \<and> fn dp' = fn dp \<and> sclust (dobj dp') = sclust (dobj dp) \<and>
     (case x of None \<Rightarrow> r = FR_NO_FILE
      | Some k \<Rightarrow> r = FR_OK \<and> at_ent s dp' k \<and> winsect s' = dsect s k \<and> attr (dobj dp') = dentry s k ! 11 AND AM_MASK))"

lemma at_ent_rootstep: "rootstep s s' \<Longrightarrow> at_ent s' dp k = at_ent s dp k"
  using dstep_facts(1) [of s s'] by (auto simp: rootstep_def at_ent_def dsect_def goodD)

lemma dfound_step:
  assumes "dfound s1 dp1 x y" "rootstep s s1" "fn dp1 = fn dp \<and> sclust (dobj dp1) = sclust (dobj dp)" "root_ok s" "\<And>k. x = Some k \<Longrightarrow> k < unat (n_rootdir s)"
  shows "dfound s dp x y"
proof -
  have "dsect s1 i = dsect s i" "dentry s1 i = dentry s i" if "i < unat (n_rootdir s)" for i
    using assms(2) that dsect_good [OF dstep_facts(1)] by (auto simp: rootstep_def)
  then show ?thesis
    using assms rootstep_trans [OF assms(2)] at_ent_rootstep [OF assms(2)]
    by (cases y) (auto simp: dfound_def split: option.splits)
qed

lemma lookup_less: "lookup nm es = Some i \<Longrightarrow> i < length es"
  by (induction es arbitrary: i) (auto split: if_splits)

lemma dir_find_loop_root:
  assumes "root_ok s" "at_ent s dp k" "length (fn dp) = 12"
  shows "wp (dir_find_loop s dp) (dfound s dp (map_option ((+) k) (lookup (take 11 (fn dp)) (drop k (root_dir s)))))"
  using assms
proof (induction "unat (n_rootdir s) - k" arbitrary: s dp k)
  case 0
  then show ?case by (simp add: at_ent_def)
next
  case (Suc m)
  have k: "k < unat (n_rootdir s)" and se: "sect dp = dsect s k" using Suc.prems(2) by (simp_all add: at_ent_def)
  have dr: "drop k (root_dir s) = dentry s k # drop (Suc k) (root_dir s)"
    using k by (simp add: Cons_nth_drop_Suc [symmetric])
  show ?case
    apply (subst dir_find_loop.simps)
    unfolding wp_bind se
  proof (rule move_window_root [OF Suc.prems(1) k], goal_cases)
    case (1 s1)
    note w = dentry_win [OF Suc.prems(2) 1(3,4)]
    note r1 = rootstep_root [OF 1(1) Suc.prems(1)]
    let ?dp = "dp\<lparr>dobj := (dobj dp)\<lparr>attr := dentry s k ! 11 AND AM_MASK\<rparr>\<rparr>"
    let ?lk = "lookup (take 11 (fn dp)) (drop (Suc k) (root_dir s))"
    have "at_ent s ?dp k" using Suc.prems(2) by (simp add: at_ent_def)
    then have a1: "at_ent s1 ?dp k" by (simp only: at_ent_rootstep [OF 1(1)])
    have nx: "wp (do { (res, dp', s2) \<leftarrow> dir_next s1 ?dp False;
        if res = FR_OK then dir_find_loop s2 dp' else Some (res, dp', s2) })
        (dfound s dp (map_option ((+) (Suc k)) ?lk))"
    proof (cases "Suc k < unat (n_rootdir s)")
      case True
      then obtain dp' where d: "dir_next s1 ?dp False = Some (FR_OK, dp', s1)" "at_ent s1 dp' (Suc k)"
          "fn dp' = fn dp \<and> sclust (dobj dp') = sclust (dobj dp)"
        using dir_next_root [of s1 ?dp k False] a1 r1 by auto
      have "wp (dir_find_loop s1 dp') (dfound s1 dp' (map_option ((+) (Suc k)) ?lk))"
        using Suc.hyps(1) [of s1 "Suc k" dp'] Suc.hyps(2) r1 d Suc.prems(3) by simp
      then have "wp (dir_find_loop s1 dp') (dfound s dp (map_option ((+) (Suc k)) ?lk))"
        by (rule wp_mono) (use dfound_step [OF _ 1(1) d(3) Suc.prems(1)] lookup_less in fastforce)
      then show ?thesis using d(1) by simp
    next
      case False
      then obtain dp' where d: "dir_next s1 ?dp False = Some (FR_NO_FILE, dp', s1)"
          "fn dp' = fn dp \<and> sclust (dobj dp') = sclust (dobj dp)"
        using dir_next_root [of s1 ?dp k False] a1 r1 by auto
      then show ?thesis using False 1(1) by (simp add: dfound_def)
    qed
    have e: "ldb (win s1) (dir dp + 0) = Some (dentry s k ! 0)" "ldb (win s1) (dir dp + 11) = Some (dentry s k ! 11)"
      "memread (win s1) (dir dp) 11 = Some (take 11 (dentry s k))" "memread (fn dp) 0 11 = Some (take 11 (fn dp))"
      using w(1) w(2) w(3) [of 0] w(3) [of 11] 1(3) Suc.prems(3) by (simp_all add: ldb_def memread_def del: nth_dentry)
    have at: "at_ent s ?dp k" using Suc.prems(2) by (simp add: at_ent_def)
    consider (fin) "dentry s k ! 0 = 0"
      | (hit) "dentry s k ! 0 \<noteq> 0" "dentry s k ! 11 AND AM_VOL = 0 \<and> take 11 (dentry s k) = take 11 (fn dp)"
      | (miss) "dentry s k ! 0 \<noteq> 0" "\<not> (dentry s k ! 11 AND AM_VOL = 0 \<and> take 11 (dentry s k) = take 11 (fn dp))"
      by blast
    then show ?case
    proof cases
      case fin
      then show ?thesis unfolding dr using e 1(1) by (simp add: dfound_def del: nth_dentry)
    next
      case hit
      then show ?thesis unfolding dr using e 1(1,2) at by (simp add: dfound_def del: nth_dentry)
    next
      case miss
      have "map_option ((+) k) (lookup (take 11 (fn dp)) (dentry s k # drop (Suc k) (root_dir s))) = map_option ((+) (Suc k)) ?lk"
        using miss by (cases ?lk) (auto simp del: nth_dentry)
      then show ?thesis unfolding dr using e miss nx by (auto simp: Let_def simp del: nth_dentry lookup.simps)
    qed
  qed
qed

lemma dir_find_root:
  assumes "root_ok s" "sclust (dobj dp) = 0" "length (fn dp) = 12"
  shows "wp (dir_find s dp) (dfound s dp (lookup (take 11 (fn dp)) (root_dir s)))"
proof -
  obtain dp' where d: "dir_sdi s dp 0 = Some (FR_OK, dp', s)" "at_ent s dp' 0" "fn dp' = fn dp \<and> sclust (dobj dp') = sclust (dobj dp)"
    using dir_sdi_root [OF assms(1,2)] by auto
  have "wp (dir_find_loop s dp') (dfound s dp' (lookup (take 11 (fn dp)) (root_dir s)))"
    using dir_find_loop_root [OF assms(1) d(2)] d(3) assms(3) by (simp add: option.map_id0 [unfolded id_def] cong: map_option_cong)
  then show ?thesis using d(1,3) by (simp add: dir_find_def dfound_def)
qed

section \<open>Registration and removal\<close>

text \<open>The first entry that can be reused: a deleted one or the end mark.\<close>

fun first_free :: "buffer list \<Rightarrow> nat option" where
  "first_free [] = None"
| "first_free (e # es) = (if e ! 0 = DDEM \<or> e ! 0 = 0 then Some 0 else map_option Suc (first_free es))"

lemma first_free_less: "first_free es = Some i \<Longrightarrow> i < length es"
  by (induction es arbitrary: i) (auto split: if_splits)

definition dfree :: "vol \<Rightarrow> DIR \<Rightarrow> nat option \<Rightarrow> FRESULT \<times> DIR \<times> vol \<Rightarrow> bool" where
  "dfree s dp x = (\<lambda>(r, dp', s'). rootstep s s' \<and> fn dp' = fn dp \<and> dobj dp' = dobj dp \<and>
     (case x of None \<Rightarrow> r = FR_NO_FILE | Some k \<Rightarrow> r = FR_OK \<and> at_ent s dp' k \<and> winsect s' = dsect s k))"

lemma dir_alloc_loop_root:
  assumes "root_ok s" "at_ent s dp k"
  shows "wp (dir_alloc_loop s dp 0 1) (dfree s dp (map_option ((+) k) (first_free (drop k (root_dir s)))))"
  using assms
proof (induction "unat (n_rootdir s) - k" arbitrary: s dp k)
  case 0
  then show ?case by (simp add: at_ent_def)
next
  case (Suc m)
  have k: "k < unat (n_rootdir s)" and se: "sect dp = dsect s k" using Suc.prems(2) by (simp_all add: at_ent_def)
  have dr: "drop k (root_dir s) = dentry s k # drop (Suc k) (root_dir s)"
    using k by (simp add: Cons_nth_drop_Suc [symmetric])
  let ?lk = "first_free (drop (Suc k) (root_dir s))"
  show ?case
    apply (subst dir_alloc_loop.simps)
    unfolding wp_bind se
  proof (rule move_window_root [OF Suc.prems(1) k], goal_cases)
    case (1 s1)
    note w = dentry_win [OF Suc.prems(2) 1(3,4)]
    note r1 = rootstep_root [OF 1(1) Suc.prems(1)]
    have a1: "at_ent s1 dp k" using Suc.prems(2) by (simp only: at_ent_rootstep [OF 1(1)])
    have nx: "wp (do { (res, dp', s2) \<leftarrow> dir_next s1 dp True;
        if res = FR_OK then dir_alloc_loop s2 dp' 0 1 else Some (res, dp', s2) })
        (dfree s dp (map_option ((+) (Suc k)) ?lk))"
    proof (cases "Suc k < unat (n_rootdir s)")
      case True
      then obtain dp' where d: "dir_next s1 dp True = Some (FR_OK, dp', s1)" "at_ent s1 dp' (Suc k)" "fn dp' = fn dp \<and> dobj dp' = dobj dp"
        using dir_next_root [of s1 dp k True] a1 r1 by auto
      have ih: "wp (dir_alloc_loop s1 dp' 0 1) (dfree s1 dp' (map_option ((+) (Suc k)) ?lk))"
        using Suc.hyps(1) [of s1 "Suc k" dp'] Suc.hyps(2) r1 d by simp
      have ds: "dsect s1 i = dsect s i" for i using dsect_good [OF dstep_facts(1)] 1(1) by (auto simp: rootstep_def)
      have "wp (dir_alloc_loop s1 dp' 0 1) (dfree s dp (map_option ((+) (Suc k)) ?lk))"
        using ih by (rule wp_mono) (use d(3) rootstep_trans [OF 1(1)] at_ent_rootstep [OF 1(1)] ds
          in \<open>auto simp: dfree_def split: option.splits\<close>)
      then show ?thesis using d(1) by simp
    next
      case False
      then obtain dp' where d: "dir_next s1 dp True = Some (FR_NO_FILE, dp', s1)" "fn dp' = fn dp \<and> dobj dp' = dobj dp"
        using dir_next_root [of s1 dp k True] a1 r1 by auto
      then show ?thesis using False 1(1) by (simp add: dfree_def)
    qed
    have e: "ldb (win s1) (dir dp + 0) = Some (dentry s k ! 0)"
      using w(1) w(3) [of 0] 1(3) by (simp add: ldb_def del: nth_dentry)
    show ?case
    proof (cases "dentry s k ! 0 = DDEM \<or> dentry s k ! 0 = 0")
      case True
      then show ?thesis unfolding dr using e 1(1,2) Suc.prems(2) by (auto simp: dfree_def simp del: nth_dentry)
    next
      case False
      have "map_option ((+) k) (first_free (dentry s k # drop (Suc k) (root_dir s))) = map_option ((+) (Suc k)) ?lk"
        using False by (cases ?lk) (auto simp del: nth_dentry)
      then show ?thesis unfolding dr using e False nx by (simp add: Let_def del: nth_dentry first_free.simps)
    qed
  qed
qed

text \<open>Changing bytes of the entry under the window, in a sector of the root directory: the data area and the
  FAT are kept.\<close>

definition ddata :: "vol \<Rightarrow> vol \<Rightarrow> bool" where
  "ddata s s' \<longleftrightarrow> lay s' \<and> good s s' \<and> (\<forall>n j. in_data s n \<longrightarrow> j < 512 \<longrightarrow> vbyte s' n j = vbyte s n j)"

lemma dstep_ddata: "lay s \<Longrightarrow> dstep s s' \<Longrightarrow> ddata s s'"
  using in_data_above [of s] by (auto simp: dstep_def ddata_def dkeep_def)

lemma ddata_trans: "ddata s s1 \<Longrightarrow> ddata s1 s2 \<Longrightarrow> ddata s s2"
  using good_trans [of s s1 s2] by (auto simp: ddata_def in_data_def goodD)

definition rootput :: "vol \<Rightarrow> nat \<Rightarrow> buffer \<Rightarrow> vol \<Rightarrow> bool" where
  "rootput s k e s' \<longleftrightarrow> root_ok s' \<and> ddata s s' \<and> same_table s s' \<and> dentry s' k = e \<and>
     (\<forall>i < unat (n_rootdir s). i \<noteq> k \<longrightarrow> dentry s' i = dentry s i)"

lemma slot_disjoint:
  fixes i k j x :: nat
  assumes "i \<noteq> k" "i div 16 = k div 16" "j < 32" "x < 32"
  shows "i mod 16 * 32 + j \<noteq> k mod 16 * 32 + x"
proof
  assume "i mod 16 * 32 + j = k mod 16 * 32 + x"
  then have "(i mod 16 * 32 + j) div 32 = (k mod 16 * 32 + x) div 32" by simp
  then have "i mod 16 = k mod 16" using assms(3,4) by simp
  then show False using assms(1,2) by (metis div_mult_mod_eq)
qed

lemma rootput_win:
  assumes "root_ok s" "k < unat (n_rootdir s)" "winsect s = dsect s k" "length e = 32"
  shows "rootput s k e (s\<lparr>win := take (k mod 16 * 32) (win s) @ e @ drop (k mod 16 * 32 + 32) (win s), wflag := 1\<rparr>)"
    (is "rootput s k e ?s")
proof -
  have l: "lay s" using assms(1) by (simp add: root_ok_def)
  note d = dsect_facts [OF assms(1)]
  have lw: "length (win s) = 512" using layD(2) [OF l] by simp
  have m: "k mod 16 * 32 + 32 \<le> 512" using mod_less_divisor [of 16 k] by simp
  have len: "length (win ?s) = 512" using lw m assms(4) by simp
  have g: "good s ?s" using dirty_good [OF layD(2) [OF l]] len by simp
  have wr: "wr ?s" using assms(3) d(2) [OF assms(2)] by (simp add: wr_def)
  have vb: "vbyte ?s n j = (if n = winsect s then win ?s ! j else vbyte s n j)" for n j by (simp add: vbyte_def)
  have st: "same_table s ?s" "lay ?s"
    by (rule same_tableI [OF l g wr]; use d(4) [OF assms(2)] assms(3) in \<open>auto simp: vbyte_def\<close>)+
  have ds: "ddata s ?s" using g st(2) d(5) [OF assms(2)] assms(3) by (auto simp: ddata_def vbyte_def)
  have nth: "win ?s ! x = (if k mod 16 * 32 \<le> x \<and> x < k mod 16 * 32 + 32 then e ! (x - k mod 16 * 32) else win s ! x)"
    if "x < 512" for x using nth_splice [of "k mod 16 * 32" e "win s" x] lw m assms(4) that by simp
  have wd: "vbyte s (dsect s k) j = win s ! j" for j using assms(3) by (simp add: vbyte_def)
  show ?thesis
    unfolding rootput_def
  proof (intro conjI allI impI)
    show "root_ok ?s" using assms(1) st(2) by (auto simp: root_ok_def)
    have sl: "x mod 16 * 32 + j < 512" if "j < 32" for x j :: nat using that mod_less_divisor [of 16 x] by linarith
    show "dentry ?s k = e"
      by (rule nth_equalityI) (use assms(3,4) nth [OF sl] dsect_good [OF g] in \<open>auto simp: vb\<close>)
    fix i assume i: "i < unat (n_rootdir s)" "i \<noteq> k"
    have "vbyte ?s (dsect s i) (i mod 16 * 32 + j) = vbyte s (dsect s i) (i mod 16 * 32 + j)" if j: "j < 32" for j
    proof (cases "dsect s i = dsect s k")
      case True
      then have "i div 16 = k div 16" using d(1) [OF i(1)] d(1) [OF assms(2)] by simp
      note sd = slot_disjoint [OF i(2) this j]
      have "\<not> (k mod 16 * 32 \<le> i mod 16 * 32 + j \<and> i mod 16 * 32 + j < k mod 16 * 32 + 32)"
        using sd [of "i mod 16 * 32 + j - k mod 16 * 32"] by (auto simp: less_diff_conv2)
      then show ?thesis using True nth [OF sl [OF j], of i] assms(3) wd by (auto simp: vb)
    next
      case False
      then show ?thesis using assms(3) by (simp add: vb)
    qed
    then show "dentry ?s i = dentry s i"
      by (intro nth_equalityI) (use dsect_good [OF g] in simp_all)
  qed (fact ds st)+
qed

text \<open>The entry that \<open>dir_register\<close> writes: the name, and zeros behind it.\<close>

lemma rootput_from:
  assumes "root_ok s" "rootstep s s1" "rootput s1 k e s'"
  shows "rootput s k e s'"
proof -
  have "n_rootdir s1 = n_rootdir s" "ddata s s1" "same_table s s1"
    using assms(1,2) dstep_facts(1) [of s s1] dstep_ddata [of s s1] by (auto simp: rootstep_def goodD root_ok_def)
  then show ?thesis
    using assms ddata_trans [of s s1 s'] same_table_trans [of s s1 s'] by (auto simp: rootput_def rootstep_def)
qed

lemma dir_alloc_root:
  assumes "root_ok s" "sclust (dobj dp) = 0"
  shows "wp (dir_alloc s dp 1) (\<lambda>(r, dp', s'). rootstep s s' \<and> fn dp' = fn dp \<and> dobj dp' = dobj dp \<and>
     (case first_free (root_dir s) of None \<Rightarrow> r = FR_DENIED
      | Some k \<Rightarrow> r = FR_OK \<and> at_ent s dp' k \<and> winsect s' = dsect s k))"
proof -
  obtain dp' where d: "dir_sdi s dp 0 = Some (FR_OK, dp', s)" "at_ent s dp' 0" "fn dp' = fn dp \<and> dobj dp' = dobj dp"
    using dir_sdi_root [OF assms] by auto
  have "wp (dir_alloc_loop s dp' 0 1) (dfree s dp' (map_option ((+) 0) (first_free (root_dir s))))"
    using dir_alloc_loop_root [OF assms(1) d(2)] by simp
  then show ?thesis
    using d(1,3) by (simp add: dir_alloc_def wp_bind) (erule wp_mono, auto simp: dfree_def split: option.splits)
qed

lemma rootput_at:
  assumes "root_ok s" "rootstep s s1" "at_ent s dp k" "winsect s1 = dsect s k" "length e = 32"
  shows "rootput s k e (s1\<lparr>win := take (dir dp) (win s1) @ e @ drop (dir dp + 32) (win s1), wflag := 1\<rparr>)"
proof (rule rootput_from [OF assms(1,2)])
  note r = rootstep_root [OF assms(2,1)]
  have "dsect s1 k = dsect s k" using r by (simp add: dsect_def)
  then show "rootput s1 k e (s1\<lparr>win := take (dir dp) (win s1) @ e @ drop (dir dp + 32) (win s1), wflag := 1\<rparr>)"
    using rootput_win [of s1 k e] r assms(3-5) by (simp add: at_ent_def)
qed

lemma dir_register_root:
  assumes "root_ok s" "sclust (dobj dp) = 0" "length (fn dp) = 12"
  shows "wp (dir_register s dp) (\<lambda>(r, dp', s'). fn dp' = fn dp \<and> dobj dp' = dobj dp \<and>
     (case first_free (root_dir s) of
        None \<Rightarrow> r = FR_DENIED \<and> rootstep s s'
      | Some k \<Rightarrow> r = FR_OK \<and> at_ent s dp' k \<and> winsect s' = dsect s k \<and> rootput s k (take 11 (fn dp) @ replicate 21 0) s'))"
proof -
  have "wp (do { (res, s2) \<leftarrow> move_window s1 (sect dp');
      if res = FR_OK then do {
         b \<leftarrow> memset (win s2) (dir dp') 0 SZDIRE;
         name \<leftarrow> memread (fn dp') 0 11;
         b \<leftarrow> memwrite b (dir dp' + DIR_Name) name;
         Some (res, dp', s2\<lparr>win := b, wflag := 1\<rparr>)
       } else Some (res, dp', s2) })
     (\<lambda>(r, dp', s'). fn dp' = fn dp \<and> dobj dp' = dobj dp \<and> r = FR_OK \<and> at_ent s dp' k \<and> winsect s' = dsect s k \<and>
        rootput s k (take 11 (fn dp) @ replicate 21 0) s')"
    if "rootstep s s1" "fn dp' = fn dp \<and> dobj dp' = dobj dp" "at_ent s dp' k" "winsect s1 = dsect s k" for s1 dp' k
  proof -
    have "root_ok s1" using rootstep_root [OF that(1) assms(1)] by simp
    then have lw: "length (win s1) = 512" using layD(2) by (simp add: root_ok_def)
    have d: "dir dp' + 32 \<le> 512" "sect dp' = winsect s1"
      using that(3,4) mod_less_divisor [of 16 k] by (simp_all add: at_ent_def)
    have "rootput s k (take 11 (fn dp) @ replicate 21 0)
        (s1\<lparr>win := take (dir dp') (win s1) @ (take 11 (fn dp) @ replicate 21 0) @ drop (dir dp' + 32) (win s1), wflag := 1\<rparr>)"
      using assms(3) by (intro rootput_at [OF assms(1) that(1,3,4)]) simp
    then show ?thesis
      using d lw that(2-4) assms(3) by (simp add: move_window_def wp_simps)
  qed
  then show ?thesis
    unfolding dir_register_def wp_bind
    by (intro wp_mono [OF dir_alloc_root [OF assms(1,2)]]) (auto simp: wp_bind split: option.splits)
qed

lemma dir_remove_root:
  assumes "root_ok s" "at_ent s dp k"
  shows "wp (dir_remove s dp) (\<lambda>(r, s'). r = FR_OK \<and> rootput s k ((dentry s k)[0 := DDEM]) s')"
proof -
  have k: "k < unat (n_rootdir s)" and se: "sect dp = dsect s k" using assms(2) by (simp_all add: at_ent_def)
  show ?thesis
    unfolding dir_remove_def wp_bind se
  proof (rule move_window_root [OF assms(1) k], goal_cases)
    case (1 s1)
    note w = dentry_win [OF assms(2) 1(3,4)]
    let ?e = "(dentry s k)[0 := DDEM]"
    have "(win s1)[dir dp := DDEM] = take (dir dp) (win s1) @ ?e @ drop (dir dp + 32) (win s1)"
    proof (rule nth_equalityI)
      fix x assume "x < length ((win s1)[dir dp := DDEM])"
      then have x: "x < 512" using 1(3) by simp
      show "(win s1)[dir dp := DDEM] ! x = (take (dir dp) (win s1) @ ?e @ drop (dir dp + 32) (win s1)) ! x"
        using nth_splice [of "dir dp" ?e "win s1" x] w(1) w(3) [of "x - dir dp"] x 1(3)
        by (auto simp: nth_list_update less_diff_conv2 simp del: nth_dentry)
    qed (use w(1) 1(3) in simp)
    moreover have "rootput s k ?e (s1\<lparr>win := take (dir dp) (win s1) @ ?e @ drop (dir dp + 32) (win s1), wflag := 1\<rparr>)"
      by (rule rootput_at [OF assms(1) 1(1) assms(2) 1(2)]) simp
    ultimately show ?case using w(1) 1(3) by (simp add: wp_simps)
  qed
qed

section \<open>The list of entries\<close>

lemma found_window:
  assumes "root_ok s" "rootstep s s'" "at_ent s dp k" "winsect s' = dsect s k"
  shows "take 32 (drop (dir dp) (win s')) = root_dir s ! k"
proof (rule nth_equalityI)
  note r = rootstep_root [OF assms(2,1)]
  have k: "k < unat (n_rootdir s)" "dir dp + 32 \<le> 512" "dir dp = k mod 16 * 32"
    using assms(3) mod_less_divisor [of 16 k] by (simp_all add: at_ent_def)
  have lw: "length (win s') = 512" using r layD(2) by (simp add: root_ok_def)
  show "length (take 32 (drop (dir dp) (win s'))) = length (root_dir s ! k)" using k lw by simp
  fix j assume "j < length (take 32 (drop (dir dp) (win s')))"
  then have j: "j < 32" by simp
  have "dentry s' k ! j = dentry s k ! j" using assms(2) k(1) by (simp add: rootstep_def)
  moreover have "dsect s' k = dsect s k" using r by (simp add: dsect_def)
  ultimately show "take 32 (drop (dir dp) (win s')) ! j = root_dir s ! k ! j"
    using j k lw assms(4) by (simp add: vbyte_def)
qed

lemma rootput_dir:
  assumes "rootput s k e s'"
  shows "root_dir s' = (root_dir s)[k := e]"
proof (rule nth_equalityI)
  have n: "n_rootdir s' = n_rootdir s" using assms by (auto simp: rootput_def ddata_def goodD)
  then show "length (root_dir s') = length ((root_dir s)[k := e])" by simp
  fix i assume "i < length (root_dir s')"
  then show "root_dir s' ! i = (root_dir s)[k := e] ! i" using assms n by (cases "i = k") (auto simp: rootput_def)
qed

lemma lookup_remove:
  assumes "lookup nm es = Some k" "lookup nm (drop (Suc k) es) = None" "nm ! 0 \<noteq> DDEM" "length nm = 11" "11 \<le> length (es ! k)"
  shows "lookup nm (es[k := (es ! k)[0 := DDEM]]) = None"
  using assms
proof (induction es arbitrary: k)
  case (Cons e es)
  show ?case
  proof (cases k)
    case 0
    have "take 11 (e[0 := DDEM]) \<noteq> nm" using Cons.prems(3-5) 0 by (cases e) auto
    then show ?thesis using 0 Cons.prems(1,2,5) by simp
  next
    case (Suc m)
    then show ?thesis using Cons.prems Cons.IH [of m] by (auto split: if_splits)
  qed
qed simp

text \<open>Following a path with one segment, from the root directory.\<close>

lemma follow_path_root:
  assumes "root_ok s" "list_all name_char body" "list_all name_char ext" "body \<noteq> []" "length body \<le> 8" "length ext \<le> 3"
    and "length (fn dp) = 12"
  shows "wp (follow_path sc s dp (0x2F # name_str body ext @ [0])) (\<lambda>(r, dp', s'). fn dp' = sfn_of body ext @ [NS_LAST] \<and> sclust (dobj dp') = 0 \<and>
     dfound s dp' (lookup (sfn_of body ext) (root_dir s)) (r, dp', s'))"
proof -
  let ?p = "name_str body ext @ [0]" and ?f = "sfn_of body ext @ [NS_LAST]"
  have c0: "\<not> IsSeparator (?p ! 0)" "\<not> ?p ! 0 < 0x20" "0 < length ?p"
    using assms(2,4) by (cases body; auto simp: name_str_def name_char_def)+
  have sk: "skip_separators (0x2F # ?p) 0 = Some 1"
    using c0 by (subst skip_separators.simps, simp add: ldb_def IsSeparator_def [of "0x2F"])
      (subst skip_separators.simps, simp add: ldb_def)
  let ?dp = "dp\<lparr>dobj := (dobj dp)\<lparr>sclust := 0\<rparr>, fn := ?f\<rparr>"
  have cn: "create_name sc (dp\<lparr>dobj := (dobj dp)\<lparr>sclust := 0\<rparr>\<rparr>) ?p = Some (FR_OK, ?dp, [])"
    using create_name_83 [OF assms(2-6), of "dp\<lparr>dobj := (dobj dp)\<lparr>sclust := 0\<rparr>\<rparr>" sc "[]"] assms(7) by simp
  have tk: "take 11 ?f = sfn_of body ext" "length ?f = 12" "?f ! 11 = NS_LAST" using assms(5,6) by (simp_all add: nth_append)
  have "wp (dir_find s ?dp) (dfound s ?dp (lookup (sfn_of body ext) (root_dir s)))"
    using dir_find_root [of s ?dp] assms(1) tk by simp
  then obtain r dp' s' where d: "dir_find s ?dp = Some (r, dp', s')" "dfound s ?dp (lookup (sfn_of body ext) (root_dir s)) (r, dp', s')"
    by (auto simp: wp_def)
  then have f: "fn dp' = ?f" by (simp add: dfound_def)
  have "follow_path_loop sc s (dp\<lparr>dobj := (dobj dp)\<lparr>sclust := 0\<rparr>\<rparr>) ?p = Some (r, dp', s')"
    using tk by (subst follow_path_loop.simps) (simp add: cn d(1) ldb_def f)
  then have "follow_path sc s dp (0x2F # ?p) = Some (r, dp', s')"
    using c0(2,3) by (simp add: follow_path_def sk ldb_def)
  then show ?thesis using d(2) f tk by (simp add: dfound_def)
qed

section \<open>Operations on the FAT keep the root directory\<close>

lemma dsect_above:
  assumes "root_ok s" "k < unat (n_rootdir s)"
  shows "above s (dsect s k)"
proof -
  note d = dsect_facts(1,2) [OF assms]
  have "unat (dirbase s) = unat (fatbase s) + unat (n_fats s) * unat (fsize s)" using assms(1) by (simp add: root_ok_def)
  then show ?thesis using d by (simp add: above_def)
qed

lemma dstep_root:
  assumes "root_ok s" "dstep s s'"
  shows "root_ok s'" "root_dir s' = root_dir s" "n_rootdir s' = n_rootdir s" "\<And>k. dsect s' k = dsect s k"
proof -
  note f = dstep_facts(1,2) [OF assms(2)]
  show "root_ok s'" "n_rootdir s' = n_rootdir s" using assms(1) f by (auto simp: root_ok_def goodD)
  show ds: "dsect s' k = dsect s k" for k using dsect_good [OF f(1)] .
  have "dentry s' k = dentry s k" if "k < unat (n_rootdir s)" for k
  proof (rule nth_equalityI)
    fix j assume "j < length (dentry s' k)"
    then have j: "j < 32" "k mod 16 * 32 + j < 512" using mod_less_divisor [of 16 k] by auto
    then show "dentry s' k ! j = dentry s k ! j"
      using assms(2) dsect_above [OF assms(1) that] by (simp add: ds dstep_def dkeep_def)
  qed simp
  then show "root_dir s' = root_dir s" using f(1) by (simp add: root_dir_def goodD)
qed

end
