(* ===== verification/FF_EntrySpec.thy ===== *)
theory FF_EntrySpec
  imports FF_DirSpec FF_TruncSpec FF_DirOps
begin

text \<open>
  Files of the root directory by their names: what deleting, creating and opening one does to the list of
  entries and to the FAT.
\<close>

section \<open>The fields of an entry\<close>

definition entry_clust :: "buffer \<Rightarrow> DWORD" where
  "entry_clust e = ucast (push_bit 8 (ucast (e ! 27)) OR ucast (e ! 26) :: WORD)"

definition entry_size :: "buffer \<Rightarrow> DWORD" where
  "entry_size e = push_bit 8 (push_bit 8 (push_bit 8 (ucast (e ! 31)) OR ucast (e ! 30)) OR ucast (e ! 29)) OR ucast (e ! 28)"

lemma window_fields:
  assumes "length w = 512" "d + 32 \<le> 512" "take 32 (drop d w) = e" "fs_type s \<noteq> FS_FAT32"
  shows "ld_clust s w d = Some (entry_clust e)" "ld_dword w (d + DIR_FileSize) = Some (entry_size e)"
proof -
  have n: "w ! (d + j) = e ! j" if "j < 32" for j using assms(1-3) that by auto
  show "ld_clust s w d = Some (entry_clust e)"
    using assms(1,2,4) n [of 26] n [of 27] by (simp add: ld_clust_def ld_word_def ldb_def entry_clust_def add.assoc add.commute)
  show "ld_dword w (d + DIR_FileSize) = Some (entry_size e)"
    using assms(1,2) n [of 28] n [of 29] n [of 30] n [of 31] by (simp add: ld_dword_def ldb_def entry_size_def add.assoc add.commute)
qed

section \<open>Deleting\<close>

lemma fsi_flag_upd [simp]:
  "geo (s\<lparr>fsi_flag := f\<rparr>) = geo s" "fat_entry (s\<lparr>fsi_flag := f\<rparr>) = fat_entry s" "fat_inv (s\<lparr>fsi_flag := f\<rparr>) = fat_inv s"
  "dstep s (s'\<lparr>fsi_flag := f\<rparr>) = dstep s s'"
proof -
  show "geo (s\<lparr>fsi_flag := f\<rparr>) = geo s" by (simp add: geo_def)
  have "fat_byte (s\<lparr>fsi_flag := f\<rparr>) = fat_byte s" by (rule ext) (simp add: fat_byte_def vbyte_def)
  then show "fat_entry (s\<lparr>fsi_flag := f\<rparr>) = fat_entry s" by (intro ext) (simp add: fat_entry_def)
  show i: "fat_inv (s\<lparr>fsi_flag := f\<rparr>) = fat_inv s" for s
    by (simp add: fat_inv_def vok_def coh_def gok_def mirror_ok_def fat_on_disk_def wr_def)
  then show "dstep s (s'\<lparr>fsi_flag := f\<rparr>) = dstep s s'"
    by (simp add: dstep_def lay_def good_def vok_def coh_def dkeep_def vbyte_def geo_def)
qed

lemma sync_fs_root:
  assumes "root_ok s"
    and "\<And>s'. \<lbrakk>dstep s s'; same_table (s\<lparr>fsi_flag := fsi_flag s'\<rparr>) s'\<rbrakk> \<Longrightarrow> Q (FR_OK, s')"
  shows "wp (sync_fs s) Q"
proof -
  have l: "lay s" "fs_type s \<noteq> FS_FAT32" using assms(1) by (simp_all add: root_ok_def)
  show ?thesis
    unfolding sync_fs_def wp_bind
  proof (rule sync_window_lay [OF l(1)], goal_cases)
    case (1 s1)
    have t: "fs_type s1 = fs_type s" using dstepD [OF 1(1)] by simp
    have a: "Q (FR_OK, s1)" using 1(1,2) by (intro assms(2)) (simp_all add: same_table_def fat_rest_def)
    have b: "Q (FR_OK, s1\<lparr>fsi_flag := 0\<rparr>)"
      using 1(1,2) by (intro assms(2)) (simp_all add: same_table_def fat_rest_def)
    show ?case using a b t l(2) by (simp add: disk_ioctl_def wp_simps)
  qed
qed

text \<open>Steps that keep the table, before and after chains are freed.\<close>

lemma frees_table:
  assumes "same_table s s1" "frees s1 cs s2"
  shows "frees s cs s2"
proof -
  have n: "n_fatent s1 = n_fatent s" using assms(1) by (rule same_table_n)
  have e: "fat_entry s2 d = (if d \<in> set cs then 0 else fat_entry s d)" if "d < n_fatent s" for d
    using assms that n by (auto simp: frees_def same_table_def)
  show ?thesis
    unfolding frees_def using assms e same_table_free_ok [OF assms(1)] by (auto simp: frees_def same_table_def fat_rest_def)
qed

lemma frees_then:
  assumes "frees s cs s1" "same_table (s1\<lparr>fsi_flag := f\<rparr>) s2"
  shows "frees s cs s2"
proof -
  have g: "geo s1 = geo s" using assms(1) by (simp add: frees_def)
  have n: "n_fatent s1 = n_fatent s" by (rule geo_n_fatent [OF g])
  have e: "fat_entry s2 d = (if d \<in> set cs then 0 else fat_entry s d)" if "d < n_fatent s" for d
    using assms that n by (auto simp: frees_def same_table_def)
  have "free_ok (s1\<lparr>fsi_flag := f\<rparr>) = free_ok s1" by (simp add: free_ok_def free_set_def)
  then show ?thesis
    unfolding frees_def using assms e g same_table_free_ok [OF assms(2)] by (auto simp: frees_def same_table_def fat_rest_def)
qed

lemma frees_nil: "same_table s s' \<Longrightarrow> frees s [] s'"
  using same_table_free_ok [of s s'] by (simp add: frees_def same_table_def fat_rest_def)

lemma and_attr: "(b AND AM_MASK) AND AM_RDO = b AND AM_RDO" "(b AND AM_MASK) AND AM_DIR = b AND AM_DIR" for b :: BYTE
  by (simp_all add: and.assoc)

lemma attr_clear:
  assumes "(b :: BYTE) AND (AM_RDO OR AM_DIR) = 0"
  shows "b AND AM_RDO = 0" "b AND AM_DIR = 0"
proof -
  have "b AND AM_RDO = (b AND (AM_RDO OR AM_DIR)) AND AM_RDO" "b AND AM_DIR = (b AND (AM_RDO OR AM_DIR)) AND AM_DIR"
    by (simp_all add: and.assoc)
  then show "b AND AM_RDO = 0" "b AND AM_DIR = 0" unfolding assms by simp_all
qed

lemma f_unlink_vol_root:
  assumes "root_ok s" "list_all name_char body" "list_all name_char ext" "body \<noteq> []" "length body \<le> 8" "length ext \<le> 3"
    and k: "lookup (sfn_of body ext) (root_dir s) = Some k"
    and attr: "root_dir s ! k ! 11 AND (AM_RDO OR AM_DIR) = 0" and fc: "file_chain s (entry_clust (root_dir s ! k)) cs"
  shows "wp (f_unlink_vol sc s a (0x2F # name_str body ext @ [0])) (\<lambda>(r, s'). r = FR_OK \<and> root_ok s' \<and>
     root_dir s' = (root_dir s)[k := (root_dir s ! k)[0 := DDEM]] \<and> frees s cs s' \<and> ddata s s')"
proof -
  let ?e = "root_dir s ! k"
  obtain dj s1 where f: "follow_path sc s (blank_DIR a) (0x2F # name_str body ext @ [0]) = Some (FR_OK, dj, s1)"
    "fn dj = sfn_of body ext @ [NS_LAST]" "rootstep s s1" "at_ent s dj k" "winsect s1 = dsect s k" "attr (dobj dj) = dentry s k ! 11 AND AM_MASK"
    using follow_path_root [OF assms(1-6), of "blank_DIR a" sc] k by (auto simp: wp_def dfound_def)
  note r1 = rootstep_root [OF f(3) assms(1)]
  have kl: "k < unat (n_rootdir s)" using f(4) by (simp add: at_ent_def)
  have l1: "lay s1" "length (win s1) = 512" "fs_type s1 \<noteq> FS_FAT32" using r1 layD(2) by (auto simp: root_ok_def)
  have d: "dir dj + 32 \<le> 512" using f(4) mod_less_divisor [of 16 k] by (simp add: at_ent_def)
  note at = attr_clear [OF attr]
  have cl: "ld_clust s1 (win s1) (dir dj) = Some (entry_clust ?e)"
    by (rule window_fields(1) [OF l1(2) d found_window [OF assms(1) f(3-5)] l1(3)])
  have a0: "attr (dobj dj) AND AM_RDO = 0" "attr (dobj dj) AND AM_DIR = 0"
    using f(6) at kl by (simp_all add: and_attr del: nth_dentry)
  have ck: "f_unlink_check s1 a dj = Some (FR_OK, entry_clust ?e, s1)"
    using cl a0 by (simp add: f_unlink_check_def)
  have ns: "ldb (fn dj) NSFLAG = Some NS_LAST" using f(2) assms(5,6) by (simp add: ldb_def nth_append)
  have "at_ent s1 dj k" using f(3,4) at_ent_rootstep by simp
  with r1 obtain s2 where m: "dir_remove s1 dj = Some (FR_OK, s2)" "rootput s1 k ((dentry s1 k)[0 := DDEM]) s2"
    using dir_remove_root [of s1 dj k] by (auto simp: wp_def)
  have e1: "dentry s1 k = ?e" using f(3) kl by (simp add: rootstep_def)
  have p: "rootput s k (?e[0 := DDEM]) s2" using rootput_from [OF assms(1) f(3)] m(2) e1 by simp
  have st: "same_table s s2" "root_ok s2" "ddata s s2" using p by (simp_all add: rootput_def)
  then have l2: "lay s2" by (simp add: root_ok_def)
  have fc2: "file_chain s2 (entry_clust ?e) cs"
    using fc file_chain_keep [OF st(1)] by simp
  obtain s3 where rc: "(if entry_clust ?e \<noteq> 0 then remove_chain s2 (entry_clust ?e) 0 else Some (FR_OK, s2)) = Some (FR_OK, s3)"
    "frees s2 cs s3" "dstep s2 s3"
  proof (cases "entry_clust ?e = 0")
    case True
    then have "cs = []" using fc by (simp add: file_chain_def)
    then show thesis using that [of s2] True st frees_nil [of s2 s2] dstep_refl [OF l2] layD(1) [OF l2] by (simp add: same_table_def)
  next
    case False
    then have "chain (fat_entry s2) (n_fatent s2) (entry_clust ?e) cs" using fc2 by (simp add: file_chain_def)
    then show thesis using that False remove_chain_lay [OF l2] by (auto simp: wp_def)
  qed
  note r3 = dstep_root [OF st(2) rc(3)]
  have "wp (sync_fs s3) (\<lambda>(r, s'). r = FR_OK \<and> root_ok s' \<and>
     root_dir s' = (root_dir s)[k := ?e[0 := DDEM]] \<and> frees s cs s' \<and> ddata s s')"
  proof (rule sync_fs_root [OF r3(1)], goal_cases)
    case (1 s4)
    note r4 = dstep_root [OF r3(1) 1(1)]
    have "frees s cs s4" by (rule frees_then [OF frees_table [OF st(1) rc(2)] 1(2)])
    moreover have "ddata s s4"
      using ddata_trans [OF st(3) ddata_trans [OF dstep_ddata [OF l2 rc(3)] dstep_ddata [OF dstep_lay [OF rc(3)] 1(1)]]] .
    ultimately show ?case using r4 r3 rootput_dir [OF p] by simp
  qed
  then show ?thesis
    using f(1) ns a0 ck m(1) rc(1) by (simp add: f_unlink_vol_def split: if_splits)
qed

section \<open>Creating and opening\<close>

lemma rootput_any:
  assumes "root_ok s" "at_ent s dp k" "winsect s = dsect s k" "length w = 512"
    and "\<And>x. x < 512 \<Longrightarrow> \<not> (dir dp \<le> x \<and> x < dir dp + 32) \<Longrightarrow> w ! x = win s ! x"
  shows "rootput s k (take 32 (drop (dir dp) w)) (s\<lparr>win := w, wflag := 1\<rparr>)"
proof -
  have d: "dir dp + 32 \<le> 512" using assms(2) mod_less_divisor [of 16 k] by (simp add: at_ent_def)
  have lw: "length (win s) = 512" using assms(1) layD(2) [of s] by (simp add: root_ok_def)
  let ?e = "take 32 (drop (dir dp) w)"
  have "w = take (dir dp) (win s) @ ?e @ drop (dir dp + 32) (win s)"
  proof (rule nth_equalityI)
    fix x assume "x < length w"
    then show "w ! x = (take (dir dp) (win s) @ ?e @ drop (dir dp + 32) (win s)) ! x"
      using nth_splice [of "dir dp" ?e "win s" x] assms(4,5) d lw by (auto simp: less_diff_conv2)
  qed (use d lw assms(4) in simp)
  moreover have "rootput s k ?e (s\<lparr>win := take (dir dp) (win s) @ ?e @ drop (dir dp + 32) (win s), wflag := 1\<rparr>)"
    using assms(2-4) d by (intro rootput_at [OF assms(1) rootstep_refl [OF assms(1)]]) simp_all
  ultimately show ?thesis by simp
qed

lemma rootput_trans:
  assumes "rootput s k e s1" "rootput s1 k e' s2"
  shows "rootput s k e' s2"
proof -
  have "n_rootdir s1 = n_rootdir s" using assms(1) by (auto simp: rootput_def ddata_def goodD)
  then show ?thesis
    using assms ddata_trans [of s s1 s2] same_table_trans [of s s1 s2] by (auto simp: rootput_def)
qed

text \<open>The reset of the entry of a file: the name is kept, the rest is that of an empty file.\<close>

lemma st_dword_eq:
  "p + 3 < length b \<Longrightarrow> st_dword b p v =
     Some (b[p := ucast v, p + 1 := ucast (drop_bit 8 v), p + 2 := ucast (drop_bit 16 v), p + 3 := ucast (drop_bit 24 v)])"
  by (simp add: st_dword_def stb_def Let_def)

lemma st_word_eq:
  "p + 1 < length b \<Longrightarrow> st_word b p v = Some (b[p := ucast v, p + 1 := ucast (drop_bit 8 v)])"
  by (simp add: st_word_def stb_def Let_def)

definition blank_entry :: "buffer \<Rightarrow> buffer \<Rightarrow> bool" where
  "blank_entry e e' \<longleftrightarrow> take 11 e' = take 11 e \<and> e' ! 11 = AM_ARC \<and> entry_clust e' = 0 \<and> entry_size e' = 0"

lemma f_open_trunc_reset:
  assumes "root_ok s" "at_ent s dj k" "winsect s = dsect s k" and "cl = entry_clust (dentry s k)"
  shows "\<exists>e s1. rootput s k e s1 \<and> winsect s1 = dsect s k \<and> blank_entry (dentry s k) e \<and>
     f_open_trunc s dj = (if cl \<noteq> 0 then do {
         (res, s2) \<leftarrow> remove_chain s1 cl 0;
         if res = FR_OK then do {
           (res, s3) \<leftarrow> move_window s2 (dsect s k);
           Some (res, s3\<lparr>last_clst := cl - 1\<rparr>)
         } else Some (res, s2)
       } else Some (FR_OK, s1))"
proof -
  have l: "lay s" "fs_type s \<noteq> FS_FAT32" using assms(1) by (simp_all add: root_ok_def)
  have lw: "length (win s) = 512" using layD(2) [OF l(1)] by simp
  have d: "dir dj + 32 \<le> 512" "dir dj = k mod 16 * 32" using assms(2) mod_less_divisor [of 16 k] by (simp_all add: at_ent_def)
  let ?d = "dir dj" and ?t = GET_FATTIME
  define b where "b = (win s)[?d + 14 := ucast ?t, ?d + 15 := ucast (drop_bit 8 ?t), ?d + 16 := ucast (drop_bit 16 ?t),
      ?d + 17 := ucast (drop_bit 24 ?t), ?d + 22 := ucast ?t, ?d + 23 := ucast (drop_bit 8 ?t), ?d + 24 := ucast (drop_bit 16 ?t),
      ?d + 25 := ucast (drop_bit 24 ?t)]"
  define w where "w = b[?d + 11 := AM_ARC, ?d + 26 := 0, ?d + 27 := 0, ?d + 28 := 0, ?d + 29 := 0, ?d + 30 := 0, ?d + 31 := 0]"
  have lb: "length b = 512" by (simp add: b_def lw)
  have wx: "w ! (?d + j) = (if j = 11 then AM_ARC else if 26 \<le> j \<and> j < 32 then 0 else b ! (?d + j))" if "j < 32" for j
    using that d lb by (auto simp: w_def nth_list_update)
  have bx: "b ! (?d + j) = win s ! (?d + j)" if "j < 11 \<or> j = 26 \<or> j = 27" for j
    using that by (auto simp: b_def)
  have ent: "dentry s k ! j = win s ! (?d + j)" if "j < 32" for j using that assms(3) d(2) by (simp add: vbyte_def)
  have cl: "ld_clust s b ?d = Some cl"
    using l(2) d(1) lb bx [of 26] bx [of 27] ent [of 26] ent [of 27] assms(4)
    by (simp add: ld_clust_def ld_word_def ldb_def entry_clust_def add.assoc add.commute del: nth_dentry)
  let ?s = "s\<lparr>win := w, wflag := 1\<rparr>"
  have tr: "f_open_trunc s dj = (if cl \<noteq> 0 then do {
         (res, s2) \<leftarrow> remove_chain ?s cl 0;
         if res = FR_OK then do {
           (res, s3) \<leftarrow> move_window s2 (dsect s k);
           Some (res, s3\<lparr>last_clst := cl - 1\<rparr>)
         } else Some (res, s2)
       } else Some (FR_OK, ?s))"
  proof -
    have "st_dword (win s) (?d + 14) ?t \<bind> (\<lambda>b. st_dword b (?d + 22) ?t) = Some b"
      using d(1) lw by (simp add: st_dword_eq b_def add.assoc add.commute)
    then show ?thesis
      using cl l(2) d(1) lb lw assms(3)
      by (simp add: f_open_trunc_def st_clust_def stb_def st_word_eq st_dword_eq w_def b_def Let_def add.assoc add.commute)
  qed
  let ?e = "take 32 (drop ?d w)"
  have ex: "?e ! j = w ! (?d + j)" if "j < 32" for j using that d lb by (simp add: w_def)
  have "rootput s k ?e (s\<lparr>win := w, wflag := 1\<rparr>)"
    by (rule rootput_any [OF assms(1-3)]) (auto simp: w_def b_def lw)
  moreover have "take 11 ?e = take 11 (dentry s k)"
  proof (rule nth_equalityI)
    fix j assume "j < length (take 11 ?e)"
    then show "take 11 ?e ! j = take 11 (dentry s k) ! j" using ex [of j] wx [of j] bx [of j] ent [of j] by (simp del: nth_dentry)
  qed (use d lb in \<open>simp add: w_def\<close>)
  moreover have "?e ! 11 = AM_ARC" "entry_clust ?e = 0" "entry_size ?e = 0"
    using ex wx by (simp_all add: entry_clust_def entry_size_def)
  ultimately show ?thesis using tr assms(3) by (intro exI [of _ ?e] exI [of _ ?s]) (simp add: blank_entry_def)
qed

end
