(* ===== verification/FF_OpenSpec.thy ===== *)
theory FF_OpenSpec
  imports FF_EntrySpec
begin

text \<open>
  \<open>f_open\<close> on the names of the root directory: creating a file, opening one that is there, and opening it with its
  contents discarded, as changes of the list of entries and of the FAT.
\<close>

section \<open>The file object\<close>

text \<open>The object of a file, from its entry in the window.\<close>

definition opened :: "vol \<Rightarrow> nat \<Rightarrow> nat \<Rightarrow> buffer \<Rightarrow> BYTE \<Rightarrow> FIL \<Rightarrow> bool" where
  "opened s a k e flag fp \<longleftrightarrow> sclust (fobj fp) = entry_clust e \<and> objsize (fobj fp) = entry_size e \<and>
     ofs_ptr (fobj fp) = Some a \<and> oid (fobj fp) = fs_id s \<and> fflag fp = flag \<and> ferr fp = FR_OK \<and> fptr fp = 0 \<and>
     dir_sect fp = dsect s k \<and> dir_ptr fp = k mod 16 * 32"

lemma f_open_finish_start:
  assumes "root_ok s" "at_ent s dj k" "winsect s = dsect s k" "mode AND FA_SEEKEND = 0 \<or> entry_size (dentry s k) = 0"
  shows "\<exists>fp'. f_open_finish s a dj mode fp = Some (FR_OK, fp', s) \<and>
     opened s a k (dentry s k) (if mode AND FA_CREATE_ALWAYS \<noteq> 0 then mode OR FA_MODIFIED else mode) fp'"
proof -
  have l: "lay s" "fs_type s \<noteq> FS_FAT32" using assms(1) by (simp_all add: root_ok_def)
  have lw: "length (win s) = 512" using layD(2) [OF l(1)] by simp
  have k: "k < unat (n_rootdir s)" "dir dj + 32 \<le> 512" "dir dj = k mod 16 * 32"
    using assms(2) mod_less_divisor [of 16 k] by (simp_all add: at_ent_def)
  have "take 32 (drop (dir dj) (win s)) = dentry s k"
    using found_window [OF assms(1) rootstep_refl [OF assms(1)] assms(2,3)] k(1) by simp
  note w = window_fields [OF lw k(2) this l(2)]
  have sk: "(m OR FA_MODIFIED) AND FA_SEEKEND = m AND FA_SEEKEND" for m :: BYTE by (simp add: bit.conj_disj_distrib2)
  show ?thesis
    using w assms(3,4) k(3) by (auto simp: f_open_finish_def opened_def sk)
qed

lemma or_and_new: "(mode OR FA_CREATE_ALWAYS) AND FA_CREATE_ALWAYS \<noteq> 0" for mode :: BYTE
proof -
  have "bit ((mode OR FA_CREATE_ALWAYS) AND FA_CREATE_ALWAYS) 3" by (simp add: bit_simps)
  then show ?thesis by (metis bit_0_eq bot_apply bot_bool_def)
qed

text \<open>The entries of the table after the clusters of a file were freed.\<close>

definition clears :: "vol \<Rightarrow> DWORD list \<Rightarrow> vol \<Rightarrow> bool" where
  "clears s cs s' \<longleftrightarrow> fat_inv s' \<and> geo s' = geo s \<and> (free_ok s \<longrightarrow> free_ok s') \<and>
     (\<forall>d < n_fatent s. fat_entry s' d = (if d \<in> set cs then 0 else fat_entry s d))"

lemma frees_clears: "frees s cs s' \<Longrightarrow> clears s cs s'"
  by (simp add: frees_def clears_def)

lemma clears_table:
  assumes "same_table s s1" "clears s1 cs s2"
  shows "clears s cs s2"
proof -
  have n: "n_fatent s1 = n_fatent s" using assms(1) by (rule same_table_n)
  have e: "fat_entry s2 d = (if d \<in> set cs then 0 else fat_entry s d)" if "d < n_fatent s" for d
    using assms that n by (auto simp: clears_def same_table_def)
  show ?thesis
    unfolding clears_def using assms e same_table_free_ok [OF assms(1)] by (auto simp: clears_def same_table_def fat_rest_def)
qed

lemma last_clst_upd [simp]:
  "clears s cs (s'\<lparr>last_clst := c\<rparr>) = clears s cs s'" "ddata s (s'\<lparr>last_clst := c\<rparr>) = ddata s s'"
  "root_ok (s'\<lparr>last_clst := c\<rparr>) = root_ok s'" "root_dir (s'\<lparr>last_clst := c\<rparr>) = root_dir s'"
proof -
  let ?s = "s'\<lparr>last_clst := c\<rparr>"
  have g: "geo ?s = geo s'" "vbyte ?s = vbyte s'" by (simp_all add: geo_def vbyte_def fun_eq_iff)
  have "fat_byte ?s = fat_byte s'" by (rule ext) (simp add: fat_byte_def g)
  then have e: "fat_entry ?s = fat_entry s'" by (intro ext) (simp add: fat_entry_def)
  have i: "fat_inv ?s = fat_inv s'" by (simp add: fat_inv_def vok_def coh_def gok_def mirror_ok_def fat_on_disk_def wr_def)
  then have l: "lay ?s = lay s'" by (simp add: lay_def)
  show "clears s cs ?s = clears s cs s'" by (simp add: clears_def i g e free_ok_def free_set_def)
  show "ddata s ?s = ddata s s'" by (simp add: ddata_def l good_def vok_def coh_def g)
  show "root_ok ?s = root_ok s'" by (simp add: root_ok_def l)
  show "root_dir ?s = root_dir s'" by (simp add: root_dir_def dentry_def dsect_def g)
qed

lemma f_open_trunc_root:
  assumes "root_ok s" "at_ent s dj k" "winsect s = dsect s k" "file_chain s (entry_clust (dentry s k)) cs"
  shows "\<exists>e s'. f_open_trunc s dj = Some (FR_OK, s') \<and> blank_entry (dentry s k) e \<and> root_ok s' \<and> ddata s s' \<and>
     clears s cs s' \<and> root_dir s' = (root_dir s)[k := e] \<and> winsect s' = dsect s k"
proof -
  let ?cl = "entry_clust (dentry s k)"
  obtain e s1 where r: "rootput s k e s1" "winsect s1 = dsect s k" "blank_entry (dentry s k) e"
    and tr: "f_open_trunc s dj = (if ?cl \<noteq> 0 then do {
         (res, s2) \<leftarrow> remove_chain s1 ?cl 0;
         if res = FR_OK then do {
           (res, s3) \<leftarrow> move_window s2 (dsect s k);
           Some (res, s3\<lparr>last_clst := ?cl - 1\<rparr>)
         } else Some (res, s2)
       } else Some (FR_OK, s1))"
    using f_open_trunc_reset [OF assms(1-3) refl] by blast
  have st: "same_table s s1" "root_ok s1" "ddata s s1" using r(1) by (simp_all add: rootput_def)
  then have l: "lay s1" by (simp add: root_ok_def)
  have k: "k < unat (n_rootdir s1)" "dsect s1 k = dsect s k"
    using assms(2) st(3) dsect_good [of s s1 k] by (auto simp: at_ent_def ddata_def goodD)
  note d1 = rootput_dir [OF r(1)]
  have fc: "file_chain s1 ?cl cs" using assms(4) file_chain_keep [OF st(1)] by simp
  show ?thesis
  proof (cases "?cl = 0")
    case True
    then have "cs = []" using fc by (simp add: file_chain_def)
    then have "clears s cs s1" using frees_nil [OF st(1)] frees_clears by simp
    then show ?thesis using True tr r(2,3) st d1 by auto
  next
    case False
    then have "chain (fat_entry s1) (n_fatent s1) ?cl cs" using fc by (simp add: file_chain_def)
    then obtain s2 where rc: "remove_chain s1 ?cl 0 = Some (FR_OK, s2)" "frees s1 cs s2" "dstep s1 s2"
      using remove_chain_lay [OF l] by (auto simp: wp_def)
    note r2 = dstep_root [OF st(2) rc(3)]
    have k2: "k < unat (n_rootdir s2)" "dsect s2 k = dsect s k" using k r2(3,4) by simp_all
    have "wp (move_window s2 (dsect s2 k)) (\<lambda>(r, s3). r = FR_OK \<and> rootstep s2 s3 \<and> winsect s3 = dsect s2 k)"
      by (rule move_window_root [OF r2(1) k2(1)]) simp
    then obtain s3 where m: "move_window s2 (dsect s k) = Some (FR_OK, s3)" "rootstep s2 s3" "winsect s3 = dsect s k"
      using k2(2) by (auto simp: wp_def)
    note r3 = rootstep_root [OF m(2) r2(1)]
    have "ddata s s3"
      using ddata_trans [OF st(3) ddata_trans [OF dstep_ddata [OF l rc(3)] dstep_ddata [of s2 s3]]] r2(1) m(2)
      by (simp add: rootstep_def root_ok_def)
    moreover have "clears s cs s3"
      using frees_then [OF frees_table [OF st(1) rc(2)], of "fsi_flag s2" s3] m(2) frees_clears by (simp add: rootstep_def)
    ultimately show ?thesis
      using False tr rc(1) m(1,3) r(3) r2(2) r3 d1 
      by (intro exI [of _ e] exI [of _ "s3\<lparr>last_clst := ?cl - 1\<rparr>"]) simp
  qed
qed

lemma f_open_vol_creates:
  assumes "root_ok s" "list_all name_char body" "list_all name_char ext" "body \<noteq> []" "length body \<le> 8" "length ext \<le> 3"
    and none: "lookup (sfn_of body ext) (root_dir s) = None" and mode: "mode AND FA_NEW \<noteq> 0"
  shows "wp (f_open_vol sc s a fp (0x2F # name_str body ext @ [0]) mode) (\<lambda>(r, fp', s'). same_table s s' \<and>
     (case first_free (root_dir s) of
        None \<Rightarrow> r = FR_DENIED \<and> root_ok s' \<and> root_dir s' = root_dir s
      | Some k \<Rightarrow> r = FR_OK \<and> (\<exists>e. rootput s k e s' \<and> blank_entry (sfn_of body ext) e \<and>
          opened s a k e (mode OR FA_CREATE_ALWAYS OR FA_MODIFIED) fp')))"
proof -
  obtain dj s1 where f: "follow_path sc s (blank_DIR a) (0x2F # name_str body ext @ [0]) = Some (FR_NO_FILE, dj, s1)"
    "fn dj = sfn_of body ext @ [NS_LAST]" "rootstep s s1" "sclust (dobj dj) = 0"
    using follow_path_root [OF assms(1-6), of "blank_DIR a" sc] none by (auto simp: wp_def dfound_def)
  note r1 = rootstep_root [OF f(3) assms(1)]
  have ns: "ldb (fn dj) NSFLAG = Some NS_LAST" "length (fn dj) = 12" "take 11 (fn dj) = sfn_of body ext"
    using f(2) assms(5,6) by (simp_all add: ldb_def nth_append)
  obtain r dk s2 where g: "dir_register s1 dj = Some (r, dk, s2)"
    "case first_free (root_dir s) of None \<Rightarrow> r = FR_DENIED \<and> rootstep s1 s2
      | Some k \<Rightarrow> r = FR_OK \<and> at_ent s1 dk k \<and> winsect s2 = dsect s1 k \<and> rootput s1 k (sfn_of body ext @ replicate 21 0) s2"
    using dir_register_root [of s1 dj, unfolded ns(3)] r1 f(4) ns(2) by (auto simp: wp_def)
  show ?thesis
  proof (cases "first_free (root_dir s)")
    case None
    then have "rootstep s s2" "r = FR_DENIED" using g(2) rootstep_trans [OF f(3)] by auto
    then show ?thesis
      using f(1) ns mode g(1) None rootstep_root [OF _ assms(1)]
      by (auto simp: f_open_vol_def f_open_target_def rootstep_def)
  next
    case (Some k)
    let ?e0 = "sfn_of body ext @ replicate 21 0"
    have p: "r = FR_OK" "at_ent s1 dk k" "winsect s2 = dsect s1 k" "rootput s1 k ?e0 s2" using g(2) Some by simp_all
    have p2: "rootput s k ?e0 s2" by (rule rootput_from [OF assms(1) f(3) p(4)])
    have kl: "k < unat (n_rootdir s)" using first_free_less [OF Some] by simp
    have r2: "root_ok s2" "dentry s2 k = ?e0" "good s s2" using p2 by (simp_all add: rootput_def ddata_def)
    have "good s1 s2" using p(4) by (simp add: rootput_def ddata_def)
    then have a2: "at_ent s2 dk k" "winsect s2 = dsect s2 k" using p(2,3) by (simp_all add: at_ent_def dsect_def goodD)
    have "entry_clust ?e0 = 0" using assms(5,6) by (simp add: entry_clust_def nth_append)
    then obtain e s3 where t: "f_open_trunc s2 dk = Some (FR_OK, s3)" "rootput s2 k e s3" "winsect s3 = dsect s2 k"
      "blank_entry ?e0 e"
      using f_open_trunc_reset [OF r2(1) a2 refl] r2(2) by auto
    have b: "blank_entry (sfn_of body ext) e" "entry_size e = 0" using t(4) assms(5,6) by (simp_all add: blank_entry_def)
    have p3: "rootput s k e s3" by (rule rootput_trans [OF p2 t(2)])
    have g3: "good s2 s3" using t(2) by (simp add: rootput_def ddata_def)
    have r3: "root_ok s3" "dentry s3 k = e" "good s s3" using p3 by (simp_all add: rootput_def ddata_def)
    have a3: "at_ent s3 dk k" "winsect s3 = dsect s3 k" using a2 t(3) g3 by (simp_all add: at_ent_def dsect_def goodD)
    obtain fp' where o: "f_open_finish s3 a dk (mode OR FA_CREATE_ALWAYS) fp = Some (FR_OK, fp', s3)"
      "opened s3 a k e (mode OR FA_CREATE_ALWAYS OR FA_MODIFIED) fp'"
      using f_open_finish_start [OF r3(1) a3, of "mode OR FA_CREATE_ALWAYS"] r3(2) b or_and_new [of mode] by (auto simp: or.assoc)
    have "f_open_vol sc s a fp (0x2F # name_str body ext @ [0]) mode = Some (FR_OK, fp', s3)"
      using f(1) ns(1) mode g(1) p(1) t(1) o(1) or_and_new [of mode] by (simp add: f_open_vol_def f_open_target_def)
    moreover have "opened s a k e (mode OR FA_CREATE_ALWAYS OR FA_MODIFIED) fp'"
      using o(2) r3(3) dsect_good [OF r3(3)] by (simp add: opened_def goodD)
    ultimately show ?thesis using Some p3 b(1) by (auto simp: rootput_def)
  qed
qed

text \<open>Opening what is there: the result by the entry and the mode.\<close>

definition open_result :: "BYTE \<Rightarrow> buffer \<Rightarrow> FRESULT" where
  "open_result mode e =
     (if mode AND FA_NEW \<noteq> 0 then
        if e ! 11 AND (AM_RDO OR AM_DIR) \<noteq> 0 then FR_DENIED
        else if mode AND FA_CREATE_NEW \<noteq> 0 then FR_EXIST else FR_OK
      else if e ! 11 AND AM_DIR \<noteq> 0 then FR_NO_FILE
      else if mode AND FA_WRITE \<noteq> 0 \<and> e ! 11 AND AM_RDO \<noteq> 0 then FR_DENIED else FR_OK)"

lemma f_open_found:
  assumes "root_ok s" "list_all name_char body" "list_all name_char ext" "body \<noteq> []" "length body \<le> 8" "length ext \<le> 3"
    and k: "lookup (sfn_of body ext) (root_dir s) = Some k"
  shows "\<exists>dj s1. rootstep s s1 \<and> at_ent s1 dj k \<and> winsect s1 = dsect s1 k \<and> attr (dobj dj) = root_dir s ! k ! 11 AND AM_MASK \<and>
     f_open_vol sc s a fp (0x2F # name_str body ext @ [0]) mode = do {
       (res, mode, dj, s) \<leftarrow> f_open_target s1 dj FR_OK mode;
       if res = FR_OK then f_open_finish s a dj mode fp else Some (res, fp, s) }"
proof -
  obtain dj s1 where f: "follow_path sc s (blank_DIR a) (0x2F # name_str body ext @ [0]) = Some (FR_OK, dj, s1)"
    "fn dj = sfn_of body ext @ [NS_LAST]" "rootstep s s1" "at_ent s dj k" "winsect s1 = dsect s k" "attr (dobj dj) = dentry s k ! 11 AND AM_MASK"
    using follow_path_root [OF assms(1-6), of "blank_DIR a" sc] k by (auto simp: wp_def dfound_def)
  have kl: "k < unat (n_rootdir s)" using f(4) by (simp add: at_ent_def)
  have ns: "ldb (fn dj) NSFLAG = Some NS_LAST" using f(2) assms(5,6) by (simp add: ldb_def nth_append)
  have "dsect s1 k = dsect s k" using f(3) dsect_good [of s s1 k] dstep_facts(1) by (auto simp: rootstep_def)
  then show ?thesis
    using f kl ns at_ent_rootstep [OF f(3)]
    by (intro exI [of _ dj] exI [of _ s1]) (simp add: f_open_vol_def del: nth_dentry)
qed

lemma attr_mask: "(b AND AM_MASK) AND (AM_RDO OR AM_DIR) = b AND (AM_RDO OR AM_DIR)" for b :: BYTE
  by (simp add: and.assoc)

lemma f_open_vol_existing:
  assumes "root_ok s" "list_all name_char body" "list_all name_char ext" "body \<noteq> []" "length body \<le> 8" "length ext \<le> 3"
    and k: "lookup (sfn_of body ext) (root_dir s) = Some k"
    and mode: "mode AND (FA_CREATE_ALWAYS OR FA_SEEKEND) = 0"
  shows "wp (f_open_vol sc s a fp (0x2F # name_str body ext @ [0]) mode) (\<lambda>(r, fp', s'). r = open_result mode (root_dir s ! k) \<and>
     rootstep s s' \<and> (if r = FR_OK then opened s a k (root_dir s ! k) mode fp' else fp' = fp))"
proof -
  let ?e = "root_dir s ! k"
  obtain dj s1 where f: "rootstep s s1" "at_ent s1 dj k" "winsect s1 = dsect s1 k" "attr (dobj dj) = ?e ! 11 AND AM_MASK"
    and o: "f_open_vol sc s a fp (0x2F # name_str body ext @ [0]) mode = do {
       (res, mode, dj, s) \<leftarrow> f_open_target s1 dj FR_OK mode;
       if res = FR_OK then f_open_finish s a dj mode fp else Some (res, fp, s) }"
    using f_open_found [OF assms(1-7)] by blast
  note r1 = rootstep_root [OF f(1) assms(1)]
  have g: "good s s1" using f(1) dstep_facts(1) by (auto simp: rootstep_def)
  have kl: "k < unat (n_rootdir s)" using lookup_less [OF k] by simp
  have m: "mode AND FA_CREATE_ALWAYS = 0" "mode AND FA_SEEKEND = 0"
  proof -
    have "mode AND FA_CREATE_ALWAYS = (mode AND (FA_CREATE_ALWAYS OR FA_SEEKEND)) AND FA_CREATE_ALWAYS"
      "mode AND FA_SEEKEND = (mode AND (FA_CREATE_ALWAYS OR FA_SEEKEND)) AND FA_SEEKEND" by (simp_all add: and.assoc)
    then show "mode AND FA_CREATE_ALWAYS = 0" "mode AND FA_SEEKEND = 0" unfolding mode by simp_all
  qed
  have t: "f_open_target s1 dj FR_OK mode = Some (open_result mode ?e, mode, dj, s1)"
    unfolding f_open_target_def open_result_def f(4) and_attr attr_mask using m(1) by simp
  obtain fp' where fp: "f_open_finish s1 a dj mode fp = Some (FR_OK, fp', s1)" "opened s1 a k (dentry s1 k) mode fp'"
    using f_open_finish_start [of s1 dj k mode] r1 f(2,3) m by fastforce
  have "dentry s1 k = ?e" using f(1) kl by (simp add: rootstep_def)
  then have "opened s a k ?e mode fp'" using fp(2) dsect_good [OF g] g by (simp add: opened_def goodD)
  then show ?thesis using o t fp(1) f(1) by simp
qed

lemma f_open_vol_truncates:
  assumes "root_ok s" "list_all name_char body" "list_all name_char ext" "body \<noteq> []" "length body \<le> 8" "length ext \<le> 3"
    and k: "lookup (sfn_of body ext) (root_dir s) = Some k"
    and mode: "mode AND FA_CREATE_ALWAYS \<noteq> 0" "open_result mode (root_dir s ! k) = FR_OK"
    and fc: "file_chain s (entry_clust (root_dir s ! k)) cs"
  shows "wp (f_open_vol sc s a fp (0x2F # name_str body ext @ [0]) mode) (\<lambda>(r, fp', s'). r = FR_OK \<and> root_ok s' \<and> clears s cs s' \<and>
     ddata s s' \<and> (\<exists>e. blank_entry (root_dir s ! k) e \<and> root_dir s' = (root_dir s)[k := e] \<and> opened s a k e (mode OR FA_MODIFIED) fp'))"
proof -
  let ?e = "root_dir s ! k"
  obtain dj s1 where f: "rootstep s s1" "at_ent s1 dj k" "winsect s1 = dsect s1 k" "attr (dobj dj) = ?e ! 11 AND AM_MASK"
    and o: "f_open_vol sc s a fp (0x2F # name_str body ext @ [0]) mode = do {
       (res, mode, dj, s) \<leftarrow> f_open_target s1 dj FR_OK mode;
       if res = FR_OK then f_open_finish s a dj mode fp else Some (res, fp, s) }"
    using f_open_found [OF assms(1-7)] by blast
  note r1 = rootstep_root [OF f(1) assms(1)]
  have st: "same_table s s1" "dstep s s1" "good s s1" using f(1) dstep_facts(1) by (auto simp: rootstep_def)
  have kl: "k < unat (n_rootdir s)" "dentry s1 k = ?e" using lookup_less [OF k] f(1) by (simp_all add: rootstep_def)
  have fc1: "file_chain s1 (entry_clust (dentry s1 k)) cs" using fc file_chain_keep [OF st(1)] kl(2) by simp
  obtain e s2 where t: "f_open_trunc s1 dj = Some (FR_OK, s2)" "blank_entry ?e e" "root_ok s2" "ddata s1 s2" "clears s1 cs s2"
    "root_dir s2 = (root_dir s1)[k := e]" "winsect s2 = dsect s1 k"
    using f_open_trunc_root [OF _ f(2,3) fc1] r1 kl(2) by auto
  have new: "mode AND FA_NEW \<noteq> 0"
  proof
    assume z: "mode AND FA_NEW = 0"
    have "mode AND FA_CREATE_ALWAYS = (mode AND FA_NEW) AND FA_CREATE_ALWAYS" by (simp add: and.assoc)
    then show False using mode(1) unfolding z by simp
  qed
  have tg: "f_open_target s1 dj FR_OK mode = Some (FR_OK, mode, dj, s2)"
    using mode new t(1) unfolding f_open_target_def open_result_def f(4) and_attr attr_mask by (auto split: if_splits)
  have g2: "good s1 s2" using t(4) by (simp add: ddata_def)
  have g: "good s s2" by (rule good_trans [OF st(3) g2])
  have a2: "at_ent s2 dj k" "winsect s2 = dsect s2 k" using f(2) t(7) g2 by (simp_all add: at_ent_def dsect_def goodD)
  have "root_dir s2 ! k = e" using t(6) kl(1) r1 by simp
  then have e2: "dentry s2 k = e" using kl(1) g by (simp add: goodD)
  obtain fp' where fp: "f_open_finish s2 a dj mode fp = Some (FR_OK, fp', s2)" "opened s2 a k e (mode OR FA_MODIFIED) fp'"
    using f_open_finish_start [OF t(3) a2, of mode] t(2) e2 mode(1) by (auto simp: blank_entry_def)
  have "opened s a k e (mode OR FA_MODIFIED) fp'" using fp(2) dsect_good [OF g] g by (simp add: opened_def goodD)
  moreover have "ddata s s2"
    using ddata_trans [OF dstep_ddata [OF _ st(2)] t(4)] assms(1) by (simp add: root_ok_def)
  moreover have "clears s cs s2" by (rule clears_table [OF st(1) t(5)])
  ultimately show ?thesis using o tg fp(1) t(2,3,6) r1 by auto
qed

end
