(* ===== verification/FF_RenameSpec.thy ===== *)
theory FF_RenameSpec
  imports FF_OpenSpec
begin

text \<open>
  \<open>f_rename\<close> between names of the root directory: the new entry, the removal of the old one, and the cases in which
  nothing changes.
\<close>

section \<open>The new entry\<close>

text \<open>The entry of a renamed object: the new name, the archive bit, and the rest of the old entry.\<close>

definition renamed :: "buffer \<Rightarrow> buffer \<Rightarrow> buffer" where
  "renamed nm e = nm @ [if e ! 11 AND AM_DIR = 0 then e ! 11 OR AM_ARC else e ! 11, 0] @ drop 13 e"

lemma or_arc: "(a OR AM_ARC) AND AM_DIR = a AND AM_DIR" for a :: BYTE
  by (simp add: bit.conj_disj_distrib2)

lemma f_rename_entry_root:
  assumes "root_ok s" "at_ent s djn m" "winsect s = dsect s m" "dentry s m = nm @ replicate 21 0" "length nm = 11"
    and "length buf = 32" "sclust (dobj djo) = sclust (dobj djn)"
  shows "\<exists>s'. f_rename_entry s djo djn buf = Some (FR_OK, s') \<and> rootput s m (renamed nm buf) s'"
proof -
  have lw: "length (win s) = 512" using assms(1) layD(2) [of s] by (simp add: root_ok_def)
  have d: "dir djn + 32 \<le> 512" "dir djn = m mod 16 * 32" using assms(2) mod_less_divisor [of 16 m] by (simp_all add: at_ent_def)
  let ?d = "dir djn"
  define a where "a = (if buf ! 11 AND AM_DIR = 0 then buf ! 11 OR AM_ARC else buf ! 11)"
  define b where "b = take (?d + 13) (win s) @ drop 13 buf @ drop (?d + 13 + length (drop 13 buf)) (win s)"
  define w where "w = b[?d + 11 := a]"
  have lb: "length b = 512" using lw d assms(6) by (simp add: b_def)
  have bx: "b ! x = (if ?d + 13 \<le> x \<and> x < ?d + 32 then buf ! (x - ?d) else win s ! x)" if "x < 512" for x
    using nth_splice [of "?d + 13" "drop 13 buf" "win s" x] that lw d(1) assms(6) by (auto simp: b_def)
  have f: "f_rename_entry s djo djn buf = Some (FR_OK, s\<lparr>win := w, wflag := 1\<rparr>)"
  proof -
    have "memread buf 13 (SZDIRE - 13) = Some (drop 13 buf)" "memwrite (win s) (?d + 13) (drop 13 buf) = Some b" 
      using assms(6) lw d(1) by (simp_all add: memread_def memwrite_def b_def add.assoc)
    then show ?thesis
      using assms(6,7) lb d(1) by (simp add: f_rename_entry_def ldb_def stb_def Let_def w_def a_def or_arc)
  qed
  have ent: "win s ! (?d + j) = (nm @ replicate 21 0) ! j" if "j < 32" for j
    using that assms(3) d(2) unfolding assms(4) [symmetric] by (simp add: vbyte_def)
  have "take 32 (drop ?d w) = renamed nm buf"
  proof (rule nth_equalityI)
    show "length (take 32 (drop ?d w)) = length (renamed nm buf)" using lb d(1) assms(5,6) by (simp add: w_def renamed_def)
    fix j assume "j < length (take 32 (drop ?d w))"
    then have j: "j < 32" by simp
    then have "take 32 (drop ?d w) ! j = (if j = 11 then a else if 13 \<le> j then buf ! j else (nm @ replicate 21 0) ! j)"
      using lb d(1) bx [of "?d + j"] ent [of j] by (simp add: w_def)
    also have "\<dots> = renamed nm buf ! j"
      using j assms(5,6) by (auto simp: renamed_def a_def nth_append nth_Cons' le_less_Suc_eq less_Suc_eq_le)
    finally show "take 32 (drop ?d w) ! j = renamed nm buf ! j" .
  qed
  moreover have "rootput s m (take 32 (drop ?d w)) (s\<lparr>win := w, wflag := 1\<rparr>)"
    by (rule rootput_any [OF assms(1-3)]) (use lb bx in \<open>auto simp: w_def nth_list_update\<close>)
  ultimately show ?thesis using f by simp
qed

lemma sfn_first:
  assumes "list_all name_char body" "body \<noteq> []"
  shows "sfn_of body ext ! 0 \<noteq> 0" "sfn_of body ext ! 0 \<noteq> DDEM"
proof -
  obtain c b where b: "body = c # b" using assms(2) by (cases body) auto
  have c: "32 < unat c" "unat c < 128" using assms(1) b by (simp_all add: name_char_def word_less_nat_alt)
  then have "unat (to_upper c) \<noteq> 0 \<and> unat (to_upper c) < 128"
    by (auto simp: to_upper_def IsLower_def word_le_nat_alt unat_sub)
  then show "sfn_of body ext ! 0 \<noteq> 0" "sfn_of body ext ! 0 \<noteq> DDEM" using b by (auto simp: sfn_of_def)
qed

lemma lookup_name: "lookup nm es = Some k \<Longrightarrow> take 11 (es ! k) = nm"
  by (induction es arbitrary: k) (auto split: if_splits)

lemma first_free_mark: "first_free es = Some m \<Longrightarrow> es ! m ! 0 = DDEM \<or> es ! m ! 0 = 0"
  by (induction es arbitrary: m) (auto split: if_splits)

lemma lookup_not_free:
  assumes "lookup nm es = Some k" "first_free es = Some m" "nm ! 0 \<noteq> 0" "nm ! 0 \<noteq> DDEM"
  shows "m \<noteq> k"
proof
  assume "m = k"
  then have "es ! k ! 0 = DDEM \<or> es ! k ! 0 = 0" using first_free_mark [OF assms(2)] by simp
  moreover have "es ! k ! 0 = nm ! 0" using lookup_name [OF assms(1)] by (metis nth_take zero_less_numeral)
  ultimately show False using assms(3,4) by simp
qed

lemma at_ent_ptr:
  assumes "at_ent s dp k" "at_ent s dp' j"
  shows "dptr dp' = dptr dp \<longleftrightarrow> j = k"
proof
  assume "dptr dp' = dptr dp"
  then have "unat (of_nat (32 * j) :: DWORD) = unat (of_nat (32 * k) :: DWORD)" using assms by (simp add: at_ent_def)
  then show "j = k" using root_ofs(1) [of j s] root_ofs(1) [of k s] assms by (simp add: at_ent_def)
qed (use assms in \<open>simp add: at_ent_def\<close>)

text \<open>The result of a renaming and the new list of entries.\<close>

definition rename_spec :: "buffer \<Rightarrow> nat \<Rightarrow> buffer list \<Rightarrow> FRESULT \<times> buffer list" where
  "rename_spec nm k es =
     (if lookup nm es \<noteq> None \<and> lookup nm es \<noteq> Some k then (FR_EXIST, es)
      else case first_free es of
        None \<Rightarrow> (FR_DENIED, es)
      | Some m \<Rightarrow> (FR_OK, es[m := renamed nm (es ! k), k := (es ! k)[0 := DDEM]]))"

lemma rename_tail:
  assumes "root_ok s" "at_ent s djo k" "dentry s k = e" "length e = 32" "e ! 0 \<noteq> 0" "e ! 0 \<noteq> DDEM"
    and "sclust (dobj djo) = 0" "sclust (dobj djn) = 0" "length (fn djn) = 12" "take 11 (fn djn) = nm"
  shows "wp (do {
       (res, s) \<leftarrow> (do { (res, djn, s) \<leftarrow> dir_register s djn;
            if res = FR_OK then f_rename_entry s djo djn e else Some (res, s) });
       if res = FR_OK then do {
         (res, s) \<leftarrow> dir_remove s djo;
         if res = FR_OK then sync_fs s else Some (res, s)
       } else Some (res, s) })
     (\<lambda>(r, s'). root_ok s' \<and> ddata s s' \<and> frees s [] s' \<and> (r, root_dir s') =
        (case first_free (root_dir s) of None \<Rightarrow> (FR_DENIED, root_dir s)
         | Some m \<Rightarrow> (FR_OK, (root_dir s)[m := renamed nm e, k := e[0 := DDEM]])))"
proof -
  have l: "lay s" using assms(1) by (simp add: root_ok_def)
  obtain r dk s2 where g: "dir_register s djn = Some (r, dk, s2)" "sclust (dobj dk) = 0"
    "case first_free (root_dir s) of None \<Rightarrow> r = FR_DENIED \<and> rootstep s s2
      | Some m \<Rightarrow> r = FR_OK \<and> at_ent s dk m \<and> winsect s2 = dsect s m \<and> rootput s m (nm @ replicate 21 0) s2"
    using dir_register_root [of s djn, unfolded assms(10)] assms by (auto simp: wp_def)
  show ?thesis
  proof (cases "first_free (root_dir s)")
    case None
    then have "rootstep s s2" "r = FR_DENIED" using g(3) by simp_all
    then show ?thesis
      using None g(1) rootstep_root [OF _ assms(1)] dstep_ddata [OF l] frees_nil by (auto simp: rootstep_def)
  next
    case (Some m)
    have p: "r = FR_OK" "at_ent s dk m" "winsect s2 = dsect s m" "rootput s m (nm @ replicate 21 0) s2" using g(3) Some by simp_all
    have kl: "k < unat (n_rootdir s)" using assms(2) by (simp add: at_ent_def)
    have mk: "m \<noteq> k" using first_free_mark [OF Some] kl assms(3,5,6) by (auto simp del: nth_dentry)
    have r2: "root_ok s2" "dentry s2 m = nm @ replicate 21 0" "good s s2" using p(4) by (simp_all add: rootput_def ddata_def)
    have a2: "at_ent s2 dk m" "winsect s2 = dsect s2 m" "at_ent s2 djo k"
      using p(2,3) r2(3) assms(2) by (simp_all add: at_ent_def dsect_def goodD)
    obtain s3 where f: "f_rename_entry s2 djo dk e = Some (FR_OK, s3)" "rootput s2 m (renamed nm e) s3"
      using f_rename_entry_root [OF r2(1) a2(1,2) r2(2) _ assms(4)] assms(7,9,10) g(2) by fastforce
    have p3: "rootput s m (renamed nm e) s3" by (rule rootput_trans [OF p(4) f(2)])
    have r3: "root_ok s3" "good s s3" "dentry s3 k = e" using p3 kl mk assms(3) by (auto simp: rootput_def ddata_def)
    have a3: "at_ent s3 djo k" using r3(2) assms(2) by (simp add: at_ent_def dsect_def goodD)
    then obtain s4 where m4: "dir_remove s3 djo = Some (FR_OK, s4)" "rootput s3 k (e[0 := DDEM]) s4"
      using dir_remove_root [OF r3(1)] r3(3) by (auto simp: wp_def)
    have d4: "root_dir s4 = (root_dir s)[m := renamed nm e, k := e[0 := DDEM]]"
      using rootput_dir [OF m4(2)] rootput_dir [OF p3] by simp
    have st: "same_table s s4" "ddata s s4" "root_ok s4"
      using p3 m4(2) same_table_trans [of s s3 s4] ddata_trans [of s s3 s4] by (simp_all add: rootput_def)
    have "wp (sync_fs s4) (\<lambda>(r, s'). root_ok s' \<and> ddata s s' \<and> frees s [] s' \<and> r = FR_OK \<and>
       root_dir s' = (root_dir s)[m := renamed nm e, k := e[0 := DDEM]])"
    proof (rule sync_fs_root [OF st(3)], goal_cases)
      case (1 s5)
      note r5 = dstep_root [OF st(3) 1(1)]
      have "frees s [] s5" by (rule frees_then [OF frees_nil [OF st(1)] 1(2)])
      moreover have "ddata s s5" using ddata_trans [OF st(2) dstep_ddata [OF _ 1(1)]] st(3) by (simp add: root_ok_def)
      ultimately show ?case using r5 d4 by simp
    qed
    then show ?thesis using g(1) p(1) f(1) m4(1) Some by (simp add: wp_def)
  qed
qed

text \<open>Both paths followed: the objects of the two names, and the result code with which the rest of the function starts.\<close>

lemma f_rename_paths:
  assumes "root_ok s" "list_all name_char body" "list_all name_char ext" "body \<noteq> []" "length body \<le> 8" "length ext \<le> 3"
    and n: "list_all name_char body'" "list_all name_char ext'" "body' \<noteq> []" "length body' \<le> 8" "length ext' \<le> 3"
    and k: "lookup (sfn_of body ext) (root_dir s) = Some k"
    and e: "e = root_dir s ! k"
  shows "\<exists>x djo djn s2. rootstep s s2 \<and> at_ent s2 djo k \<and> sclust (dobj djo) = 0 \<and> sclust (dobj djn) = 0 \<and> fn djn = sfn_of body' ext' @ [NS_LAST] \<and>
     x = (if lookup (sfn_of body' ext') (root_dir s) \<noteq> None \<and> lookup (sfn_of body' ext') (root_dir s) \<noteq> Some k then FR_EXIST else FR_NO_FILE) \<and>
     f_rename_vol sc s a (0x2F # name_str body ext @ [0]) (Some (0x2F # name_str body' ext' @ [0])) = (do {
       (res, s) \<leftarrow> (if x = FR_NO_FILE then do { (res, djn, s) \<leftarrow> dir_register s2 djn;
            if res = FR_OK then f_rename_entry s djo djn e else Some (res, s) } else Some (x, s2));
       if res = FR_OK then do {
         (res, s) \<leftarrow> dir_remove s djo;
         if res = FR_OK then sync_fs s else Some (res, s)
       } else Some (res, s) })"
proof -
  let ?e = "root_dir s ! k" and ?nm = "sfn_of body' ext'"
  obtain djo s1 where f: "follow_path sc s (blank_DIR a) (0x2F # name_str body ext @ [0]) = Some (FR_OK, djo, s1)"
    "fn djo = sfn_of body ext @ [NS_LAST]" "sclust (dobj djo) = 0" "rootstep s s1" "at_ent s djo k" "winsect s1 = dsect s k"
    using follow_path_root [OF assms(1-6), of "blank_DIR a" sc] k by (auto simp: wp_def dfound_def)
  note r1 = rootstep_root [OF f(4) assms(1)]
  have kl: "k < unat (n_rootdir s)" "dir djo + 32 \<le> 512" using f(5) mod_less_divisor [of 16 k] by (simp_all add: at_ent_def)
  have lw: "length (win s1) = 512" using r1 layD(2) [of s1] by (simp add: root_ok_def)
  have ns: "ldb (fn djo) NSFLAG = Some NS_LAST" "length (fn djo) = 12" using f(2) assms(5,6) by (simp_all add: ldb_def nth_append)
  have buf: "memread (win s1) (dir djo) SZDIRE = Some ?e"
    using found_window [OF assms(1) f(4-6)] lw kl(2) by (simp add: memread_def)
  obtain r djn s2 where g: "follow_path sc s1 djo (0x2F # name_str body' ext' @ [0]) = Some (r, djn, s2)"
    "fn djn = ?nm @ [NS_LAST]" "sclust (dobj djn) = 0" "rootstep s1 s2"
    "case lookup ?nm (root_dir s) of None \<Rightarrow> r = FR_NO_FILE | Some j \<Rightarrow> r = FR_OK \<and> at_ent s1 djn j"
    using follow_path_root [OF _ n, of s1 djo sc] r1 ns(2) by (auto simp: wp_def dfound_def split: option.splits)
  note st = rootstep_trans [OF f(4) g(4)]
  note r2 = rootstep_root [OF st assms(1)]
  define x where "x = (if r = FR_OK then if sclust (dobj djn) = sclust (dobj djo) \<and> dptr djn = dptr djo then FR_NO_FILE else FR_EXIST else r)"
  have x: "x = (if lookup ?nm (root_dir s) \<noteq> None \<and> lookup ?nm (root_dir s) \<noteq> Some k then FR_EXIST else FR_NO_FILE)"
    using g(3,5) f(3) at_ent_ptr [of s djo k djn] f(5) at_ent_rootstep [OF f(4)] by (auto simp: x_def split: option.splits)
  have a2: "at_ent s2 djo k" using f(5) at_ent_rootstep [OF st] by simp
  have "f_rename_vol sc s a (0x2F # name_str body ext @ [0]) (Some (0x2F # name_str body' ext' @ [0])) = (do {
       (res, s) \<leftarrow> (if x = FR_NO_FILE then do { (res, djn, s) \<leftarrow> dir_register s2 djn;
            if res = FR_OK then f_rename_entry s djo djn ?e else Some (res, s) } else Some (x, s2));
       if res = FR_OK then do {
         (res, s) \<leftarrow> dir_remove s djo;
         if res = FR_OK then sync_fs s else Some (res, s)
       } else Some (res, s) })"
    using f(1) ns(1) buf g(1) by (simp add: f_rename_vol_def x_def [symmetric] Let_def)
  then show ?thesis unfolding e using st a2 f(3) g(2,3) x by blast
qed

lemma f_rename_vol_root:
  assumes "root_ok s" "list_all name_char body" "list_all name_char ext" "body \<noteq> []" "length body \<le> 8" "length ext \<le> 3"
    and n: "list_all name_char body'" "list_all name_char ext'" "body' \<noteq> []" "length body' \<le> 8" "length ext' \<le> 3"
    and k: "lookup (sfn_of body ext) (root_dir s) = Some k"
  shows "wp (f_rename_vol sc s a (0x2F # name_str body ext @ [0]) (Some (0x2F # name_str body' ext' @ [0])))
     (\<lambda>(r, s'). root_ok s' \<and> ddata s s' \<and> frees s [] s' \<and> (r, root_dir s') = rename_spec (sfn_of body' ext') k (root_dir s))"
proof -
  let ?e = "root_dir s ! k" and ?nm = "sfn_of body' ext'"
  obtain x djo djn s2 where st: "rootstep s s2" and a2: "at_ent s2 djo k" and cl: "sclust (dobj djo) = 0" "sclust (dobj djn) = 0"
    and fn: "fn djn = ?nm @ [NS_LAST]"
    and x: "x = (if lookup ?nm (root_dir s) \<noteq> None \<and> lookup ?nm (root_dir s) \<noteq> Some k then FR_EXIST else FR_NO_FILE)"
    and fin: "f_rename_vol sc s a (0x2F # name_str body ext @ [0]) (Some (0x2F # name_str body' ext' @ [0])) = (do {
       (res, s) \<leftarrow> (if x = FR_NO_FILE then do { (res, djn, s) \<leftarrow> dir_register s2 djn;
            if res = FR_OK then f_rename_entry s djo djn ?e else Some (res, s) } else Some (x, s2));
       if res = FR_OK then do {
         (res, s) \<leftarrow> dir_remove s djo;
         if res = FR_OK then sync_fs s else Some (res, s)
       } else Some (res, s) })"
    using f_rename_paths [OF assms refl, of sc a] by blast
  note r2 = rootstep_root [OF st assms(1)]
  have kl: "k < unat (n_rootdir s)" using lookup_less [OF k] by simp
  have dk: "dentry s2 k = ?e" using st kl by (simp add: rootstep_def)
  have e0: "?e ! 0 \<noteq> 0" "?e ! 0 \<noteq> DDEM" "length ?e = 32"
  proof -
    have "?e ! 0 = sfn_of body ext ! 0" using lookup_name [OF k] by (metis nth_take zero_less_numeral)
    then show "?e ! 0 \<noteq> 0" "?e ! 0 \<noteq> DDEM" using sfn_first [OF assms(2,4)] by simp_all
  qed (use kl in simp)
  have tail: "wp (do {
       (res, s) \<leftarrow> (do { (res, djn, s) \<leftarrow> dir_register s2 djn;
            if res = FR_OK then f_rename_entry s djo djn ?e else Some (res, s) });
       if res = FR_OK then do {
         (res, s) \<leftarrow> dir_remove s djo;
         if res = FR_OK then sync_fs s else Some (res, s)
       } else Some (res, s) })
     (\<lambda>(r, s'). root_ok s' \<and> ddata s s' \<and> frees s [] s' \<and> (r, root_dir s') =
        (case first_free (root_dir s) of None \<Rightarrow> (FR_DENIED, root_dir s)
         | Some m \<Rightarrow> (FR_OK, (root_dir s)[m := renamed ?nm ?e, k := ?e[0 := DDEM]])))"
  proof (rule wp_mono [OF rename_tail [of s2 djo k ?e djn ?nm]], goal_cases)
    case (11 y)
    have "ddata s s2" "same_table s s2" using st dstep_ddata [of s s2] assms(1) by (simp_all add: rootstep_def root_ok_def)
    then show ?case using 11 r2 ddata_trans [of s s2] frees_table [of s s2] by (auto split: option.splits)
  qed (use r2 a2 dk e0 cl fn n(4,5) in simp_all)
  show ?thesis
  proof (cases "x = FR_NO_FILE")
    case True
    then have "\<not> (lookup ?nm (root_dir s) \<noteq> None \<and> lookup ?nm (root_dir s) \<noteq> Some k)" using x by (auto split: if_splits)
    then have sp: "rename_spec ?nm k (root_dir s) = (case first_free (root_dir s) of None \<Rightarrow> (FR_DENIED, root_dir s)
         | Some m \<Rightarrow> (FR_OK, (root_dir s)[m := renamed ?nm ?e, k := ?e[0 := DDEM]]))"
      unfolding rename_spec_def by (rule if_not_P)
    show ?thesis unfolding fin sp using True tail by simp
  next
    case False
    then have c: "lookup ?nm (root_dir s) \<noteq> None \<and> lookup ?nm (root_dir s) \<noteq> Some k" "x = FR_EXIST" using x by (auto split: if_splits)
    then have "rename_spec ?nm k (root_dir s) = (FR_EXIST, root_dir s)" unfolding rename_spec_def by simp
    moreover have "ddata s s2" "frees s [] s2"
      using st dstep_ddata [of s s2] frees_nil [of s s2] assms(1) by (simp_all add: rootstep_def root_ok_def)
    ultimately show ?thesis unfolding fin using c(2) r2 by simp
  qed
qed

end
