(* ===== verification/FF_CloseSpec.thy ===== *)
theory FF_CloseSpec
  imports FF_OpenSpec
begin

text \<open>
  What \<open>f_sync\<close> and \<open>f_close\<close> write into the entry of a file, and that writing to a file keeps the root directory.
\<close>

section \<open>Writing back the entry\<close>

lemma rkeep_root:
  assumes "root_ok s" "lay s'" "good s s'" "rkeep s s'"
  shows "root_ok s'" "root_dir s' = root_dir s"
proof -
  show "root_ok s'" using assms(1-3) by (auto simp: root_ok_def goodD)
  have "dentry s' k = dentry s k" if k: "k < unat (n_rootdir s)" for k
  proof (rule nth_equalityI)
    fix j assume "j < length (dentry s' k)"
    then have j: "j < 32" "k mod 16 * 32 + j < 512" using mod_less_divisor [of 16 k] by auto
    have "unat (dsect s k) < unat (database s)" using dsect_facts(2,5) [OF assms(1) k] by (simp add: in_data_def)
    then show "dentry s' k ! j = dentry s k ! j"
      using j assms(4) dsect_above [OF assms(1) k] by (simp add: dsect_good [OF assms(3)] rkeep_def)
  qed simp
  then show "root_dir s' = root_dir s" using assms(3) by (simp add: root_dir_def goodD)
qed

text \<open>The entry of a file with the start cluster and the size of its object.\<close>

definition entry_synced :: "buffer \<Rightarrow> FIL \<Rightarrow> buffer \<Rightarrow> bool" where
  "entry_synced e fp e' \<longleftrightarrow> take 11 e' = take 11 e \<and> e' ! 11 = e ! 11 OR AM_ARC \<and>
     entry_clust e' = sclust (fobj fp) \<and> entry_size e' = objsize (fobj fp)"

lemma sync_entry:
  assumes "root_ok s" "at_ent s dp k" "winsect s = dsect s k" "unat (sclust (fobj fp)) < 2 ^ 16" "dir dp = p"
  shows "\<exists>b e. (do { a \<leftarrow> ldb (win s) (p + DIR_Attr);
          b \<leftarrow> stb (win s) (p + DIR_Attr) (a OR AM_ARC);
          b \<leftarrow> st_clust s b p (sclust (fobj fp));
          b \<leftarrow> st_dword b (p + DIR_FileSize) (objsize (fobj fp));
          b \<leftarrow> st_dword b (p + DIR_ModTime) tm;
          st_word b (p + DIR_LstAccDate) 0 }) = Some b \<and> rootput s k e (s\<lparr>win := b, wflag := 1\<rparr>) \<and> entry_synced (dentry s k) fp e"
proof -
  have l: "lay s" "fs_type s \<noteq> FS_FAT32" using assms(1) by (simp_all add: root_ok_def)
  have lw: "length (win s) = 512" using layD(2) [OF l(1)] by simp
  have d: "p + 32 \<le> 512" "p = k mod 16 * 32" using assms(2,5) mod_less_divisor [of 16 k] by (auto simp: at_ent_def)
  let ?c = "ucast (sclust (fobj fp)) :: WORD" and ?z = "objsize (fobj fp)"
  define w where "w = (win s)[p + 11 := win s ! (p + 11) OR AM_ARC, p + 26 := ucast ?c, p + 27 := ucast (drop_bit 8 ?c),
     p + 28 := ucast ?z, p + 29 := ucast (drop_bit 8 ?z), p + 30 := ucast (drop_bit 16 ?z), p + 31 := ucast (drop_bit 24 ?z),
     p + 22 := ucast tm, p + 23 := ucast (drop_bit 8 tm), p + 24 := ucast (drop_bit 16 tm), p + 25 := ucast (drop_bit 24 tm),
     p + 18 := 0, p + 19 := 0]"
  have ops: "(do { a \<leftarrow> ldb (win s) (p + DIR_Attr);
          b \<leftarrow> stb (win s) (p + DIR_Attr) (a OR AM_ARC);
          b \<leftarrow> st_clust s b p (sclust (fobj fp));
          b \<leftarrow> st_dword b (p + DIR_FileSize) (objsize (fobj fp));
          b \<leftarrow> st_dword b (p + DIR_ModTime) tm;
          st_word b (p + DIR_LstAccDate) 0 }) = Some w"
    using d(1) lw l(2) by (simp add: ldb_def stb_def st_clust_def st_word_eq st_dword_eq w_def add.assoc add.commute)
  let ?e = "take 32 (drop p w)"
  have ex: "?e ! j = w ! (p + j)" if "j < 32" for j using that d(1) lw by (simp add: w_def)
  have ent: "dentry s k ! j = win s ! (p + j)" if "j < 32" for j using that assms(3) d(2) by (simp add: vbyte_def)
  have "rootput s k ?e (s\<lparr>win := w, wflag := 1\<rparr>)"
    by (rule rootput_any [OF assms(1-3), of w, unfolded assms(5)]) (auto simp: w_def lw)
  moreover have "take 11 ?e = take 11 (dentry s k)"
  proof (rule nth_equalityI)
    fix j assume "j < length (take 11 ?e)"
    then show "take 11 ?e ! j = take 11 (dentry s k) ! j" using ex [of j] ent [of j] by (simp add: w_def del: nth_dentry)
  qed (use d lw in \<open>simp add: w_def\<close>)
  moreover have "?e ! 11 = dentry s k ! 11 OR AM_ARC" using ex [of 11] ent [of 11] d(1) lw by (simp add: w_def del: nth_dentry)
  moreover have "entry_clust ?e = sclust (fobj fp)"
  proof -
    have "entry_clust ?e = ucast ?c" unfolding entry_clust_def using ex [of 26] ex [of 27] d(1) lw by (simp add: w_def bytes_word)
    also have "\<dots> = take_bit 16 (sclust (fobj fp))" by (rule bit_word_eqI) (auto simp: bit_simps)
    also have "\<dots> = sclust (fobj fp)" using assms(4) by (simp add: take_bit_eq_mod word_unat_eq_iff unat_mod)
    finally show ?thesis .
  qed
  moreover have "entry_size ?e = ?z"
    unfolding entry_size_def using ex [of 28] ex [of 29] ex [of 30] ex [of 31] d(1) lw by (simp add: w_def bytes_dword)
  ultimately show ?thesis using ops by (auto simp: entry_synced_def)
qed

lemma f_sync_vol_root:
  assumes "root_ok s" "k < unat (n_rootdir s)" "dir_sect fp = dsect s k" "dir_ptr fp = k mod 16 * 32"
    and "fflag fp AND FA_MODIFIED \<noteq> 0" "unat (sclust (fobj fp)) < 2 ^ 16"
  shows "wp (f_sync_vol s fp) (\<lambda>(r, fp', s'). r = FR_OK \<and> fp' = fp\<lparr>fflag := fflag fp AND NOT FA_MODIFIED\<rparr> \<and> root_ok s' \<and> ddata s s' \<and>
     same_table (s\<lparr>fsi_flag := fsi_flag s'\<rparr>) s' \<and> (\<exists>e. root_dir s' = (root_dir s)[k := e] \<and> entry_synced (root_dir s ! k) fp e))"
proof -
  define dp :: DIR where "dp = (blank_DIR 0)\<lparr>clust := 0, sect := dsect s k, dir := k mod 16 * 32, dptr := of_nat (32 * k)\<rparr>"
  have at: "at_ent s dp k" "dir dp = dir_ptr fp" using assms(2,4) by (simp_all add: at_ent_def dp_def)
  have "wp (move_window s (dsect s k)) (\<lambda>(r, s1). r = FR_OK \<and> rootstep s s1 \<and> winsect s1 = dsect s k)"
    by (rule move_window_root [OF assms(1,2)]) simp
  then obtain s1 where m: "move_window s (dsect s k) = Some (FR_OK, s1)" "rootstep s s1" "winsect s1 = dsect s k" by (auto simp: wp_def)
  note r1 = rootstep_root [OF m(2) assms(1)]
  have g1: "good s s1" using m(2) dstep_facts(1) by (auto simp: rootstep_def)
  have a1: "at_ent s1 dp k" "winsect s1 = dsect s1 k" using at(1) at_ent_rootstep [OF m(2)] m(3) dsect_good [OF g1] by simp_all
  obtain b e where b: "(do { a \<leftarrow> ldb (win s1) (dir_ptr fp + DIR_Attr);
          b \<leftarrow> stb (win s1) (dir_ptr fp + DIR_Attr) (a OR AM_ARC);
          b \<leftarrow> st_clust s1 b (dir_ptr fp) (sclust (fobj fp));
          b \<leftarrow> st_dword b (dir_ptr fp + DIR_FileSize) (objsize (fobj fp));
          b \<leftarrow> st_dword b (dir_ptr fp + DIR_ModTime) GET_FATTIME;
          st_word b (dir_ptr fp + DIR_LstAccDate) 0 }) = Some b" and p: "rootput s1 k e (s1\<lparr>win := b, wflag := 1\<rparr>)"
    and e: "entry_synced (dentry s1 k) fp e"
    using sync_entry [OF _ a1 assms(6) at(2), of GET_FATTIME] r1 by blast
  let ?s2 = "s1\<lparr>win := b, wflag := 1\<rparr>"
  have p2: "rootput s k e ?s2" by (rule rootput_from [OF assms(1) m(2) p])
  have st: "same_table s ?s2" "ddata s ?s2" "root_ok ?s2" using p2 by (simp_all add: rootput_def)
  have e2: "entry_synced (root_dir s ! k) fp e" using e m(2) assms(2) by (simp add: rootstep_def)
  have "f_sync_vol s fp = sync_fs ?s2 \<bind> (\<lambda>(res, s). Some (res, fp\<lparr>fflag := fflag fp AND NOT FA_MODIFIED\<rparr>, s))"
    using b m(1) assms(3,5) by (auto simp: f_sync_vol_def Let_def bind_eq_Some_conv)
  moreover have "wp (sync_fs ?s2) (\<lambda>(r, s'). r = FR_OK \<and> root_ok s' \<and> ddata s s' \<and> same_table (s\<lparr>fsi_flag := fsi_flag s'\<rparr>) s' \<and>
       root_dir s' = (root_dir s)[k := e])"
  proof (rule sync_fs_root [OF st(3)], goal_cases)
    case (1 s')
    note r = dstep_root [OF st(3) 1(1)]
    have "ddata s s'" using ddata_trans [OF st(2) dstep_ddata [OF _ 1(1)]] st(3) by (simp add: root_ok_def)
    moreover have "same_table (s\<lparr>fsi_flag := fsi_flag s'\<rparr>) s'"
      using 1(2) st(1) by (auto simp: same_table_def fat_rest_def dest: geo_n_fatent)
    ultimately show ?case using r rootput_dir [OF p2] by simp
  qed
  ultimately show ?thesis using e2 by (auto simp: wp_def)
qed

end
