(* ===== verification/FF_NameCalls.thy ===== *)
theory FF_NameCalls
  imports FF_RenameSpec FF_CloseSpec
begin

text \<open>
  Calls of the interface on a mounted volume with a path of one segment.
\<close>

section \<open>Calls on a mounted volume\<close>

definition root_path :: "buffer \<Rightarrow> buffer \<Rightarrow> buffer" where
  "root_path body ext = 0x2F # name_str body ext @ [0]"

definition mounted :: "sys \<Rightarrow> nat \<Rightarrow> bool" where
  "mounted sy a \<longleftrightarrow> FatFs sy = Some a \<and> fs_type (objs sy a) \<noteq> 0 \<and> root_ok (load_vol sy a)"

lemma mountedD:
  assumes "mounted sy a"
  shows "root_ok (load_vol sy a)" "lay (load_vol sy a)"
proof -
  show "root_ok (load_vol sy a)" using assms by (simp add: mounted_def)
  then show "lay (load_vol sy a)" by (simp add: root_ok_def)
qed

definition name_ok :: "buffer \<Rightarrow> buffer \<Rightarrow> bool" where
  "name_ok body ext \<longleftrightarrow> list_all name_char body \<and> list_all name_char ext \<and> body \<noteq> [] \<and> length body \<le> 8 \<and> length ext \<le> 3"

lemma find_colon_end:
  assumes "\<And>c. c \<in> set xs \<Longrightarrow> \<not> IsTerminator c \<and> c \<noteq> 0x3A" "i \<le> length xs"
  shows "find_colon (xs @ [0]) i = Some (0, Suc (length xs))"
  using assms(2)
proof (induction "length xs - i" arbitrary: i)
  case 0
  then have "i = length xs" by simp
  then show ?case by (subst find_colon.simps) (simp add: ldb_def nth_append IsTerminator_def)
next
  case (Suc n)
  then have i: "i < length xs" by simp
  then have "\<not> IsTerminator (xs ! i) \<and> xs ! i \<noteq> 0x3A" using assms(1) by simp
  then show ?case using Suc.hyps(1) [of "Suc i"] Suc.hyps(2) i by (subst find_colon.simps) (simp add: ldb_def nth_append)
qed

lemma mount_volume_mounted:
  assumes "mounted sy a" "name_ok body ext"
  shows "get_ldnumber (Some (root_path body ext)) = Some (0, Some (root_path body ext))"
    "mount_volume sy (Some (root_path body ext)) mode = Some (FR_OK, Some a, Some (root_path body ext), sy)"
proof -
  let ?xs = "0x2F # name_str body ext"
  have nc: "\<not> IsTerminator c \<and> c \<noteq> 0x3A" if "name_char c" for c
    using that by (auto simp: name_char_def IsTerminator_def sfn_illegal_def word_less_nat_alt word_le_nat_alt)
  have "\<not> IsTerminator c \<and> c \<noteq> 0x3A" if "c \<in> set ?xs" for c
    using that assms(2) nc by (auto simp: name_str_def name_ok_def list_all_iff IsTerminator_def split: if_splits)
  then have "find_colon (?xs @ [0]) 0 = Some (0, Suc (length ?xs))" by (intro find_colon_end) auto
  then have "find_colon (root_path body ext) 0 = Some (0, Suc (length ?xs))" by (simp add: root_path_def)
  then show "get_ldnumber (Some (root_path body ext)) = Some (0, Some (root_path body ext))" by (simp add: get_ldnumber_def)
  then show "mount_volume sy (Some (root_path body ext)) mode = Some (FR_OK, Some a, Some (root_path body ext), sy)"
    using assms(1) by (simp add: mount_volume_def mounted_def disk_status_def)
qed

section \<open>Whole calls\<close>

lemma mounted_store:
  assumes "mounted sy a" "root_ok s'" "good (load_vol sy a) s'"
  shows "mounted (store_vol sy a s') a"
  using assms goodD(2) [OF assms(3)] by (simp add: mounted_def)

lemma mounted_validate:
  assumes "mounted sy a" "ofs_ptr ob = Some a" "oid ob = fs_id (load_vol sy a)"
  shows "validate sy ob = (FR_OK, Some a)"
  using assms by (simp add: mounted_def validate_def disk_status_def)

lemma f_open_mounted:
  assumes "mounted sy a" "name_ok body ext"
    and "wp (f_open_vol sc (load_vol sy a) a fp (root_path body ext) (mode AND FA_OPEN_MASK))
      (\<lambda>(r, fp', s'). Q (r, Some (if r = FR_OK then fp' else fp'\<lparr>fobj := (fobj fp')\<lparr>ofs_ptr := None\<rparr>\<rparr>), store_vol sy a s'))"
  shows "wp (f_open sc sy (Some fp) (Some (root_path body ext)) mode) Q"
  unfolding f_open_def f_open_obj_def Let_def using assms(3) mount_volume_mounted(2) [OF assms(1,2)]
  by (auto simp: wp_bind elim!: wp_mono split: if_splits)

lemma open_creates:
  assumes "mounted sy a" "name_ok body ext" "lookup (sfn_of body ext) (root_dir (load_vol sy a)) = None"
    and "(mode AND FA_OPEN_MASK) AND FA_NEW \<noteq> 0" "first_free (root_dir (load_vol sy a)) = Some k"
  shows "\<exists>fp' s' e. f_open sc sy (Some fp) (Some (root_path body ext)) mode = Some (FR_OK, Some fp', store_vol sy a s') \<and>
     rootput (load_vol sy a) k e s' \<and> blank_entry (sfn_of body ext) e \<and>
     opened (load_vol sy a) a k e ((mode AND FA_OPEN_MASK) OR FA_CREATE_ALWAYS OR FA_MODIFIED) fp'"
proof -
  note r = mountedD(1) [OF assms(1)]
  note n = assms(2) [unfolded name_ok_def]
  have "wp (f_open sc sy (Some fp) (Some (root_path body ext)) mode) (\<lambda>(r, fp', sy'). \<exists>fp1 s' e. r = FR_OK \<and> fp' = Some fp1 \<and>
     sy' = store_vol sy a s' \<and> rootput (load_vol sy a) k e s' \<and> blank_entry (sfn_of body ext) e \<and>
     opened (load_vol sy a) a k e ((mode AND FA_OPEN_MASK) OR FA_CREATE_ALWAYS OR FA_MODIFIED) fp1)"
    by (rule f_open_mounted [OF assms(1,2)], unfold root_path_def,
        rule wp_mono [OF f_open_vol_creates [OF r _ _ _ _ _ assms(3,4)]]) (use n assms(5) in \<open>auto intro!: exI\<close>)
  then show ?thesis by (auto simp: wp_def)
qed

lemma open_denied:
  assumes "mounted sy a" "name_ok body ext" "lookup (sfn_of body ext) (root_dir (load_vol sy a)) = None"
    and "(mode AND FA_OPEN_MASK) AND FA_NEW \<noteq> 0" "first_free (root_dir (load_vol sy a)) = None"
  shows "\<exists>fp' s'. f_open sc sy (Some fp) (Some (root_path body ext)) mode = Some (FR_DENIED, Some fp', store_vol sy a s') \<and>
     ofs_ptr (fobj fp') = None \<and> mounted (store_vol sy a s') a \<and> same_table (load_vol sy a) s' \<and> root_dir s' = root_dir (load_vol sy a)"
proof -
  note r = mountedD(1) [OF assms(1)] and n = assms(2) [unfolded name_ok_def]
  have "wp (f_open_vol sc (load_vol sy a) a fp (root_path body ext) (mode AND FA_OPEN_MASK)) (\<lambda>(r, fp', s').
     same_table (load_vol sy a) s' \<and> r = FR_DENIED \<and> root_ok s' \<and> root_dir s' = root_dir (load_vol sy a))"
    using f_open_vol_creates [OF r _ _ _ _ _ assms(3,4)] n assms(5) by (simp add: root_path_def)
  then obtain fp1 s' where o: "f_open_vol sc (load_vol sy a) a fp (root_path body ext) (mode AND FA_OPEN_MASK) = Some (FR_DENIED, fp1, s')"
    "same_table (load_vol sy a) s'" "root_ok s'" "root_dir s' = root_dir (load_vol sy a)" by (auto simp: wp_def)
  let ?fp = "fp1\<lparr>fobj := (fobj fp1)\<lparr>ofs_ptr := None\<rparr>\<rparr>"
  have "f_open sc sy (Some fp) (Some (root_path body ext)) mode = Some (FR_DENIED, Some ?fp, store_vol sy a s')"
    using f_open_mounted [OF assms(1,2), of sc fp mode "\<lambda>y. y = (FR_DENIED, Some ?fp, store_vol sy a s')"] o(1)
    by (simp add: wp_def split: option.splits)
  moreover have "fs_type s' = fs_type (load_vol sy a)" using o(2) by (auto simp: same_table_def fat_rest_def geo_eq_iff)
  then have "mounted (store_vol sy a s') a" using assms(1) o(3) by (simp add: mounted_def)
  ultimately show ?thesis using o by (intro exI [of _ ?fp] exI [of _ s']) simp
qed

lemma open_reads:
  assumes "mounted sy a" "name_ok body ext" "lookup (sfn_of body ext) (root_dir (load_vol sy a)) = Some k"
    and "(mode AND FA_OPEN_MASK) AND (FA_CREATE_ALWAYS OR FA_SEEKEND) = 0"
  shows "\<exists>fp' s'. f_open sc sy (Some fp) (Some (root_path body ext)) mode =
        Some (open_result (mode AND FA_OPEN_MASK) (root_dir (load_vol sy a) ! k), Some fp', store_vol sy a s') \<and>
     rootstep (load_vol sy a) s' \<and>
     (if open_result (mode AND FA_OPEN_MASK) (root_dir (load_vol sy a) ! k) = FR_OK
      then opened (load_vol sy a) a k (root_dir (load_vol sy a) ! k) (mode AND FA_OPEN_MASK) fp' else ofs_ptr (fobj fp') = None)"
proof -
  note r = mountedD(1) [OF assms(1)]
  note n = assms(2) [unfolded name_ok_def]
  have "wp (f_open sc sy (Some fp) (Some (root_path body ext)) mode) (\<lambda>(r, fp', sy'). \<exists>fp1 s'.
     r = open_result (mode AND FA_OPEN_MASK) (root_dir (load_vol sy a) ! k) \<and> fp' = Some fp1 \<and>
     sy' = store_vol sy a s' \<and> rootstep (load_vol sy a) s' \<and>
     (if r = FR_OK then opened (load_vol sy a) a k (root_dir (load_vol sy a) ! k) (mode AND FA_OPEN_MASK) fp1 else ofs_ptr (fobj fp1) = None))"
    by (rule f_open_mounted [OF assms(1,2)], unfold root_path_def,
        rule wp_mono [OF f_open_vol_existing [OF r _ _ _ _ _ assms(3,4)]]) (use n in \<open>auto split: if_splits\<close>)
  then show ?thesis by (auto simp: wp_def split: if_splits)
qed

lemma f_close_root:
  assumes "mounted sy a" "validate sy (fobj fp) = (FR_OK, Some a)"
    and k: "k < unat (n_rootdir (load_vol sy a))" "dir_sect fp = dsect (load_vol sy a) k" "dir_ptr fp = k mod 16 * 32"
    and "fflag fp AND FA_MODIFIED \<noteq> 0" "unat (sclust (fobj fp)) < 2 ^ 16"
  shows "\<exists>fp' s' e. f_close sy fp = Some (FR_OK, fp', store_vol sy a s') \<and> root_ok s' \<and> ddata (load_vol sy a) s' \<and>
     same_table ((load_vol sy a)\<lparr>fsi_flag := fsi_flag s'\<rparr>) s' \<and>
     root_dir s' = (root_dir (load_vol sy a))[k := e] \<and> entry_synced (root_dir (load_vol sy a) ! k) fp e"
proof -
  note r = mountedD(1) [OF assms(1)]
  obtain s' e where f: "f_sync_vol (load_vol sy a) fp = Some (FR_OK, fp\<lparr>fflag := fflag fp AND NOT FA_MODIFIED\<rparr>, s')"
    "root_ok s'" "ddata (load_vol sy a) s'" "same_table ((load_vol sy a)\<lparr>fsi_flag := fsi_flag s'\<rparr>) s'"
    "root_dir s' = (root_dir (load_vol sy a))[k := e]" "entry_synced (root_dir (load_vol sy a) ! k) fp e"
    using f_sync_vol_root [OF r k assms(6,7)] by (auto simp: wp_def)
  have "validate (store_vol sy a s') (fobj fp) = (FR_OK, Some a)"
    using validate_keep [OF assms(2), of s' "fobj fp"] f(3) by (simp add: ddata_def)
  then have "\<exists>fp'. f_close sy fp = Some (FR_OK, fp', store_vol sy a s')" using f(1) assms(2) by (simp add: f_close_def f_sync_def)
  then show ?thesis using f(2-6) by blast
qed

lemma lookup_first_free:
  assumes "first_free es = Some k" "lookup nm es = None" "take 11 e = nm" "e ! 11 AND AM_VOL = 0" "nm ! 0 \<noteq> 0"
  shows "lookup nm (es[k := e]) = Some k"
  using assms
proof (induction es arbitrary: k)
  case (Cons x es)
  have "e ! 0 = nm ! 0" using Cons.prems(3) by (metis nth_take zero_less_numeral)
  then show ?case using Cons by (cases k) (auto split: if_splits)
qed simp

lemma content_ddata:
  assumes "ddata s s'" "lay s" "file_chain s c cs" "p + n \<le> length cs * bpc s"
  shows "content s' cs p n = content s cs p n"
proof -
  have g: "good s s'" using assms(1) by (simp add: ddata_def)
  have b: "bpc s' = bpc s" by (rule good_bpc [OF g])
  have "fbyte s' cs i = fbyte s cs i" if "i < length cs * bpc s" for i
  proof -
    have q: "i div bpc s < length cs" using that by (simp add: less_mult_imp_div_less)
    have k: "i mod bpc s div 512 < unat (csize s)"
      using bpc_pos [OF assms(2)] by (simp add: bpc_def less_mult_imp_div_less)
    show ?thesis
      using assms(1) file_sect(1) [OF assms(2,3) q k] by (simp add: fbyte_def b clst2sect_good [OF g] ddata_def)
  qed
  then show ?thesis unfolding content_def using assms(4) by auto
qed

lemma chain_start_16:
  assumes "root_ok s" "file_chain s c cs"
  shows "unat c < 2 ^ 16"
proof (cases "c = 0")
  case False
  then have ch: "chain (fat_entry s) (n_fatent s) c cs" using assms(2) by (simp add: file_chain_def)
  then have "c < n_fatent s" by (cases cs) (auto split: if_splits)
  moreover have "unat (n_fatent s) \<le> 0xFFF7"
    using layD(3) [of s] assms(1) by (auto simp: root_ok_def gok_def)
  ultimately show ?thesis by (simp add: word_less_nat_alt)
qed simp

section \<open>Information about a file\<close>

definition info_of :: "buffer \<Rightarrow> buffer \<Rightarrow> FILINFO \<Rightarrow> bool" where
  "info_of e nm fno \<longleftrightarrow> fno_fsize fno = entry_size e \<and> fattrib fno = e ! 11 AND AM_MASK \<and> length (fname fno) = 13 \<and>
     take (length nm) (fname fno) = map to_upper nm \<and> fname fno ! length nm = 0"

lemma get_fileinfo_entry:
  assumes "name_ok body ext" "length (win s) = 512" "dir dp + 32 \<le> 512" "take 32 (drop (dir dp) (win s)) = e"
    and "take 11 e = sfn_of body ext" "sect dp \<noteq> 0" "length (fname fno) = 13" "fs_type s \<noteq> FS_FAT32"
  shows "\<exists>fno'. get_fileinfo s dp fno = Some fno' \<and> info_of e (name_str body ext) fno'"
proof -
  let ?n = "length (name_str body ext)"
  have n: "?n < 13" using assms(1) by (simp add: name_str_def name_ok_def)
  have "take 11 (drop (dir dp) (win s)) = sfn_of body ext" using assms(4,5) by (auto simp: min_def)
  then obtain f where f: "fileinfo_name (win s) (dir dp) 11 0 0 ((fname fno)[0 := 0]) = Some (?n, f)" "length f = 13"
    "take ?n f = name_str (map to_upper body) (map to_upper ext)"
    using fileinfo_name_83 [of body ext "dir dp" "win s" "(fname fno)[0 := 0]"] assms(1-3,7) by (auto simp: name_ok_def)
  have up: "name_str (map to_upper body) (map to_upper ext) = map to_upper (name_str body ext)"
    by (simp add: name_str_def to_upper_def IsLower_def)
  have "win s ! (dir dp + 11) = e ! 11" using assms(2-4) by auto
  moreover note window_fields(2) [OF assms(2-4,8)]
  ultimately show ?thesis
    using f assms(2,3,6,7) n up by (simp add: get_fileinfo_def ldb_def stb_def ld_word_def info_of_def)
qed

lemma f_stat_root:
  assumes "mounted sy a" "name_ok body ext" "length (fname fno) = 13"
  shows "\<exists>r fno' s'. f_stat sc sy (Some (root_path body ext)) (Some fno) = Some (r, Some fno', store_vol sy a s') \<and>
     rootstep (load_vol sy a) s' \<and>
     (case lookup (sfn_of body ext) (root_dir (load_vol sy a)) of
        None \<Rightarrow> r = FR_NO_FILE \<and> fno' = fno
      | Some k \<Rightarrow> r = FR_OK \<and> info_of (root_dir (load_vol sy a) ! k) (name_str body ext) fno')"
proof -
  let ?s = "load_vol sy a"
  note r = mountedD [OF assms(1)] and n = assms(2) [unfolded name_ok_def]
  obtain x dj s1 where f: "follow_path sc ?s (blank_DIR a) (root_path body ext) = Some (x, dj, s1)"
    "fn dj = sfn_of body ext @ [NS_LAST]" "rootstep ?s s1"
    "case lookup (sfn_of body ext) (root_dir ?s) of None \<Rightarrow> x = FR_NO_FILE | Some k \<Rightarrow> x = FR_OK \<and> at_ent ?s dj k \<and> winsect s1 = dsect ?s k"
    using follow_path_root [OF r(1), of body ext "blank_DIR a" sc] n by (auto simp: wp_def dfound_def root_path_def split: option.splits)
  have ns: "ldb (fn dj) NSFLAG = Some NS_LAST" using f(2) n by (simp add: ldb_def nth_append)
  note m = mount_volume_mounted(2) [OF assms(1,2), of 0] and r1 = rootstep_root [OF f(3) r(1)]
  show ?thesis
  proof (cases "lookup (sfn_of body ext) (root_dir ?s)")
    case None
    then show ?thesis using f m by (simp add: f_stat_def f_stat_vol_def) blast
  next
    case (Some k)
    have k: "x = FR_OK" "at_ent ?s dj k" "winsect s1 = dsect ?s k" using f(4) Some by simp_all
    have kl: "k < unat (n_rootdir ?s)" "dir dj + 32 \<le> 512" using k(2) mod_less_divisor [of 16 k] by (simp_all add: at_ent_def)
    have w: "length (win s1) = 512" "fs_type s1 \<noteq> FS_FAT32" using r1 layD(2) [of s1] by (simp_all add: root_ok_def)
    have "sect dj \<noteq> 0" using k(2) dsect_facts(6) [OF r(1) kl(1)] by (simp add: at_ent_def)
    then obtain fno' where "get_fileinfo s1 dj fno = Some fno'" "info_of (root_dir ?s ! k) (name_str body ext) fno'"
      using get_fileinfo_entry [OF assms(2) w(1) kl(2) found_window [OF r(1) f(3) k(2,3)] lookup_name [OF Some] _ assms(3) w(2)] by blast
    then show ?thesis using f m k Some ns by (simp add: f_stat_def f_stat_vol_def) blast
  qed
qed

end
