(* ===== verification/FF_FileMap.thy ===== *)
theory FF_FileMap
  imports FF_NameCalls
begin

text \<open>
  The root directory as a map from names to files, each a chain of clusters and a sequence of bytes, and the calls of the
  interface as changes of this map: creating, writing and closing, opening by the name and reading, deleting, renaming.
\<close>

section \<open>A file from its creation to its reading\<close>

text \<open>Two clients: one creates a file, writes to it and closes it, the other opens it by its name and reads.\<close>

definition store_file :: "bool \<Rightarrow> sys \<Rightarrow> FIL \<Rightarrow> buffer \<Rightarrow> BYTE \<Rightarrow> buffer \<Rightarrow> UINT \<Rightarrow> (FRESULT list \<times> UINT \<times> sys) option" where
  "store_file sc sy fp path mode buff btw = do {
     (r1, fp1, sy) \<leftarrow> f_open sc sy (Some fp) (Some path) mode;
     fp1 \<leftarrow> fp1;
     (r2, fp2, bw, sy) \<leftarrow> f_write sy fp1 buff btw;
     (r3, _, sy) \<leftarrow> f_close sy fp2;
     Some ([r1, r2, r3], bw, sy)
   }"

definition fetch_file :: "bool \<Rightarrow> sys \<Rightarrow> FIL \<Rightarrow> buffer \<Rightarrow> buffer \<Rightarrow> UINT \<Rightarrow> (FRESULT list \<times> UINT \<times> buffer \<times> sys) option" where
  "fetch_file sc sy fp path buff btr = do {
     (r1, fp1, sy) \<leftarrow> f_open sc sy (Some fp) (Some path) FA_READ;
     fp1 \<leftarrow> fp1;
     (r2, _, b, br, sy) \<leftarrow> f_read sy fp1 buff btr;
     Some ([r1, r2], br, b, sy)
   }"

text \<open>A file of the root directory: its name, its chain and its bytes.\<close>

definition holds_file :: "vol \<Rightarrow> buffer \<Rightarrow> DWORD list \<Rightarrow> buffer \<Rightarrow> bool" where
  "holds_file s nm cs bs \<longleftrightarrow> (\<exists>k. lookup nm (root_dir s) = Some k \<and> root_dir s ! k ! 11 AND AM_DIR = 0 \<and>
     file_chain s (entry_clust (root_dir s ! k)) cs \<and> unat (entry_size (root_dir s ! k)) = length bs \<and>
     length bs \<le> length cs * bpc s \<and> content s cs 0 (length bs) = bs)"

text \<open>A name that a path can give: not that of a free entry.\<close>

definition live_name :: "buffer \<Rightarrow> bool" where
  "live_name nm \<longleftrightarrow> nm ! 0 \<noteq> 0 \<and> nm ! 0 \<noteq> DDEM"

lemma lookup_other:
  assumes "lookup nm es = Some j" "j \<noteq> k" "take 11 e \<noteq> nm" "e ! 0 \<noteq> 0"
  shows "lookup nm (es[k := e]) = Some j"
  using assms
proof (induction es arbitrary: j k)
  case (Cons x es)
  then show ?case by (cases k; cases j) (auto split: if_splits)
qed simp

lemma holds_keep:
  assumes "holds_file s nm ds bs" "bpc s' = bpc s"
    and "\<And>k. lookup nm (root_dir s) = Some k \<Longrightarrow> lookup nm (root_dir s') = Some k \<and> root_dir s' ! k = root_dir s ! k"
    and "\<And>c. file_chain s c ds \<Longrightarrow> length bs \<le> length ds * bpc s \<Longrightarrow>
      file_chain s' c ds \<and> content s' ds 0 (length bs) = content s ds 0 (length bs)"
  shows "holds_file s' nm ds bs"
  using assms unfolding holds_file_def by metis

text \<open>Replacing an entry that another name does not use.\<close>

lemma lookup_put:
  assumes "lookup nm es = Some j" "live_name nm" "take 11 e \<noteq> nm" "e ! 0 \<noteq> 0"
    and "first_free es = Some k \<or> take 11 (es ! k) \<noteq> nm"
  shows "lookup nm (es[k := e]) = Some j \<and> es[k := e] ! j = es ! j"
proof -
  have "j \<noteq> k" using assms(5) lookup_not_free [OF assms(1)] lookup_name [OF assms(1)] assms(2) by (auto simp: live_name_def)
  then show ?thesis using lookup_other [OF assms(1) _ assms(3,4)] by simp
qed

lemma holds_put:
  assumes "holds_file s nm ds bs" "live_name nm" "lay s" "ddata s s'" "root_dir s' = (root_dir s)[k := e]"
    and "take 11 e \<noteq> nm" "e ! 0 \<noteq> 0" "first_free (root_dir s) = Some k \<or> take 11 (root_dir s ! k) \<noteq> nm"
    and "\<And>c. file_chain s c ds \<Longrightarrow> file_chain s' c ds"
  shows "holds_file s' nm ds bs"
proof (rule holds_keep [OF assms(1)])
  show "bpc s' = bpc s" using assms(4) good_bpc by (simp add: ddata_def)
  show "lookup nm (root_dir s') = Some j \<and> root_dir s' ! j = root_dir s ! j" if "lookup nm (root_dir s) = Some j" for j
    unfolding assms(5) by (rule lookup_put [OF that assms(2,6-8)])
  show "file_chain s' c ds \<and> content s' ds 0 (length bs) = content s ds 0 (length bs)"
    if "file_chain s c ds" "length bs \<le> length ds * bpc s" for c
    using assms(9) [OF that(1)] content_ddata [OF assms(4,3) that(1), of 0] that(2) by simp
qed

lemma fetch_holds:
  assumes "mounted sy a" "name_ok body ext" "holds_file (load_vol sy a) (sfn_of body ext) cs bs" "unat btr \<le> length buff"
  shows "\<exists>br b sy'. fetch_file sc sy fp (root_path body ext) buff btr = Some ([FR_OK, FR_OK], br, b, sy') \<and>
     unat br = min (unat btr) (length bs) \<and> take (unat br) b = take (unat br) bs \<and> drop (unat br) b = drop (unat br) buff"
proof -
  let ?s = "load_vol sy a"
  obtain k where k: "lookup (sfn_of body ext) (root_dir ?s) = Some k" "root_dir ?s ! k ! 11 AND AM_DIR = 0"
    and c: "file_chain ?s (entry_clust (root_dir ?s ! k)) cs" "unat (entry_size (root_dir ?s ! k)) = length bs"
      "length bs \<le> length cs * bpc ?s" "content ?s cs 0 (length bs) = bs"
    using assms(3) by (auto simp: holds_file_def)
  note l = mountedD(2) [OF assms(1)]
  have "open_result FA_READ (root_dir ?s ! k) = FR_OK" using k(2) by (simp add: open_result_def)
  then obtain fp1 s1 where o: "f_open sc sy (Some fp) (Some (root_path body ext)) FA_READ = Some (FR_OK, Some fp1, store_vol sy a s1)"
    "rootstep ?s s1" "opened ?s a k (root_dir ?s ! k) FA_READ fp1"
    using open_reads [OF assms(1,2) k(1), of FA_READ sc fp] by auto
  have st: "dstep ?s s1" "same_table ?s s1" "good ?s s1" "lay s1" using o(2) dstep_facts(1,2) by (auto simp: rootstep_def)
  have m1: "mounted (store_vol sy a s1) a"
    using mounted_store [OF assms(1) _ st(3)] rootstep_root [OF o(2)] assms(1) by (simp add: mounted_def)
  have c1: "content s1 cs 0 (length bs) = bs" using content_keep [OF st(1) l c(1), of 0] c(3,4) by simp
  have f1: "file_ok s1 fp1 cs"
    using o(3) st(4) c file_chain_keep [OF st(2)] good_bpc [OF st(3)] by (simp add: opened_def file_ok_def)
  have v: "validate (store_vol sy a s1) (fobj fp1) = (FR_OK, Some a)"
    using o(3) goodD(4) [OF st(3)] by (intro mounted_validate [OF m1]) (simp_all add: opened_def)
  define n where "n = min (unat btr) (length bs)"
  have z: "unat (objsize (fobj fp1)) = length bs" "fptr fp1 = 0" "ferr fp1 = FR_OK" "fflag fp1 AND FA_READ \<noteq> 0"
    using o(3) c(2) by (simp_all add: opened_def)
  have "wp (f_read (store_vol sy a s1) fp1 buff btr) (\<lambda>(r, fp', b, br, sy'). r = FR_OK \<and> unat br = n \<and>
      b = content s1 cs 0 n @ drop n buff)"
    by (rule wp_mono [OF f_read_exact [OF v z(3,4)]]) (use f1 assms(4) z(1,2) in \<open>auto simp: n_def\<close>)
  then obtain fp2 b br sy2 where r: "f_read (store_vol sy a s1) fp1 buff btr = Some (FR_OK, fp2, b, br, sy2)" "unat br = n"
    "b = content s1 cs 0 n @ drop n buff" by (auto simp: wp_def)
  have "content s1 cs 0 n = take n bs"
    using content_append [of s1 cs 0 n "length bs - n"] c1 by (simp add: n_def) (metis append_eq_conv_conj length_content)
  then show ?thesis using o(1) r by (simp add: fetch_file_def n_def)
qed

lemma mode_flags:
  assumes "(m :: BYTE) AND FA_WRITE \<noteq> 0"
  shows "(m OR FA_CREATE_ALWAYS OR FA_MODIFIED) AND FA_WRITE \<noteq> 0"
  using assms by (simp add: bit.conj_disj_distrib2)

lemma live_first: "live_name nm \<Longrightarrow> take 11 e = nm \<Longrightarrow> e ! 0 = nm ! 0"
  by (metis nth_take zero_less_numeral)

lemma blank_fields:
  assumes "blank_entry e e'" "live_name nm" "take 11 e = nm"
  shows "take 11 e' = nm" "e' ! 0 \<noteq> 0" "e' ! 11 AND AM_VOL = 0" "e' ! 11 AND AM_DIR = 0" "entry_clust e' = 0" "entry_size e' = 0"
proof -
  show t: "take 11 e' = nm" using assms by (simp add: blank_entry_def)
  show "e' ! 0 \<noteq> 0" using live_first [OF assms(2) t] assms(2) by (simp add: live_name_def)
qed (use assms(1) in \<open>simp_all add: blank_entry_def\<close>)

lemma lookup_same:
  assumes "lookup nm es = Some k" "take 11 e = nm" "e ! 0 \<noteq> 0" "e ! 11 AND AM_VOL = 0"
  shows "lookup nm (es[k := e]) = Some k"
  using assms
proof (induction es arbitrary: k)
  case (Cons x es)
  then show ?case by (cases k) (auto split: if_splits)
qed simp

lemma lookup_attr: "lookup nm es = Some k \<Longrightarrow> es ! k ! 11 AND AM_VOL = 0"
  by (induction es arbitrary: k) (auto split: if_splits)

lemma synced_fields:
  assumes "entry_synced e fp e'" "live_name nm" "take 11 e = nm" "e ! 11 AND AM_VOL = 0" "e ! 11 AND AM_DIR = 0"
  shows "take 11 e' = nm" "e' ! 0 \<noteq> 0" "e' ! 11 AND AM_VOL = 0" "e' ! 11 AND AM_DIR = 0"
proof -
  show t: "take 11 e' = nm" using assms by (simp add: entry_synced_def)
  show "e' ! 0 \<noteq> 0" using live_first [OF assms(2) t] assms(2) by (simp add: live_name_def)
qed (use assms in \<open>simp_all add: entry_synced_def bit.conj_disj_distrib2\<close>)

text \<open>Writing to an empty file keeps the directory and every other file.\<close>

lemma write_empty:
  assumes "mounted sy a" "validate sy (fobj fp) = (FR_OK, Some a)" "file_ok (load_vol sy a) fp []" "free_ok (load_vol sy a)" "sane (load_vol sy a)"
    and fl: "ferr fp = FR_OK" "fflag fp AND FA_WRITE \<noteq> 0" "fptr fp = 0" "objsize (fobj fp) = 0" and "unat btw \<le> length buff"
  shows "\<exists>fp' bw s' cs. f_write sy fp buff btw = Some (FR_OK, fp', bw, store_vol sy a s') \<and> unat bw \<le> unat btw \<and>
     (bw = btw \<or> free_set s' = {}) \<and> mounted (store_vol sy a s') a \<and> validate (store_vol sy a s') (fobj fp') = (FR_OK, Some a) \<and>
     fflag fp' AND FA_MODIFIED \<noteq> 0 \<and> dir_sect fp' = dir_sect fp \<and> dir_ptr fp' = dir_ptr fp \<and>
     good (load_vol sy a) s' \<and> root_dir s' = root_dir (load_vol sy a) \<and> file_ok s' fp' cs \<and> unat (objsize (fobj fp')) = unat bw \<and>
     content s' cs 0 (unat bw) = take (unat bw) buff \<and>
     (\<forall>nm ds bs. holds_file (load_vol sy a) nm ds bs \<longrightarrow> holds_file s' nm ds bs)"
proof -
  let ?s = "load_vol sy a"
  note r = mountedD [OF assms(1)]
  have "unat (fptr fp) + unat btw < 2 ^ 32" using fl(3) by simp
  from f_write_exact_obj [OF assms(2) fl(1,2) assms(3-5,10) this]
  obtain fp' bw s' fpx where w: "f_write sy fp buff btw = Some (FR_OK, fp', bw, store_vol sy a s')"
    "fflag fp' = fflag fp OR FA_MODIFIED" "ofs_ptr (fobj fp') = ofs_ptr (fobj fp)" "oid (fobj fp') = oid (fobj fp)"
    "dir_sect fp' = dir_sect fp" "dir_ptr fp' = dir_ptr fp" "fp' = fpx\<lparr>fflag := fflag fpx OR FA_MODIFIED\<rparr>"
    and wd: "wdone ?s fp [] buff (unat btw) 0 (FR_OK, fpx, bw, s')"
    by (elim wpE) auto
  from wd obtain cs where w2: "unat bw \<le> unat btw" "bw = btw \<or> free_set s' = {}"
    "fwrite ?s [] 0 s' cs 0 (take (unat bw) buff)" "file_ok s' fp' cs" "unat (objsize (fobj fp')) = unat bw"
    using fl(3,4) w(7) by (auto simp: wdone_def word_unat_eq_iff file_ok_flag)
  have s': "lay s'" "good ?s s'" "rkeep ?s s'" using w2(3) by (simp_all add: fwrite_def)
  note r' = rkeep_root [OF r(1) s'] and b = good_bpc [OF s'(2)]
  have v: "validate (store_vol sy a s') (fobj fp') = (FR_OK, Some a)" using validate_keep [OF assms(2) s'(2)] w(3,4) by simp
  have "length (take (unat bw) buff) = unat bw" using w2(1) assms(10) by simp
  then have c: "content s' cs 0 (unat bw) = take (unat bw) buff"
    using fwrite_content [OF w2(3)] file_okD(3) [OF w2(4)] w2(5) b by simp
  have "holds_file s' nm ds bs" if "holds_file ?s nm ds bs" for nm ds bs
  proof (rule holds_keep [OF that b])
    show "file_chain s' c ds \<and> content s' ds 0 (length bs) = content ?s ds 0 (length bs)"
      if "file_chain ?s c ds" "length bs \<le> length ds * bpc ?s" for c
      using w2(3) that by (auto simp: fwrite_def content_def)
  qed (use r'(2) in simp)
  moreover have "fflag fp' AND FA_MODIFIED \<noteq> 0" unfolding w(2) by (simp add: bit.conj_disj_distrib2)
  ultimately show ?thesis using w(1,5,6) w2 v c s'(2) r' mounted_store [OF assms(1) r'(1) s'(2)] by blast
qed

text \<open>Closing a file makes its entry that of the object.\<close>

lemma close_holds:
  assumes "mounted sy a" "validate sy (fobj fp) = (FR_OK, Some a)" "file_ok (load_vol sy a) fp cs" "live_name nm"
    and k: "lookup nm (root_dir (load_vol sy a)) = Some k" "root_dir (load_vol sy a) ! k ! 11 AND AM_DIR = 0"
    and d: "dir_sect fp = dsect (load_vol sy a) k" "dir_ptr fp = k mod 16 * 32" "fflag fp AND FA_MODIFIED \<noteq> 0"
  shows "\<exists>fp' s'. f_close sy fp = Some (FR_OK, fp', store_vol sy a s') \<and> mounted (store_vol sy a s') a \<and> free_set s' = free_set (load_vol sy a) \<and>
     holds_file s' nm cs (content (load_vol sy a) cs 0 (unat (objsize (fobj fp)))) \<and>
     (\<forall>nm' ds bs. live_name nm' \<longrightarrow> nm' \<noteq> nm \<longrightarrow> holds_file (load_vol sy a) nm' ds bs \<longrightarrow> holds_file s' nm' ds bs)"
proof -
  let ?s = "load_vol sy a"
  note r = mountedD [OF assms(1)] and ok = file_okD [OF assms(3)]
  have kl: "k < unat (n_rootdir ?s)" using lookup_less [OF k(1)] by simp
  obtain fp' s' e where c: "f_close sy fp = Some (FR_OK, fp', store_vol sy a s')" "root_ok s'" "ddata ?s s'"
    "same_table (?s\<lparr>fsi_flag := fsi_flag s'\<rparr>) s'" "root_dir s' = (root_dir ?s)[k := e]" "entry_synced (root_dir ?s ! k) fp e"
    using f_close_root [OF assms(1,2) kl d chain_start_16 [OF r(1) ok(2)]] by blast
  note f = synced_fields [OF c(6) assms(4) lookup_name [OF k(1)] lookup_attr [OF k(1)] k(2)]
  have g: "good ?s s'" "bpc s' = bpc ?s" using c(3) good_bpc by (simp_all add: ddata_def)
  have ch: "file_chain s' x ds" if "file_chain ?s x ds" for x ds
    using that file_chain_keep [OF c(4)] by (simp add: file_chain_def)
  have "content s' cs 0 (unat (objsize (fobj fp))) = content ?s cs 0 (unat (objsize (fobj fp)))"
    using content_ddata [OF c(3) r(2) ok(2)] ok(3) by simp
  then have "holds_file s' nm cs (content ?s cs 0 (unat (objsize (fobj fp))))"
    unfolding holds_file_def c(5) using lookup_same [OF k(1) f(1-3)] f(4) kl ch [OF ok(2)] c(6) ok(3) g(2)
    by (intro exI [of _ k]) (simp add: entry_synced_def)
  moreover have "holds_file s' nm' ds bs" if "live_name nm'" "nm' \<noteq> nm" "holds_file ?s nm' ds bs" for nm' ds bs
    using f(1,2) lookup_name [OF k(1)] that(2) ch by (intro holds_put [OF that(3,1) r(2) c(3,5)]) auto
  moreover have "free_set s' = free_set ?s" using same_table_free [OF c(4)] by (simp add: free_set_def)
  ultimately show ?thesis using c(1) mounted_store [OF assms(1) c(2) g(1)] by blast
qed

lemma create_holds:
  assumes "mounted sy a" "name_ok body ext" "lookup (sfn_of body ext) (root_dir (load_vol sy a)) = None"
    and "(mode AND FA_OPEN_MASK) AND FA_NEW \<noteq> 0" "first_free (root_dir (load_vol sy a)) = Some k"
  shows "\<exists>fp' s' e. f_open sc sy (Some fp) (Some (root_path body ext)) mode = Some (FR_OK, Some fp', store_vol sy a s') \<and>
     mounted (store_vol sy a s') a \<and> validate (store_vol sy a s') (fobj fp') = (FR_OK, Some a) \<and> same_table (load_vol sy a) s' \<and>
     opened s' a k e ((mode AND FA_OPEN_MASK) OR FA_CREATE_ALWAYS OR FA_MODIFIED) fp' \<and> file_ok s' fp' [] \<and> objsize (fobj fp') = 0 \<and>
     root_dir s' = (root_dir (load_vol sy a))[k := e] \<and> lookup (sfn_of body ext) (root_dir s') = Some k \<and>
     root_dir s' ! k ! 11 AND AM_DIR = 0 \<and> holds_file s' (sfn_of body ext) [] [] \<and>
     (\<forall>nm ds bs. live_name nm \<longrightarrow> nm \<noteq> sfn_of body ext \<longrightarrow> holds_file (load_vol sy a) nm ds bs \<longrightarrow> holds_file s' nm ds bs)"
proof -
  let ?s = "load_vol sy a" and ?nm = "sfn_of body ext"
  note r = mountedD [OF assms(1)]
  obtain fp' s' e where o: "f_open sc sy (Some fp) (Some (root_path body ext)) mode = Some (FR_OK, Some fp', store_vol sy a s')"
    "rootput ?s k e s'" "blank_entry ?nm e" "opened ?s a k e ((mode AND FA_OPEN_MASK) OR FA_CREATE_ALWAYS OR FA_MODIFIED) fp'"
    using open_creates [OF assms] by blast
  have s': "root_ok s'" "ddata ?s s'" "same_table ?s s'" "good ?s s'" "lay s'" using o(2) by (simp_all add: rootput_def ddata_def)
  note dr = rootput_dir [OF o(2)] and m = mounted_store [OF assms(1) s'(1,4)]
  have nm: "length ?nm = 11" "live_name ?nm" using assms(2) sfn_first by (auto simp: name_ok_def live_name_def)
  have b: "take 11 e = ?nm" "e ! 0 \<noteq> 0" "e ! 11 AND AM_VOL = 0" "e ! 11 AND AM_DIR = 0" "entry_clust e = 0" "entry_size e = 0"
    using blank_fields [OF o(3) nm(2)] nm(1) by simp_all
  have kl: "k < unat (n_rootdir ?s)" using first_free_less [OF assms(5)] by simp
  have lk: "lookup ?nm (root_dir s') = Some k" "root_dir s' ! k = e"
    unfolding dr using nm(2) kl by (simp_all add: lookup_first_free [OF assms(5,3) b(1,3)] live_name_def)
  have op: "opened s' a k e ((mode AND FA_OPEN_MASK) OR FA_CREATE_ALWAYS OR FA_MODIFIED) fp'"
    using o(4) goodD(4) [OF s'(4)] dsect_good [OF s'(4)] by (simp add: opened_def)
  have v: "validate (store_vol sy a s') (fobj fp') = (FR_OK, Some a)"
    using op by (intro mounted_validate [OF m]) (simp_all add: opened_def)
  have f: "file_ok s' fp' []" "objsize (fobj fp') = 0" using op b(5,6) s'(5) by (simp_all add: opened_def file_ok_def file_chain_def)
  have h: "holds_file s' ?nm [] []"
    unfolding holds_file_def using lk b by (intro exI [of _ k]) (simp add: file_chain_def content_def)
  have "holds_file s' nm ds bs" if "live_name nm" "nm \<noteq> ?nm" "holds_file ?s nm ds bs" for nm ds bs
    using b(1,2) that(2) assms(5) file_chain_keep [OF s'(3)] by (intro holds_put [OF that(3,1) r(2) s'(2) dr]) auto
  then show ?thesis using o(1) m v s'(3) op f dr lk b(4) h by (intro exI [of _ fp'] exI [of _ s'] exI [of _ e]) simp
qed

lemma store_holds:
  assumes "mounted sy a" "name_ok body ext" "lookup (sfn_of body ext) (root_dir (load_vol sy a)) = None"
    and "first_free (root_dir (load_vol sy a)) = Some k" "free_ok (load_vol sy a)" "sane (load_vol sy a)"
    and mode: "(mode AND FA_OPEN_MASK) AND FA_NEW \<noteq> 0" "(mode AND FA_OPEN_MASK) AND FA_WRITE \<noteq> 0"
    and "unat btw \<le> length buff"
  shows "\<exists>bw sy'. store_file sc sy fp (root_path body ext) mode buff btw = Some ([FR_OK, FR_OK, FR_OK], bw, sy') \<and>
     unat bw \<le> unat btw \<and> (bw = btw \<or> free_set (load_vol sy' a) = {}) \<and> mounted sy' a \<and>
     (\<exists>cs. holds_file (load_vol sy' a) (sfn_of body ext) cs (take (unat bw) buff)) \<and>
     (\<forall>nm ds bs. live_name nm \<longrightarrow> nm \<noteq> sfn_of body ext \<longrightarrow> holds_file (load_vol sy a) nm ds bs \<longrightarrow> holds_file (load_vol sy' a) nm ds bs)"
proof -
  let ?s = "load_vol sy a" and ?nm = "sfn_of body ext"
  obtain fp1 s1 e where o: "f_open sc sy (Some fp) (Some (root_path body ext)) mode = Some (FR_OK, Some fp1, store_vol sy a s1)"
    and m1: "mounted (store_vol sy a s1) a" "validate (store_vol sy a s1) (fobj fp1) = (FR_OK, Some a)" "same_table ?s s1"
    and op: "opened s1 a k e ((mode AND FA_OPEN_MASK) OR FA_CREATE_ALWAYS OR FA_MODIFIED) fp1" "file_ok s1 fp1 []" "objsize (fobj fp1) = 0"
    and k: "lookup ?nm (root_dir s1) = Some k" "root_dir s1 ! k ! 11 AND AM_DIR = 0"
    and h1: "\<forall>nm ds bs. live_name nm \<longrightarrow> nm \<noteq> ?nm \<longrightarrow> holds_file ?s nm ds bs \<longrightarrow> holds_file s1 nm ds bs"
    using create_holds [OF assms(1-3) mode(1) assms(4)] by blast
  let ?sy1 = "store_vol sy a s1"
  have fs: "free_ok s1" "sane s1" using assms(5,6) same_table_free_ok [OF m1(3)] same_table_sane [OF m1(3)] by simp_all
  have fl: "ferr fp1 = FR_OK" "fflag fp1 AND FA_WRITE \<noteq> 0" "fptr fp1 = 0" "dir_sect fp1 = dsect s1 k" "dir_ptr fp1 = k mod 16 * 32"
    using op(1) mode_flags [OF mode(2)] by (simp_all add: opened_def)
  obtain fp2 bw s2 cs where w: "f_write ?sy1 fp1 buff btw = Some (FR_OK, fp2, bw, store_vol ?sy1 a s2)" "unat bw \<le> unat btw"
    "bw = btw \<or> free_set s2 = {}" "mounted (store_vol ?sy1 a s2) a" "validate (store_vol ?sy1 a s2) (fobj fp2) = (FR_OK, Some a)"
    "fflag fp2 AND FA_MODIFIED \<noteq> 0" "dir_sect fp2 = dir_sect fp1" "dir_ptr fp2 = dir_ptr fp1" "good s1 s2" "root_dir s2 = root_dir s1"
    "file_ok s2 fp2 cs" "unat (objsize (fobj fp2)) = unat bw" "content s2 cs 0 (unat bw) = take (unat bw) buff"
    and h2: "\<forall>nm ds bs. holds_file s1 nm ds bs \<longrightarrow> holds_file s2 nm ds bs"
    using write_empty [OF m1(1,2), unfolded load_store, OF op(2) fs fl(1-3) op(3) assms(9)] by blast
  have nm: "live_name ?nm" using assms(2) sfn_first by (auto simp: name_ok_def live_name_def)
  have d: "dir_sect fp2 = dsect s2 k" "dir_ptr fp2 = k mod 16 * 32" using w(7,8) fl(4,5) dsect_good [OF w(9)] by simp_all
  obtain fp3 s3 where c: "f_close (store_vol ?sy1 a s2) fp2 = Some (FR_OK, fp3, store_vol (store_vol ?sy1 a s2) a s3)"
    "mounted (store_vol (store_vol ?sy1 a s2) a s3) a" "free_set s3 = free_set s2" "holds_file s3 ?nm cs (take (unat bw) buff)"
    "\<forall>nm ds bs. live_name nm \<longrightarrow> nm \<noteq> ?nm \<longrightarrow> holds_file s2 nm ds bs \<longrightarrow> holds_file s3 nm ds bs"
    using close_holds [OF w(4,5), unfolded load_store, OF w(11) nm, unfolded w(10), OF k d w(6)] w(12,13) by auto
  show ?thesis using o w(1-3) c h1 h2 by (auto simp: store_file_def)
qed

section \<open>Deleting and renaming\<close>

lemma chain_clears:
  assumes "clears s cs s'" "set ds \<inter> set cs = {}" "file_chain s c ds"
  shows "file_chain s' c ds"
proof (cases "c = 0")
  case False
  have n: "n_fatent s' = n_fatent s" using assms(1) geo_n_fatent by (auto simp: clears_def)
  have ch: "chain (fat_entry s) (n_fatent s) c ds" using assms(3) False by (simp add: file_chain_def)
  have "fat_entry s' x = fat_entry s x" if "x \<in> set ds" for x
    using assms(1,2) that chain_range [OF ch that] by (auto simp: clears_def)
  then show ?thesis using ch n False chain_cong [of ds "fat_entry s'" "fat_entry s"] by (simp add: file_chain_def)
qed (use assms(3) in \<open>simp add: file_chain_def\<close>)

lemma deleted_name: "live_name nm \<Longrightarrow> take 11 (e[0 := DDEM]) \<noteq> nm" if "e \<noteq> []"
  using that live_first [of nm "e[0 := DDEM]"] by (auto simp: live_name_def)

lemma unlink_holds:
  assumes "mounted sy a" "name_ok body ext" "holds_file (load_vol sy a) (sfn_of body ext) cs bs"
    and k: "lookup (sfn_of body ext) (root_dir (load_vol sy a)) = Some k" "root_dir (load_vol sy a) ! k ! 11 AND AM_RDO = 0"
  shows "\<exists>sy'. f_unlink sc sy (Some (root_path body ext)) = Some (FR_OK, sy') \<and> mounted sy' a \<and>
     root_dir (load_vol sy' a) = (root_dir (load_vol sy a))[k := (root_dir (load_vol sy a) ! k)[0 := DDEM]] \<and>
     (lookup (sfn_of body ext) (drop (Suc k) (root_dir (load_vol sy a))) = None \<longrightarrow>
        lookup (sfn_of body ext) (root_dir (load_vol sy' a)) = None) \<and>
     frees (load_vol sy a) cs (load_vol sy' a) \<and>
     (\<forall>nm ds bs. live_name nm \<longrightarrow> nm \<noteq> sfn_of body ext \<longrightarrow> set ds \<inter> set cs = {} \<longrightarrow> holds_file (load_vol sy a) nm ds bs \<longrightarrow>
        holds_file (load_vol sy' a) nm ds bs)"
proof -
  let ?s = "load_vol sy a"
  note n = assms(2) [unfolded name_ok_def]
  note r = mountedD [OF assms(1)]
  have h: "file_chain ?s (entry_clust (root_dir ?s ! k)) cs" "root_dir ?s ! k ! 11 AND AM_DIR = 0"
    using assms(3) k(1) by (auto simp: holds_file_def)
  have "root_dir ?s ! k ! 11 AND (AM_RDO OR AM_DIR) = (root_dir ?s ! k ! 11 AND AM_RDO) OR (root_dir ?s ! k ! 11 AND AM_DIR)"
    by (simp only: bit.conj_disj_distrib)
  then have at: "root_dir ?s ! k ! 11 AND (AM_RDO OR AM_DIR) = 0" using k(2) h(2) by simp
  obtain s' where u: "f_unlink_vol sc ?s a (root_path body ext) = Some (FR_OK, s')" "root_ok s'"
    "root_dir s' = (root_dir ?s)[k := (root_dir ?s ! k)[0 := DDEM]]" "frees ?s cs s'" "ddata ?s s'"
    using f_unlink_vol_root [OF r(1) _ _ _ _ _ k(1) at h(1), of sc a] n by (auto simp: wp_def root_path_def)
  have g: "good ?s s'" using u(5) by (simp add: ddata_def)
  have "lookup (sfn_of body ext) (root_dir s') = None" if "lookup (sfn_of body ext) (drop (Suc k) (root_dir ?s)) = None"
    unfolding u(3) using n sfn_first lookup_less [OF k(1)] by (intro lookup_remove [OF k(1) that]) auto
  moreover have ne: "root_dir ?s ! k \<noteq> []" using lookup_less [OF k(1)] by (auto dest: arg_cong [where f = length])
  moreover have "holds_file s' nm ds bs"
    if "live_name nm" "nm \<noteq> sfn_of body ext" "set ds \<inter> set cs = {}" "holds_file ?s nm ds bs" for nm ds bs
    using deleted_name [OF ne that(1)] lookup_name [OF k(1)] that(2) chain_clears [OF frees_clears [OF u(4)] that(3)] ne
    by (intro holds_put [OF that(4,1) r(2) u(5,3)]) auto
  ultimately show ?thesis
    using u mount_volume_mounted(2) [OF assms(1,2)] mounted_store [OF assms(1) u(2) g] by (simp add: f_unlink_def)
qed

lemma renamed_fields:
  assumes "length nm = 11" "length e = 32"
  shows "entry_clust (renamed nm e) = entry_clust e" "entry_size (renamed nm e) = entry_size e" "take 11 (renamed nm e) = nm"
    "renamed nm e ! 11 = (if e ! 11 AND AM_DIR = 0 then e ! 11 OR AM_ARC else e ! 11)"
  using assms by (simp_all add: renamed_def entry_clust_def entry_size_def nth_append nth_Cons')

lemma lookup_absent:
  assumes "\<And>j. j < length es \<Longrightarrow> take 11 (es ! j) \<noteq> nm"
  shows "lookup nm es = None"
  using assms lookup_less [of nm es] lookup_name [of nm es] by (cases "lookup nm es") auto

lemma rename_holds:
  assumes "mounted sy a" "name_ok body ext" "name_ok body' ext'" "holds_file (load_vol sy a) (sfn_of body ext) cs bs"
    and "lookup (sfn_of body' ext') (root_dir (load_vol sy a)) = None" "first_free (root_dir (load_vol sy a)) = Some m"
    and "lookup (sfn_of body ext) (root_dir (load_vol sy a)) = Some k"
  shows "\<exists>sy'. f_rename sc sy (Some (root_path body ext)) (Some (root_path body' ext')) = Some (FR_OK, sy') \<and> mounted sy' a \<and>
     root_dir (load_vol sy' a) = (root_dir (load_vol sy a))
       [m := renamed (sfn_of body' ext') (root_dir (load_vol sy a) ! k), k := (root_dir (load_vol sy a) ! k)[0 := DDEM]] \<and>
     ((\<forall>j < length (root_dir (load_vol sy a)). j \<noteq> k \<longrightarrow> take 11 (root_dir (load_vol sy a) ! j) \<noteq> sfn_of body ext) \<longrightarrow>
        lookup (sfn_of body ext) (root_dir (load_vol sy' a)) = None) \<and>
     frees (load_vol sy a) [] (load_vol sy' a) \<and>
     holds_file (load_vol sy' a) (sfn_of body' ext') cs bs \<and>
     (\<forall>nm ds bs. live_name nm \<longrightarrow> nm \<noteq> sfn_of body ext \<longrightarrow> nm \<noteq> sfn_of body' ext' \<longrightarrow> holds_file (load_vol sy a) nm ds bs \<longrightarrow>
        holds_file (load_vol sy' a) nm ds bs)"
proof -
  let ?s = "load_vol sy a" and ?o = "sfn_of body ext" and ?n = "sfn_of body' ext'" and ?es = "root_dir (load_vol sy a)"
  note r = mountedD [OF assms(1)]
  have k: "lookup ?o ?es = Some k" "?es ! k ! 11 AND AM_DIR = 0" "file_chain ?s (entry_clust (?es ! k)) cs"
    "unat (entry_size (?es ! k)) = length bs" "length bs \<le> length cs * bpc ?s" "content ?s cs 0 (length bs) = bs"
    using assms(4,7) by (auto simp: holds_file_def)
  have nm: "length ?n = 11" "live_name ?n" "live_name ?o" "?n \<noteq> ?o"
    using assms(2,3,5) k(1) sfn_first by (auto simp: name_ok_def live_name_def)
  let ?e = "?es ! k" and ?r = "renamed ?n (?es ! k)"
  have kl: "k < length ?es" "m < length ?es" "length ?e = 32" "m \<noteq> k"
    using lookup_less [OF k(1)] first_free_less [OF assms(6)] lookup_not_free [OF k(1) assms(6)] nm(3) by (auto simp: live_name_def)
  note rf = renamed_fields [OF nm(1) kl(3)]
  have sp: "rename_spec ?n k ?es = (FR_OK, ?es[m := ?r, k := ?e[0 := DDEM]])" using assms(5,6) by (simp add: rename_spec_def)
  obtain s' where u: "f_rename_vol sc ?s a (root_path body ext) (Some (root_path body' ext')) = Some (FR_OK, s')" "root_ok s'"
    "ddata ?s s'" "frees ?s [] s'" "root_dir s' = ?es[m := ?r, k := ?e[0 := DDEM]]"
    using f_rename_vol_root [OF r(1) _ _ _ _ _ _ _ _ _ _ k(1), of body' ext' sc a] assms(2,3) sp
    by (auto simp: wp_def root_path_def name_ok_def)
  have g: "good ?s s'" "bpc s' = bpc ?s" using u(3) good_bpc by (simp_all add: ddata_def)
  have r0: "?r ! 0 \<noteq> 0" "?e[0 := DDEM] ! 0 \<noteq> 0" "?e \<noteq> []" using live_first [OF nm(2) rf(3)] nm(2) kl(3) by (auto simp: live_name_def)
  have ch: "file_chain s' c ds \<and> content s' ds 0 (length bs) = content ?s ds 0 (length bs)"
    if "file_chain ?s c ds" "length bs \<le> length ds * bpc ?s" for c ds and bs :: buffer
    using chain_clears [OF frees_clears [OF u(4)] _ that(1)] content_ddata [OF u(3) r(2) that(1), of 0] that(2) by simp
  have vol: "?r ! 11 AND AM_VOL = 0" using lookup_attr [OF k(1)] unfolding rf(4) by (simp add: bit.conj_disj_distrib2)
  have dl: "take 11 (?e[0 := DDEM]) \<noteq> ?n" by (rule deleted_name [OF r0(3) nm(2)])
  have lk: "lookup ?n (root_dir s') = Some m" unfolding u(5)
    using nm(2) by (intro lookup_other [OF lookup_first_free [OF assms(6,5) rf(3) vol] kl(4) dl r0(2)]) (simp add: live_name_def)
  have h: "holds_file s' ?n cs bs"
    unfolding holds_file_def using lk u(5) kl rf k(2-6) ch [OF k(3,5)] g(2)
    by (intro exI [of _ m]) (simp add: bit.conj_disj_distrib2)
  have gone: "lookup ?o (root_dir s') = None" if "\<forall>j < length ?es. j \<noteq> k \<longrightarrow> take 11 (?es ! j) \<noteq> ?o"
    unfolding u(5) using deleted_name [OF r0(3) nm(3)] rf(3) nm(4) that kl by (intro lookup_absent) (auto simp: nth_list_update)
  have "holds_file s' nm ds bs" if o: "live_name nm" "nm \<noteq> ?o" "nm \<noteq> ?n" "holds_file ?s nm ds bs" for nm ds bs
  proof (rule holds_keep [OF o(4) g(2) _ ch])
    fix j assume j: "lookup nm ?es = Some j"
    have 1: "lookup nm (?es[m := ?r]) = Some j \<and> ?es[m := ?r] ! j = ?es ! j"
      using rf(3) o(3) r0(1) assms(6) by (intro lookup_put [OF j o(1)]) auto
    have "take 11 (?es[m := ?r] ! k) \<noteq> nm" using lookup_name [OF k(1)] o(2) kl(4) by simp
    then show "lookup nm (root_dir s') = Some j \<and> root_dir s' ! j = ?es ! j"
      unfolding u(5) using lookup_put [OF conjunct1 [OF 1] o(1) deleted_name [OF r0(3) o(1)] r0(2)] 1 by auto
  qed
  then show ?thesis
    using u(1,2,4,5) gone h mount_volume_mounted [OF assms(1,2)] mount_volume_mounted(1) [OF assms(1,3)] mounted_store [OF assms(1) u(2) g(1)]
    by (simp add: f_rename_def)
qed

section \<open>Opening with the contents discarded\<close>

lemma truncate_holds:
  assumes "mounted sy a" "name_ok body ext" "holds_file (load_vol sy a) (sfn_of body ext) cs bs"
    and k: "lookup (sfn_of body ext) (root_dir (load_vol sy a)) = Some k"
    and m: "(mode AND FA_OPEN_MASK) AND FA_CREATE_ALWAYS \<noteq> 0" "open_result (mode AND FA_OPEN_MASK) (root_dir (load_vol sy a) ! k) = FR_OK"
  shows "\<exists>fp' sy'. f_open sc sy (Some fp) (Some (root_path body ext)) mode = Some (FR_OK, Some fp', sy') \<and> mounted sy' a \<and>
     validate sy' (fobj fp') = (FR_OK, Some a) \<and> file_ok (load_vol sy' a) fp' [] \<and> objsize (fobj fp') = 0 \<and>
     holds_file (load_vol sy' a) (sfn_of body ext) [] [] \<and> clears (load_vol sy a) cs (load_vol sy' a) \<and>
     (\<forall>nm ds bs. live_name nm \<longrightarrow> nm \<noteq> sfn_of body ext \<longrightarrow> set ds \<inter> set cs = {} \<longrightarrow> holds_file (load_vol sy a) nm ds bs \<longrightarrow>
        holds_file (load_vol sy' a) nm ds bs)"
proof -
  let ?s = "load_vol sy a" and ?nm = "sfn_of body ext" and ?es = "root_dir (load_vol sy a)"
  note r = mountedD [OF assms(1)] and n = assms(2) [unfolded name_ok_def]
  have c: "file_chain ?s (entry_clust (?es ! k)) cs" using assms(3) k by (auto simp: holds_file_def)
  have nm: "live_name ?nm" using n sfn_first by (auto simp: live_name_def)
  have "wp (f_open_vol sc ?s a fp (root_path body ext) (mode AND FA_OPEN_MASK)) (\<lambda>(r, fp', s'). r = FR_OK \<and> root_ok s' \<and> clears ?s cs s' \<and>
     ddata ?s s' \<and> (\<exists>e. blank_entry (?es ! k) e \<and> root_dir s' = ?es[k := e] \<and> opened ?s a k e ((mode AND FA_OPEN_MASK) OR FA_MODIFIED) fp'))"
    unfolding root_path_def using n by (intro f_open_vol_truncates [OF r(1) _ _ _ _ _ k m c]) auto
  then obtain fp' s' e where o: "f_open_vol sc ?s a fp (root_path body ext) (mode AND FA_OPEN_MASK) = Some (FR_OK, fp', s')" "root_ok s'"
    "clears ?s cs s'" "ddata ?s s'" "blank_entry (?es ! k) e" "root_dir s' = ?es[k := e]"
    "opened ?s a k e ((mode AND FA_OPEN_MASK) OR FA_MODIFIED) fp'" by (auto simp: wp_def)
  have op: "f_open sc sy (Some fp) (Some (root_path body ext)) mode = Some (FR_OK, Some fp', store_vol sy a s')"
    using f_open_mounted [OF assms(1,2), of sc fp mode "\<lambda>y. y = (FR_OK, Some fp', store_vol sy a s')"] o(1) by (simp add: wp_def split: option.splits)
  have g: "good ?s s'" "lay s'" using o(4) by (simp_all add: ddata_def)
  note mt = mounted_store [OF assms(1) o(2) g(1)] and b = blank_fields [OF o(5) nm lookup_name [OF k]]
  have v: "validate (store_vol sy a s') (fobj fp') = (FR_OK, Some a)"
    using o(7) goodD(4) [OF g(1)] by (intro mounted_validate [OF mt]) (simp_all add: opened_def)
  have f: "file_ok s' fp' []" "objsize (fobj fp') = 0"
    using o(7) b(5,6) g(2) by (simp_all add: opened_def file_ok_def file_chain_def)
  have kl: "k < length ?es" by (rule lookup_less [OF k])
  have h: "holds_file s' ?nm [] []"
    unfolding holds_file_def o(6) using lookup_same [OF k b(1-3)] b kl
    by (intro exI [of _ k]) (simp add: file_chain_def content_def)
  have "holds_file s' nm ds bs"
    if "live_name nm" "nm \<noteq> ?nm" "set ds \<inter> set cs = {}" "holds_file ?s nm ds bs" for nm ds bs
    using b(1,2) lookup_name [OF k] that(2) chain_clears [OF o(3) that(3)]
    by (intro holds_put [OF that(4,1) r(2) o(4,6)]) auto
  then show ?thesis using op mt v f h o(3) by (intro exI [of _ fp'] exI [of _ "store_vol sy a s'"]) simp
qed

end
