(* ===== verification/FF_DirDemo.thy ===== *)
theory FF_DirDemo
  imports FF_FileMap
begin

text \<open>
  A volume on which the theorems about names are applied: the demonstration volume with the file \<open>AB.C\<close> in the
  first entry of the root directory, its start cluster 2 and its 700 bytes; behind it the end mark.
\<close>

definition demo_entry :: buffer where
  "demo_entry = bytes_of ''AB      C  '' @ [0x20, 0, 0, 0, 0, 0, 0, 0, 0, 0, 0, 0, 0, 0, 0, 2, 0, 0xBC, 2, 0, 0]"

definition demo_dir_vol :: vol where
  "demo_dir_vol = demo_vol\<lparr>vdisk := (\<lambda>i. if 1536 \<le> i \<and> i < 1568 then demo_entry ! (i - 1536) else demo_disk i)\<rparr>"

definition demo_dp :: DIR where
  "demo_dp = (blank_DIR 0)\<lparr>dobj := (dobj (blank_DIR 0))\<lparr>sclust := 0\<rparr>, fn := bytes_of ''AB      C  '' @ [NS_LAST]\<rparr>"

lemma demo_root_ok: "root_ok demo_dir_vol"
  by (auto simp: demo_dir_vol_def root_ok_def lay_def fat_inv_def vok_def coh_def gok_def fat_on_disk_def wr_def intro!: exI [of _ 0])

lemma upt_lits: "[0 ..< 16] = 0 # 1 # [2 ..< 16 :: nat]"
  by code_simp

lemma demo_root_dir: "root_dir demo_dir_vol = dentry demo_dir_vol 0 # dentry demo_dir_vol 1 # map (dentry demo_dir_vol) [2 ..< 16]"
proof -
  have "unat (n_rootdir demo_dir_vol) = 16" by (simp add: demo_dir_vol_def)
  then show ?thesis by (simp only: root_dir_def upt_lits list.map)
qed

lemma demo_vbyte: "vbyte demo_dir_vol (dsect demo_dir_vol 0) j = vdisk demo_dir_vol (1536 + j)"
  "vbyte demo_dir_vol (dsect demo_dir_vol (Suc 0)) j = vdisk demo_dir_vol (1536 + j)"
  by (simp_all add: demo_dir_vol_def dsect_def vbyte_def)

lemma length_demo_entry: "length demo_entry = 32"
  by (simp add: demo_entry_def bytes_of_def)

lemma demo_dentry: "dentry demo_dir_vol 0 = demo_entry" "dentry demo_dir_vol 1 ! 0 = 0"
proof -
  show "dentry demo_dir_vol 0 = demo_entry"
    by (rule nth_equalityI) (simp_all add: length_demo_entry demo_vbyte, simp add: demo_dir_vol_def)
  show "dentry demo_dir_vol 1 ! 0 = 0" by (simp add: demo_vbyte) (simp add: demo_dir_vol_def demo_disk_def)
qed

lemma demo_entry_fields: "take 11 demo_entry = bytes_of ''AB      C  ''" "demo_entry ! 0 = 0x41" "demo_entry ! 11 = 0x20"
  "entry_clust demo_entry = 2" "entry_size demo_entry = 700"
  by (simp_all add: demo_entry_def bytes_of_def entry_clust_def entry_size_def)

lemma demo_lookup:
  "lookup nm (root_dir demo_dir_vol) = (if nm = bytes_of ''AB      C  '' then Some 0 else None)"
  using demo_dentry demo_entry_fields by (simp add: demo_root_dir del: nth_dentry)

lemma demo_first_free: "first_free (root_dir demo_dir_vol) = Some 1"
  using demo_dentry demo_entry_fields by (simp add: demo_root_dir del: nth_dentry)

lemma demo_root_0: "root_dir demo_dir_vol ! 0 = demo_entry"
  using demo_dentry by (simp add: demo_root_dir)

section \<open>The volume, mounted\<close>

definition demo_dir_sys :: sys where
  "demo_dir_sys = store_vol demo_sys 0 demo_dir_vol"

lemma demo_dir_load [simp]: "load_vol demo_dir_sys 0 = demo_dir_vol"
  by (simp add: demo_dir_sys_def)

lemma demo_mounted: "mounted demo_dir_sys 0"
proof -
  have "fs_type demo_dir_vol = 1" by (simp add: demo_dir_vol_def)
  then show ?thesis using demo_root_ok by (simp add: mounted_def) (simp add: demo_dir_sys_def demo_sys_def)
qed

lemma demo_dir_entries: "fat_entry demo_dir_vol 2 = 3" "fat_entry demo_dir_vol 3 = 0xFFF" "fat_entry demo_dir_vol 4 = 0"
  "fat_entry demo_dir_vol 5 = 0" "n_fatent demo_dir_vol = 6" "bpc demo_dir_vol = 512"
  by (simp_all add: demo_dir_vol_def fat_entry_def entry_of_def fat_byte_def vbyte_def demo_disk_def bpc_def)

lemma demo_dir_free_ok: "free_ok demo_dir_vol"
  by (simp add: free_ok_def demo_dir_vol_def)

lemma demo_dir_sane: "sane demo_dir_vol"
  unfolding sane_def demo_dir_entries(5)
proof (intro allI impI)
  fix c :: DWORD assume "2 \<le> c" "c < 6"
  then consider "c = 2" | "c = 3" | "c = 4" | "c = 5" using demo_clusters [of c] by fastforce
  then show "fat_entry demo_dir_vol c \<noteq> 1" by cases (simp_all add: demo_dir_entries)
qed

lemma demo_holds: "holds_file demo_dir_vol (bytes_of ''AB      C  '') [2, 3] (content demo_dir_vol [2, 3] 0 700)"
  unfolding holds_file_def
  by (intro exI [of _ 0])
    (simp add: demo_lookup demo_root_0 demo_entry_fields demo_dir_entries file_chain_def)

lemma demo_names: "name_ok (bytes_of ''ab'') (bytes_of ''c'')" "name_ok (bytes_of ''x'') []"
  "sfn_of (bytes_of ''ab'') (bytes_of ''c'') = bytes_of ''AB      C  ''" "sfn_of (bytes_of ''x'') [] = bytes_of ''X          ''"
proof -
  show "name_ok (bytes_of ''ab'') (bytes_of ''c'')" "name_ok (bytes_of ''x'') []"
    by (simp_all add: name_ok_def name_char_def bytes_of_def IsSeparator_def sfn_illegal_def)
  show "sfn_of (bytes_of ''ab'') (bytes_of ''c'') = bytes_of ''AB      C  ''" "sfn_of (bytes_of ''x'') [] = bytes_of ''X          ''"
    by code_simp+
qed

lemma demo_new: "lookup (bytes_of ''X          '') (root_dir demo_dir_vol) = None"
  unfolding demo_lookup by (simp add: bytes_of_def)

end
