(* ===== verification/Props_Entry.thy ===== *)
theory Props_Entry
  imports FF_DirDemo
begin

text \<open>
  Properties of files by their names, for the calls of the interface on a mounted FAT12 or FAT16 volume and the names of the
  fixed root directory: the directory is a map from names to files, and each call is an update of this map.
\<close>

section \<open>The life of a file\<close>

text \<open>C2: a file that is created, written and closed is there when it is opened by its name again: \<open>f_open\<close>,
  \<open>f_write\<close> and \<open>f_close\<close> succeed, everything is written unless the volume is full, and a later \<open>f_open\<close> with \<open>f_read\<close>
  through another object returns the bytes that were written, up to the size of the request.\<close>

theorem file_persists:
  fixes btw btr :: UINT
  assumes "mounted sy a" "name_ok body ext" "lookup (sfn_of body ext) (root_dir (load_vol sy a)) = None"
    and "first_free (root_dir (load_vol sy a)) = Some k" "free_ok (load_vol sy a)" "sane (load_vol sy a)"
    and "(mode AND FA_OPEN_MASK) AND FA_NEW \<noteq> 0" "(mode AND FA_OPEN_MASK) AND FA_WRITE \<noteq> 0"
    and "unat btw \<le> length buff" "unat btr \<le> length rbuf"
  shows "\<exists>bw sy' br b sy''. store_file sc sy fp (root_path body ext) mode buff btw = Some ([FR_OK, FR_OK, FR_OK], bw, sy') \<and>
     unat bw \<le> unat btw \<and> (bw = btw \<or> free_set (load_vol sy' a) = {}) \<and>
     fetch_file sc sy' fp' (root_path body ext) rbuf btr = Some ([FR_OK, FR_OK], br, b, sy'') \<and>
     unat br = min (unat btr) (unat bw) \<and> take (unat br) b = take (unat br) buff"
proof -
  obtain bw sy' cs where s: "store_file sc sy fp (root_path body ext) mode buff btw = Some ([FR_OK, FR_OK, FR_OK], bw, sy')"
    "unat bw \<le> unat btw" "bw = btw \<or> free_set (load_vol sy' a) = {}" "mounted sy' a"
    "holds_file (load_vol sy' a) (sfn_of body ext) cs (take (unat bw) buff)"
    using store_holds [OF assms(1-9)] by blast
  have "length (take (unat bw) buff) = unat bw" using s(2) assms(9) by simp
  then show ?thesis using s fetch_holds [OF s(4) assms(2) s(5) assms(10), of sc fp'] by auto
qed

theorem file_persists_witness:
  "\<exists>bw sy' br b sy''. store_file True demo_dir_sys demo_file (root_path (bytes_of ''x'') []) (FA_CREATE_NEW OR FA_WRITE) [1, 2, 3] 3 =
       Some ([FR_OK, FR_OK, FR_OK], bw, sy') \<and>
     unat bw \<le> unat (3 :: UINT) \<and> (bw = 3 \<or> free_set (load_vol sy' 0) = {}) \<and>
     fetch_file True sy' demo_file (root_path (bytes_of ''x'') []) [0, 0, 0, 0] 4 = Some ([FR_OK, FR_OK], br, b, sy'') \<and>
     unat br = min (unat (4 :: UINT)) (unat bw) \<and> take (unat br) b = take (unat br) [1, 2, 3]"
  by (rule file_persists [OF demo_mounted demo_names(2)])
    (simp_all add: demo_names demo_new demo_first_free demo_dir_free_ok demo_dir_sane)

text \<open>C5: creating, writing and closing a file adds it to the map and keeps every other file of the directory:
  name, chain and bytes.\<close>

theorem store_file_refines:
  fixes btw :: UINT
  assumes "mounted sy a" "name_ok body ext" "lookup (sfn_of body ext) (root_dir (load_vol sy a)) = None"
    and "first_free (root_dir (load_vol sy a)) = Some k" "free_ok (load_vol sy a)" "sane (load_vol sy a)"
    and "(mode AND FA_OPEN_MASK) AND FA_NEW \<noteq> 0" "(mode AND FA_OPEN_MASK) AND FA_WRITE \<noteq> 0"
    and "unat btw \<le> length buff" "live_name nm" "nm \<noteq> sfn_of body ext" "holds_file (load_vol sy a) nm ds bs"
  shows "\<exists>bw sy' cs. store_file sc sy fp (root_path body ext) mode buff btw = Some ([FR_OK, FR_OK, FR_OK], bw, sy') \<and> mounted sy' a \<and>
     holds_file (load_vol sy' a) (sfn_of body ext) cs (take (unat bw) buff) \<and> holds_file (load_vol sy' a) nm ds bs"
  using store_holds [OF assms(1-9)] assms(10-12) by blast

theorem store_file_refines_witness:
  "\<exists>bw sy' cs. store_file True demo_dir_sys demo_file (root_path (bytes_of ''x'') []) (FA_CREATE_NEW OR FA_WRITE) [1, 2, 3] 3 =
       Some ([FR_OK, FR_OK, FR_OK], bw, sy') \<and> mounted sy' 0 \<and>
     holds_file (load_vol sy' 0) (sfn_of (bytes_of ''x'') []) cs (take (unat bw) [1, 2, 3]) \<and>
     holds_file (load_vol sy' 0) (bytes_of ''AB      C  '') [2, 3] (content demo_dir_vol [2, 3] 0 700)"
  by (rule store_file_refines [OF demo_mounted demo_names(2)])
    (simp_all add: demo_names demo_new demo_first_free demo_dir_free_ok demo_dir_sane demo_holds live_name_def, simp_all add: bytes_of_def)

section \<open>Opening\<close>

text \<open>C9: \<open>f_open\<close> with a creating mode on a name that is not in the directory takes the first free entry for
  the name, gives an empty file whose object is valid, and keeps the FAT and every other entry; without a free entry it
  returns \<open>FR_DENIED\<close> and changes neither the directory nor the FAT.\<close>

theorem f_open_creates:
  assumes "mounted sy a" "name_ok body ext" "lookup (sfn_of body ext) (root_dir (load_vol sy a)) = None"
    and "(mode AND FA_OPEN_MASK) AND FA_NEW \<noteq> 0"
  shows "\<exists>r fp' sy'. f_open sc sy (Some fp) (Some (root_path body ext)) mode = Some (r, Some fp', sy') \<and>
     mounted sy' a \<and> same_table (load_vol sy a) (load_vol sy' a) \<and>
     (case first_free (root_dir (load_vol sy a)) of
        None \<Rightarrow> r = FR_DENIED \<and> root_dir (load_vol sy' a) = root_dir (load_vol sy a) \<and> ofs_ptr (fobj fp') = None
      | Some k \<Rightarrow> r = FR_OK \<and> (\<exists>e. root_dir (load_vol sy' a) = (root_dir (load_vol sy a))[k := e]) \<and>
          holds_file (load_vol sy' a) (sfn_of body ext) [] [] \<and> validate sy' (fobj fp') = (FR_OK, Some a) \<and>
          file_ok (load_vol sy' a) fp' [] \<and> objsize (fobj fp') = 0)"
proof (cases "first_free (root_dir (load_vol sy a))")
  case None
  then show ?thesis using open_denied [OF assms None, of sc fp] by fastforce
next
  case (Some k)
  then show ?thesis using create_holds [OF assms Some, of sc fp] by fastforce
qed

theorem f_open_creates_witness:
  "\<exists>r fp' sy'. f_open True demo_dir_sys (Some demo_file) (Some (root_path (bytes_of ''x'') [])) (FA_CREATE_NEW OR FA_WRITE) = Some (r, Some fp', sy') \<and>
     mounted sy' 0 \<and> same_table (load_vol demo_dir_sys 0) (load_vol sy' 0) \<and>
     (case first_free (root_dir (load_vol demo_dir_sys 0)) of
        None \<Rightarrow> r = FR_DENIED \<and> root_dir (load_vol sy' 0) = root_dir (load_vol demo_dir_sys 0) \<and> ofs_ptr (fobj fp') = None
      | Some k \<Rightarrow> r = FR_OK \<and> (\<exists>e. root_dir (load_vol sy' 0) = (root_dir (load_vol demo_dir_sys 0))[k := e]) \<and>
          holds_file (load_vol sy' 0) (sfn_of (bytes_of ''x'') []) [] [] \<and> validate sy' (fobj fp') = (FR_OK, Some 0) \<and>
          file_ok (load_vol sy' 0) fp' [] \<and> objsize (fobj fp') = 0)"
  by (rule f_open_creates [OF demo_mounted demo_names(2)]) (simp_all add: demo_names demo_new)

text \<open>C10: \<open>f_open\<close> on a name that is in the directory, with a mode that has neither \<open>FA_CREATE_ALWAYS\<close> (which
  discards the file) nor \<open>FA_SEEKEND\<close> (the bit that \<open>FA_OPEN_APPEND\<close> adds, which follows the chain), changes neither the directory nor the FAT.  The result is that of the attributes and the mode: \<open>FR_DENIED\<close> for a directory or a read-only
  file that is to be created or written, \<open>FR_EXIST\<close> for \<open>FA_CREATE_NEW\<close>, \<open>FR_NO_FILE\<close> for a directory that is to be
  opened, otherwise \<open>FR_OK\<close> with a valid object that has the start cluster and the size of the entry; after
  an error the object is invalid.\<close>

theorem f_open_existing:
  assumes "mounted sy a" "name_ok body ext" "lookup (sfn_of body ext) (root_dir (load_vol sy a)) = Some k"
    and "(mode AND FA_OPEN_MASK) AND (FA_CREATE_ALWAYS OR FA_SEEKEND) = 0"
  defines "e \<equiv> root_dir (load_vol sy a) ! k" and "m \<equiv> mode AND FA_OPEN_MASK"
  shows "\<exists>fp' sy'. f_open sc sy (Some fp) (Some (root_path body ext)) mode = Some (open_result m e, Some fp', sy') \<and>
     mounted sy' a \<and> root_dir (load_vol sy' a) = root_dir (load_vol sy a) \<and> same_table (load_vol sy a) (load_vol sy' a) \<and>
     (if open_result m e = FR_OK
      then validate sy' (fobj fp') = (FR_OK, Some a) \<and> sclust (fobj fp') = entry_clust e \<and> objsize (fobj fp') = entry_size e \<and>
        fptr fp' = 0 \<and> fflag fp' = m
      else ofs_ptr (fobj fp') = None)"
proof -
  note r = mountedD [OF assms(1)]
  obtain fp' s' where o: "f_open sc sy (Some fp) (Some (root_path body ext)) mode = Some (open_result m e, Some fp', store_vol sy a s')"
    "rootstep (load_vol sy a) s'" "if open_result m e = FR_OK then opened (load_vol sy a) a k e m fp' else ofs_ptr (fobj fp') = None"
    using open_reads [OF assms(1-4), of sc fp] unfolding e_def m_def by blast
  have g: "good (load_vol sy a) s'" "same_table (load_vol sy a) s'" using o(2) dstep_facts(1) by (auto simp: rootstep_def)
  note r' = rootstep_root [OF o(2) r(1)] 
  have m': "mounted (store_vol sy a s') a" using mounted_store [OF assms(1) _ g(1)] r' by simp
  have "validate (store_vol sy a s') (fobj fp') = (FR_OK, Some a)" if "open_result m e = FR_OK"
    using o(3) that goodD(4) [OF g(1)] by (intro mounted_validate [OF m']) (simp_all add: opened_def)
  then show ?thesis using o(1,3) m' r' g(2) by (auto simp: opened_def)
qed

theorem f_open_existing_witness:
  "\<exists>fp' sy'. f_open True demo_dir_sys (Some demo_file) (Some (root_path (bytes_of ''ab'') (bytes_of ''c''))) (FA_READ OR FA_CREATE_NEW) =
       Some (open_result ((FA_READ OR FA_CREATE_NEW) AND FA_OPEN_MASK) (root_dir (load_vol demo_dir_sys 0) ! 0), Some fp', sy') \<and>
     mounted sy' 0 \<and> root_dir (load_vol sy' 0) = root_dir (load_vol demo_dir_sys 0) \<and> same_table (load_vol demo_dir_sys 0) (load_vol sy' 0) \<and>
     (if open_result ((FA_READ OR FA_CREATE_NEW) AND FA_OPEN_MASK) (root_dir (load_vol demo_dir_sys 0) ! 0) = FR_OK
      then validate sy' (fobj fp') = (FR_OK, Some 0) \<and> sclust (fobj fp') = entry_clust (root_dir (load_vol demo_dir_sys 0) ! 0) \<and>
        objsize (fobj fp') = entry_size (root_dir (load_vol demo_dir_sys 0) ! 0) \<and>
        fptr fp' = 0 \<and> fflag fp' = (FA_READ OR FA_CREATE_NEW) AND FA_OPEN_MASK
      else ofs_ptr (fobj fp') = None)"
  by (rule f_open_existing [OF demo_mounted demo_names(1)]) (simp_all add: demo_names demo_lookup)

text \<open>C8: \<open>f_open\<close> with \<open>FA_CREATE_ALWAYS\<close> on a file that may be written leaves an empty file with this
  name and a valid object for it, frees exactly the clusters of the old chain, and keeps every other file.\<close>

theorem f_open_truncates:
  assumes "mounted sy a" "name_ok body ext" "holds_file (load_vol sy a) (sfn_of body ext) cs bs"
    and "lookup (sfn_of body ext) (root_dir (load_vol sy a)) = Some k"
    and "(mode AND FA_OPEN_MASK) AND FA_CREATE_ALWAYS \<noteq> 0" "open_result (mode AND FA_OPEN_MASK) (root_dir (load_vol sy a) ! k) = FR_OK"
  shows "\<exists>fp' sy'. f_open sc sy (Some fp) (Some (root_path body ext)) mode = Some (FR_OK, Some fp', sy') \<and> mounted sy' a \<and>
     validate sy' (fobj fp') = (FR_OK, Some a) \<and> file_ok (load_vol sy' a) fp' [] \<and> objsize (fobj fp') = 0 \<and>
     holds_file (load_vol sy' a) (sfn_of body ext) [] [] \<and> clears (load_vol sy a) cs (load_vol sy' a) \<and>
     (\<forall>nm ds bs. live_name nm \<longrightarrow> nm \<noteq> sfn_of body ext \<longrightarrow> set ds \<inter> set cs = {} \<longrightarrow> holds_file (load_vol sy a) nm ds bs \<longrightarrow>
        holds_file (load_vol sy' a) nm ds bs)"
  by (rule truncate_holds [OF assms])

theorem f_open_truncates_witness:
  "\<exists>fp' sy'. f_open True demo_dir_sys (Some demo_file) (Some (root_path (bytes_of ''ab'') (bytes_of ''c''))) (FA_CREATE_ALWAYS OR FA_WRITE) =
       Some (FR_OK, Some fp', sy') \<and> mounted sy' 0 \<and>
     validate sy' (fobj fp') = (FR_OK, Some 0) \<and> file_ok (load_vol sy' 0) fp' [] \<and> objsize (fobj fp') = 0 \<and>
     holds_file (load_vol sy' 0) (sfn_of (bytes_of ''ab'') (bytes_of ''c'')) [] [] \<and> clears (load_vol demo_dir_sys 0) [2, 3] (load_vol sy' 0) \<and>
     (\<forall>nm ds bs. live_name nm \<longrightarrow> nm \<noteq> sfn_of (bytes_of ''ab'') (bytes_of ''c'') \<longrightarrow> set ds \<inter> set [2, 3] = {} \<longrightarrow>
        holds_file (load_vol demo_dir_sys 0) nm ds bs \<longrightarrow> holds_file (load_vol sy' 0) nm ds bs)"
  by (rule f_open_truncates [OF demo_mounted demo_names(1), where k = 0 and bs = "content demo_dir_vol [2, 3] 0 700"])
    (simp_all add: demo_names demo_lookup demo_holds demo_root_0 demo_entry_fields open_result_def)

section \<open>Deleting and renaming\<close>

text \<open>C6: \<open>f_unlink\<close> of a file that is not read-only marks its entry as deleted and changes no other one, so that
  the name is not found any more (unless the directory has it twice), frees exactly the clusters of its chain, keeps the count of free clusters, and keeps every other file: name, chain and bytes.\<close>

theorem f_unlink_deletes:
  assumes "mounted sy a" "name_ok body ext" "holds_file (load_vol sy a) (sfn_of body ext) cs bs"
    and "lookup (sfn_of body ext) (root_dir (load_vol sy a)) = Some k" "root_dir (load_vol sy a) ! k ! 11 AND AM_RDO = 0"
  shows "\<exists>sy'. f_unlink sc sy (Some (root_path body ext)) = Some (FR_OK, sy') \<and> mounted sy' a \<and>
     root_dir (load_vol sy' a) = (root_dir (load_vol sy a))[k := (root_dir (load_vol sy a) ! k)[0 := DDEM]] \<and>
     (lookup (sfn_of body ext) (drop (Suc k) (root_dir (load_vol sy a))) = None \<longrightarrow>
        lookup (sfn_of body ext) (root_dir (load_vol sy' a)) = None) \<and>
     frees (load_vol sy a) cs (load_vol sy' a) \<and>
     (\<forall>nm ds bs. live_name nm \<longrightarrow> nm \<noteq> sfn_of body ext \<longrightarrow> set ds \<inter> set cs = {} \<longrightarrow> holds_file (load_vol sy a) nm ds bs \<longrightarrow>
        holds_file (load_vol sy' a) nm ds bs)"
  by (rule unlink_holds [OF assms])

theorem f_unlink_deletes_witness:
  "\<exists>sy'. f_unlink True demo_dir_sys (Some (root_path (bytes_of ''ab'') (bytes_of ''c''))) = Some (FR_OK, sy') \<and> mounted sy' 0 \<and>
     root_dir (load_vol sy' 0) = (root_dir (load_vol demo_dir_sys 0))[0 := (root_dir (load_vol demo_dir_sys 0) ! 0)[0 := DDEM]] \<and>
     (lookup (sfn_of (bytes_of ''ab'') (bytes_of ''c'')) (drop (Suc 0) (root_dir (load_vol demo_dir_sys 0))) = None \<longrightarrow>
        lookup (sfn_of (bytes_of ''ab'') (bytes_of ''c'')) (root_dir (load_vol sy' 0)) = None) \<and>
     frees (load_vol demo_dir_sys 0) [2, 3] (load_vol sy' 0) \<and>
     (\<forall>nm ds bs. live_name nm \<longrightarrow> nm \<noteq> sfn_of (bytes_of ''ab'') (bytes_of ''c'') \<longrightarrow> set ds \<inter> set [2, 3] = {} \<longrightarrow>
        holds_file (load_vol demo_dir_sys 0) nm ds bs \<longrightarrow> holds_file (load_vol sy' 0) nm ds bs)"
  by (rule f_unlink_deletes [OF demo_mounted demo_names(1), where bs = "content demo_dir_vol [2, 3] 0 700"])
    (simp_all add: demo_names demo_lookup demo_holds demo_root_0 demo_entry_fields)

text \<open>C7: \<open>f_rename\<close> to a name that is not in the directory moves the file: the directory afterwards is the old one
  with the first free entry holding the new name with the fields of the old entry, and with the old entry marked as deleted; no other
  entry changes. So the new name has the chain and the bytes of the old one, the old name is not found any more (unless another slot of
  the directory carries it too), the FAT is as before, and every other file is kept.\<close>

theorem f_rename_moves:
  assumes "mounted sy a" "name_ok body ext" "name_ok body' ext'" "holds_file (load_vol sy a) (sfn_of body ext) cs bs"
    and "lookup (sfn_of body' ext') (root_dir (load_vol sy a)) = None" "first_free (root_dir (load_vol sy a)) = Some m"
    and "lookup (sfn_of body ext) (root_dir (load_vol sy a)) = Some k"
  shows "\<exists>sy'. f_rename sc sy (Some (root_path body ext)) (Some (root_path body' ext')) = Some (FR_OK, sy') \<and> mounted sy' a \<and>
     root_dir (load_vol sy' a) = (root_dir (load_vol sy a))
       [m := renamed (sfn_of body' ext') (root_dir (load_vol sy a) ! k), k := (root_dir (load_vol sy a) ! k)[0 := DDEM]] \<and>
     ((\<forall>j < length (root_dir (load_vol sy a)). j \<noteq> k \<longrightarrow> take 11 (root_dir (load_vol sy a) ! j) \<noteq> sfn_of body ext) \<longrightarrow>
        lookup (sfn_of body ext) (root_dir (load_vol sy' a)) = None) \<and>
     frees (load_vol sy a) [] (load_vol sy' a) \<and>
     holds_file (load_vol sy' a) (sfn_of body' ext') cs bs \<and>
     (\<forall>nm ds bs. live_name nm \<longrightarrow> nm \<noteq> sfn_of body ext \<longrightarrow> nm \<noteq> sfn_of body' ext' \<longrightarrow>
        holds_file (load_vol sy a) nm ds bs \<longrightarrow> holds_file (load_vol sy' a) nm ds bs)"
  by (rule rename_holds [OF assms])

theorem f_rename_moves_witness:
  "\<exists>sy'. f_rename True demo_dir_sys (Some (root_path (bytes_of ''ab'') (bytes_of ''c''))) (Some (root_path (bytes_of ''x'') [])) = Some (FR_OK, sy') \<and>
     mounted sy' 0 \<and>
     root_dir (load_vol sy' 0) = (root_dir (load_vol demo_dir_sys 0))
       [1 := renamed (sfn_of (bytes_of ''x'') []) (root_dir (load_vol demo_dir_sys 0) ! 0), 0 := (root_dir (load_vol demo_dir_sys 0) ! 0)[0 := DDEM]] \<and>
     ((\<forall>j < length (root_dir (load_vol demo_dir_sys 0)). j \<noteq> 0 \<longrightarrow> take 11 (root_dir (load_vol demo_dir_sys 0) ! j) \<noteq> sfn_of (bytes_of ''ab'') (bytes_of ''c'')) \<longrightarrow>
        lookup (sfn_of (bytes_of ''ab'') (bytes_of ''c'')) (root_dir (load_vol sy' 0)) = None) \<and>
     frees (load_vol demo_dir_sys 0) [] (load_vol sy' 0) \<and>
     holds_file (load_vol sy' 0) (sfn_of (bytes_of ''x'') []) [2, 3] (content demo_dir_vol [2, 3] 0 700) \<and>
     (\<forall>nm ds bs. live_name nm \<longrightarrow> nm \<noteq> sfn_of (bytes_of ''ab'') (bytes_of ''c'') \<longrightarrow> nm \<noteq> sfn_of (bytes_of ''x'') [] \<longrightarrow>
        holds_file (load_vol demo_dir_sys 0) nm ds bs \<longrightarrow> holds_file (load_vol sy' 0) nm ds bs)"
  by (rule f_rename_moves [OF demo_mounted demo_names(1,2)]) (simp_all add: demo_names demo_first_free demo_holds demo_lookup, simp add: bytes_of_def)

section \<open>Information\<close>

text \<open>C11: \<open>f_stat\<close> finds the name in the directory and reports the size and the attributes of its entry with the name
  in upper case, terminated by a null byte, or returns \<open>FR_NO_FILE\<close> and leaves the structure of the caller as it is; neither the
  directory nor the FAT changes.\<close>

theorem f_stat_reports:
  assumes "mounted sy a" "name_ok body ext" "length (fname fno) = 13"
  shows "\<exists>r fno' sy'. f_stat sc sy (Some (root_path body ext)) (Some fno) = Some (r, Some fno', sy') \<and>
     root_dir (load_vol sy' a) = root_dir (load_vol sy a) \<and> same_table (load_vol sy a) (load_vol sy' a) \<and>
     (case lookup (sfn_of body ext) (root_dir (load_vol sy a)) of
        None \<Rightarrow> r = FR_NO_FILE \<and> fno' = fno
      | Some k \<Rightarrow> r = FR_OK \<and> fno_fsize fno' = entry_size (root_dir (load_vol sy a) ! k) \<and>
          fattrib fno' = root_dir (load_vol sy a) ! k ! 11 AND AM_MASK \<and>
          take (length (name_str body ext)) (fname fno') = map to_upper (name_str body ext) \<and>
          fname fno' ! length (name_str body ext) = 0)"
proof -
  obtain r fno' s' where f: "f_stat sc sy (Some (root_path body ext)) (Some fno) = Some (r, Some fno', store_vol sy a s')"
    "rootstep (load_vol sy a) s'"
    "case lookup (sfn_of body ext) (root_dir (load_vol sy a)) of
        None \<Rightarrow> r = FR_NO_FILE \<and> fno' = fno
      | Some k \<Rightarrow> r = FR_OK \<and> info_of (root_dir (load_vol sy a) ! k) (name_str body ext) fno'"
    using f_stat_root [OF assms, of sc] by blast
  then show ?thesis
    using rootstep_root [OF f(2) mountedD(1) [OF assms(1)]]
    by (intro exI [of _ r] exI [of _ fno'] exI [of _ "store_vol sy a s'"]) (auto simp: rootstep_def info_of_def split: option.splits)
qed

theorem f_stat_reports_witness:
  "\<exists>r fno' sy'. f_stat True demo_dir_sys (Some (root_path (bytes_of ''ab'') (bytes_of ''c'')))
       (Some \<lparr>fno_fsize = 0, fdate = 0, ftime = 0, fattrib = 0, fname = replicate 13 0\<rparr>) = Some (r, Some fno', sy') \<and>
     root_dir (load_vol sy' 0) = root_dir (load_vol demo_dir_sys 0) \<and> same_table (load_vol demo_dir_sys 0) (load_vol sy' 0) \<and>
     (case lookup (sfn_of (bytes_of ''ab'') (bytes_of ''c'')) (root_dir (load_vol demo_dir_sys 0)) of
        None \<Rightarrow> r = FR_NO_FILE \<and> fno' = \<lparr>fno_fsize = 0, fdate = 0, ftime = 0, fattrib = 0, fname = replicate 13 0\<rparr>
      | Some k \<Rightarrow> r = FR_OK \<and> fno_fsize fno' = entry_size (root_dir (load_vol demo_dir_sys 0) ! k) \<and>
          fattrib fno' = root_dir (load_vol demo_dir_sys 0) ! k ! 11 AND AM_MASK \<and>
          take (length (name_str (bytes_of ''ab'') (bytes_of ''c''))) (fname fno') = map to_upper (name_str (bytes_of ''ab'') (bytes_of ''c'')) \<and>
          fname fno' ! length (name_str (bytes_of ''ab'') (bytes_of ''c'')) = 0)"
  by (rule f_stat_reports [OF demo_mounted demo_names(1)]) simp

end
