(* ===== verification/FF_FreeSpec.thy ===== *)
theory FF_FreeSpec
  imports FF_SeekSpec FF_DirApi
begin

text \<open>
  The scan of \<open>f_getfree\<close> over a FAT12 counts the free clusters.
\<close>

definition free_from :: "vol \<Rightarrow> DWORD \<Rightarrow> DWORD set" where
  "free_from s c = {d \<in> free_set s. c \<le> d}"

lemma free_from_finite [simp]: "finite (free_from s c)"
  by (simp add: free_from_def)

lemma free_from_2: "free_from s 2 = free_set s"
  by (auto simp: free_from_def free_set_def)

lemma free_from_step:
  assumes "2 \<le> c" "c < n_fatent s"
  shows "free_from s c = (if fat_entry s c = 0 then insert c (free_from s (c + 1)) else free_from s (c + 1))" "c \<notin> free_from s (c + 1)"
    "\<not> c + 1 < n_fatent s \<Longrightarrow> free_from s (c + 1) = {}"
proof -
  have u: "unat (c + 1) = unat c + 1" by (rule unat_Suc_less [OF assms(2)])
  have le: "c \<le> d \<longleftrightarrow> d = c \<or> c + 1 \<le> d" for d using u by (auto simp: word_le_nat_alt word_unat_eq_iff)
  have nc: "\<not> c + 1 \<le> c" using u by (simp add: word_le_nat_alt)
  show "free_from s c = (if fat_entry s c = 0 then insert c (free_from s (c + 1)) else free_from s (c + 1))"
    unfolding free_from_def free_set_def using assms le by auto
  show "c \<notin> free_from s (c + 1)" using nc by (simp add: free_from_def)
  show "free_from s (c + 1) = {}" if "\<not> c + 1 < n_fatent s"
    using that by (auto simp: free_from_def free_set_def)
qed

lemma card_free_less: "card (free_set s) < 2 ^ 32"
proof (cases "2 \<le> n_fatent s")
  case True
  have "card (free_set s) \<le> card {c. 2 \<le> c \<and> c < n_fatent s}" by (intro card_mono) (auto simp: free_set_def)
  also have "\<dots> = unat (n_fatent s) - 2" by (rule card_clusters [OF True])
  finally have "card (free_set s) \<le> unat (n_fatent s)" by simp
  also have "\<dots> < 2 ^ 32" using unat_32_less [of "n_fatent s"] by simp
  finally show ?thesis .
next
  case False
  then have "free_set s = {}" by (auto simp: free_set_def)
  then show ?thesis by simp
qed

lemma getfree_loop12_exact:
  assumes "fat_inv s" "sane s" "2 \<le> c" "c < n_fatent s" "unat nf + card (free_from s c) < 2 ^ 32"
  shows "wp (getfree_loop12 s c nf) (\<lambda>(r, n, s'). r = FR_OK \<and> same_table s s' \<and> unat n = unat nf + card (free_from s c))"
  using assms
proof (induction "unat (n_fatent s) - unat c" arbitrary: s c nf rule: less_induct)
  case less
  note fs = free_from_step [OF less.prems(3,4)]
  have u: "unat (c + 1) = unat c + 1" by (rule unat_Suc_less [OF less.prems(4)])
  let ?nf = "if fat_entry s c = 0 then nf + 1 else nf"
  have cd: "card (free_from s c) = (if fat_entry s c = 0 then 1 else 0) + card (free_from s (c + 1))" using fs(1,2) by simp
  have un: "unat ?nf = unat nf + (if fat_entry s c = 0 then 1 else 0)"
    using less.prems(5) cd by (auto simp: unat_plus)
  show ?case
    apply (subst getfree_loop12.simps)
    unfolding wp_bind
  proof (rule get_fat_same [OF less.prems(1)], goal_cases)
    case (1 s1)
    have n: "n_fatent s1 = n_fatent s" by (rule same_table_n [OF 1])
    have fr: "free_from s1 d = free_from s d" for d using same_table_free [OF 1] by (simp add: free_from_def)
    have nz: "fat_entry s c \<noteq> 1" "fat_entry s c \<noteq> 0xFFFFFFFF"
      using less.prems(2-4) by (simp_all add: sane_def)
    have rec: "wp (getfree_loop12 s1 (c + 1) ?nf) (\<lambda>(r, n, s'). r = FR_OK \<and> same_table s s' \<and> unat n = unat nf + card (free_from s c))"
      if lt: "c + 1 < n_fatent s"
    proof -
      have "wp (getfree_loop12 s1 (c + 1) ?nf) (\<lambda>(r, n, s'). r = FR_OK \<and> same_table s1 s' \<and> unat n = unat ?nf + card (free_from s1 (c + 1)))"
      proof (rule less.hyps)
        show "unat (n_fatent s1) - unat (c + 1) < unat (n_fatent s) - unat c" using less.prems(4) u n by (simp add: word_less_nat_alt)
        show "fat_inv s1" "sane s1" using 1 less.prems(2) same_table_sane [OF 1] by (simp_all add: same_table_def)
        show "2 \<le> c + 1" using less.prems(3) u by (simp add: word_le_nat_alt)
        show "c + 1 < n_fatent s1" using lt n by simp
        show "unat ?nf + card (free_from s1 (c + 1)) < 2 ^ 32" using less.prems(5) cd un fr by simp
      qed
      then show ?thesis by (rule wp_mono) (use cd un fr same_table_trans [OF 1] in auto)
    qed
    show ?case
      using less.prems(3,4) nz rec n 1 cd un fs(3) by (auto simp: Let_def)
  qed
qed

lemma f_getfree_vol_exact:
  assumes "fat_inv s" "sane s" "free_ok s" "fs_type s = FS_FAT12"
  shows "wp (f_getfree_vol s) (\<lambda>(r, n, s'). r = FR_OK \<and> n = Some (free_clst s') \<and> unat (free_clst s') = card (free_set s) \<and>
     free_set s' = free_set s \<and> geo s' = geo s \<and> (\<forall>c < n_fatent s. fat_entry s' c = fat_entry s c))"
proof (cases "free_clst s \<le> n_fatent s - 2")
  case True
  then have "unat (free_clst s) = card (free_set s)" using assms(3) by (auto simp: free_ok_def)
  then show ?thesis using True by (simp add: f_getfree_vol_def)
next
  case False
  have "3 \<le> unat (n_fatent s)" using assms(1) by (auto simp: fat_inv_def gok_def)
  then have n: "2 < n_fatent s" by (simp add: word_less_nat_alt)
  have "wp (getfree_loop12 s 2 0) (\<lambda>(r, n, s'). r = FR_OK \<and> same_table s s' \<and> unat n = card (free_set s))"
    by (rule wp_mono [OF getfree_loop12_exact [OF assms(1,2) order.refl n]]) (use card_free_less in \<open>auto simp: free_from_2\<close>)
  then obtain nf s' where g: "getfree_loop12 s 2 0 = Some (FR_OK, nf, s')" "same_table s s'" "unat nf = card (free_set s)"
    by (auto simp: wp_def)
  let ?s = "s'\<lparr>free_clst := nf, fsi_flag := fsi_flag s' OR 1\<rparr>"
  have "fat_byte ?s = fat_byte s'" by (rule ext) (simp add: fat_byte_def vbyte_def)
  then have e: "fat_entry ?s = fat_entry s'" by (intro ext) (simp add: fat_entry_def)
  have "free_set ?s = free_set s" using same_table_free [OF g(2)] by (simp add: free_set_def e)
  moreover have "geo ?s = geo s" using g(2) by (simp add: geo_def same_table_def fat_rest_def)
  ultimately show ?thesis using False assms(4) g e by (simp add: f_getfree_vol_def same_table_def)
qed

end
