(* ===== verification/Clean_Disk.thy ===== *)
theory Clean_Disk
  imports FF_Mount
begin

text \<open>
  The image \<open>clean_disk\<close> of \<open>clean_disk.c\<close>, which the harnesses that do not fuzz the image itself load
  into the device before each test case, and what mounting it gives: a FAT12 volume of 128 sectors with clusters
  of 4 sectors, two FATs of one sector, 512 root entries and 23 clusters.
\<close>

section \<open>The image\<close>

definition clean_boot :: buffer where
  "clean_boot =
    [0xEB, 0x3C, 0x90, 0x6D, 0x6B, 0x66, 0x73, 0x2E, 0x66, 0x61, 0x74, 0x00, 0x02, 0x04, 0x01, 0x00,
     0x02, 0x00, 0x02, 0x80, 0x00, 0xF8, 0x01, 0x00, 0x10, 0x00, 0x02, 0x00, 0x00, 0x00, 0x00, 0x00,
     0x00, 0x00, 0x00, 0x00, 0x80, 0x00, 0x29, 0x15, 0x5A, 0xC3, 0x0E, 0x54, 0x45, 0x53, 0x54, 0x20,
     0x20, 0x20, 0x20, 0x20, 0x20, 0x20, 0x46, 0x41, 0x54, 0x31, 0x32, 0x20, 0x20, 0x20, 0x0E, 0x1F,
     0xBE, 0x5B, 0x7C, 0xAC, 0x22, 0xC0, 0x74, 0x0B, 0x56, 0xB4, 0x0E, 0xBB, 0x07, 0x00, 0xCD, 0x10,
     0x5E, 0xEB, 0xF0, 0x32, 0xE4, 0xCD, 0x16, 0xCD, 0x19, 0xEB, 0xFE, 0x54, 0x68, 0x69, 0x73, 0x20,
     0x69, 0x73, 0x20, 0x6E, 0x6F, 0x74, 0x20, 0x61, 0x20, 0x62, 0x6F, 0x6F, 0x74, 0x61, 0x62, 0x6C,
     0x65, 0x20, 0x64, 0x69, 0x73, 0x6B, 0x2E, 0x20, 0x20, 0x50, 0x6C, 0x65, 0x61, 0x73, 0x65, 0x20,
     0x69, 0x6E, 0x73, 0x65, 0x72, 0x74, 0x20, 0x61, 0x20, 0x62, 0x6F, 0x6F, 0x74, 0x61, 0x62, 0x6C,
     0x65, 0x20, 0x66, 0x6C, 0x6F, 0x70, 0x70, 0x79, 0x20, 0x61, 0x6E, 0x64, 0x0D, 0x0A, 0x70, 0x72,
     0x65, 0x73, 0x73, 0x20, 0x61, 0x6E, 0x79, 0x20, 0x6B, 0x65, 0x79, 0x20, 0x74, 0x6F, 0x20, 0x74,
     0x72, 0x79, 0x20, 0x61, 0x67, 0x61, 0x69, 0x6E, 0x20, 0x2E, 0x2E, 0x2E, 0x20, 0x0D, 0x0A]"

definition clean_disk :: buffer where
  "clean_disk =
     clean_boot @ replicate 319 0 @ [0x55, 0xAA] @
     [0xF8, 0xFF, 0xFF] @ replicate 509 0 @
     [0xF8, 0xFF, 0xFF] @ replicate 509 0 @
     [0x54, 0x45, 0x53, 0x54, 0x20, 0x20, 0x20, 0x20, 0x20, 0x20, 0x20, 0x08, 0x00, 0x00, 0xC2, 0x91,
     0x12, 0x5D, 0x12, 0x5D, 0x00, 0x00, 0xC2, 0x91, 0x12, 0x5D] @
     replicate 63974 0"

lemma length_clean_boot [simp]: "length clean_boot = 191"
  by (simp add: clean_boot_def)

lemma length_clean_disk [simp]: "length clean_disk = 65536"
  by (simp add: clean_disk_def)

text \<open>The device after loading it.\<close>

definition clean_image :: disk where
  "clean_image = disk_store (\<lambda>_. 0) 0 clean_disk"

lemma load_clean: "fuzz_disk_load clean_disk = Some clean_image"
  by (simp add: fuzz_disk_load_def disk_put_def memread_def clean_image_def)

lemma clean_byte: "i < 65536 \<Longrightarrow> clean_image i = clean_disk ! i"
  by (simp add: clean_image_def disk_store_def)

section \<open>Mounting it\<close>

definition clean_fs :: "WORD \<Rightarrow> FATFS" where
  "clean_fs i =
     \<lparr>fs_type = FS_FAT12, pdrv = 0, n_fats = 2, wflag = 0, fsi_flag = 0x80, fs_id = i, n_rootdir = 512, csize = 4,
      last_clst = 0xFFFFFFFF, free_clst = 0xFFFFFFFF, n_fatent = 25, fsize = 1, volbase = 0, fatbase = 1, dirbase = 3,
      database = 35, winsect = 0, win = disk_bytes clean_image 0 512\<rparr>"

lemma clean_bpb:
  "clean_image 0 = 0xEB" "clean_image 11 = 0" "clean_image 12 = 2" "clean_image 13 = 4" "clean_image 14 = 1" "clean_image 15 = 0"
  "clean_image 16 = 2" "clean_image 17 = 0" "clean_image 18 = 2" "clean_image 19 = 0x80" "clean_image 20 = 0" "clean_image 22 = 1"
  "clean_image 23 = 0" "clean_image 32 = 0" "clean_image 33 = 0" "clean_image 34 = 0" "clean_image 35 = 0"
  "clean_image 510 = 0x55" "clean_image 511 = 0xAA"
  by (simp_all add: clean_byte clean_disk_def nth_append) (simp_all add: clean_boot_def)

lemma sector_nonempty: "disk_bytes d n 512 \<noteq> []"
  by (simp add: disk_bytes_def)

lemma check_fs_clean:
  assumes "length (win s) = 512" "vdisk s = clean_image"
  shows "check_fs s 0 = Some (0, s\<lparr>wflag := 0, winsect := 0, win := disk_bytes clean_image 0 512\<rparr>)"
proof -
  have "move_window (s\<lparr>wflag := 0, winsect := - 1\<rparr>) 0 = Some (FR_OK, s\<lparr>wflag := 0, winsect := 0, win := disk_bytes clean_image 0 512\<rparr>)"
    using assms by (simp add: move_window_def sync_window_def disk_read_1)
  then show ?thesis
    by (simp add: check_fs_def ld_word_def ld_dword_def ldb_def memeq_def memread_def clean_bpb sector_nonempty)
qed

lemma find_volume_clean:
  assumes "length (win s) = 512" "vdisk s = clean_image"
  shows "find_volume s 0 = Some (0, s\<lparr>wflag := 0, winsect := 0, win := disk_bytes clean_image 0 512\<rparr>)"
  by (simp add: find_volume_def check_fs_clean [OF assms])

lemma mount_bpb_clean:
  assumes "win s = disk_bytes clean_image 0 512"
  shows "mount_bpb s 0 = Some (FR_OK, FS_FAT12,
     s\<lparr>fsize := 1, n_fats := 2, csize := 4, n_rootdir := 512, n_fatent := 25, volbase := 0, fatbase := 1, database := 35,
       dirbase := 3, last_clst := 0xFFFFFFFF, free_clst := 0xFFFFFFFF, fsi_flag := 0x80\<rparr>)"
  by (simp add: mount_bpb_def ld_word_def ld_dword_def ldb_def clean_bpb sector_nonempty assms Let_def fat_subtype_def
      mount_limits_def mount_fsinfo_def)

lemma mount_fs_clean:
  assumes "length (win s) = 512" "vdisk s = clean_image" "pdrv s = 0"
  shows "mount_fs s i 0 = Some (FR_OK, i + 1, FATFS.extend (clean_fs (i + 1)) (vol.fields clean_image))"
proof -
  have e: "s\<lparr>wflag := 0, winsect := 0, win := disk_bytes clean_image 0 512, fsize := 1, n_fats := 2, csize := 4,
      n_rootdir := 512, n_fatent := 25, volbase := 0, fatbase := 1, database := 35, dirbase := 3, last_clst := 0xFFFFFFFF,
      free_clst := 0xFFFFFFFF, fsi_flag := 0x80,
      fs_type := FS_FAT12, fs_id := j\<rparr> = FATFS.extend (clean_fs j) (vol.fields clean_image)" for j
    using assms(2,3) by (cases s) (simp add: clean_fs_def FATFS.defs vol.defs)
  show ?thesis
    using assms(1,2) e [of "i + 1"] by (simp add: mount_fs_def disk_initialize_def find_volume_clean mount_bpb_clean Let_def)
qed

text \<open>The drive prefix of the harnesses.\<close>

definition RAM :: buffer where
  "RAM = bytes_of ''RAM:'' @ [0]"

lemma RAM_string [simp]: "cstring RAM"
  by (simp add: RAM_def cstring_def)

lemma RAM_drive [simp]: "get_ldnumber (Some RAM) = Some (0, Some [0])"
  by code_simp

definition clean_sys :: "sys \<Rightarrow> sys" where
  "clean_sys sy = sy\<lparr>FatFs := Some 0, objs := (objs sy)(0 := clean_fs (Fsid sy + 1)), Fsid := Fsid sy + 1\<rparr>"

lemma f_mount_clean:
  assumes "length (win (objs sy 0)) = 512" "sdisk sy = clean_image" "FatFs sy = None \<or> FatFs sy = Some 0"
  shows "f_mount sy (Some 0) (Some RAM) 1 = Some (FR_OK, clean_sys sy)"
proof -
  let ?o = "(objs sy 0)\<lparr>pdrv := 0, fs_type := 0\<rparr>"
  let ?sy = "sy\<lparr>objs := (objs sy)(0 := ?o), FatFs := Some 0\<rparr>"
  have m: "mount_fs (load_vol ?sy 0) (Fsid sy) 0 = Some (FR_OK, Fsid sy + 1, FATFS.extend (clean_fs (Fsid sy + 1)) (vol.fields clean_image))"
    using assms(1,2) by (intro mount_fs_clean) (simp_all add: load_vol_def FATFS.defs vol.defs)
  have st: "(store_vol ?sy 0 (FATFS.extend (clean_fs j) (vol.fields clean_image)))\<lparr>Fsid := j\<rparr> =
      sy\<lparr>FatFs := Some 0, objs := (objs sy)(0 := clean_fs j), Fsid := j\<rparr>" for j
    using assms(2) by (cases sy) (simp add: store_vol_def clean_fs_def FATFS.defs vol.defs)
  have "mount_volume ?sy (Some RAM) 0 = Some (FR_OK, Some 0, Some [0], clean_sys sy)"
    using m st [of "Fsid sy + 1"] by (simp add: mount_volume_def disk_status_def clean_sys_def)
  then show ?thesis
    using assms(3) by (auto simp: f_mount_def)
qed

end
