(* ===== verification/Diskio_Spec.thy ===== *)
theory Diskio_Spec
  imports Diskio
begin

text \<open>
  The contract of the block device below the module, as the locale \<open>block_device\<close>: sectors keep
  the bytes of the last write, and a request that is not within the device is refused without an
  effect.  The interpretation shows it for the functions of \<open>diskio_fuzz.c\<close>.
\<close>

definition fits :: "nat \<Rightarrow> LBA_t \<Rightarrow> UINT \<Rightarrow> bool" where
  "fits lim n c \<longleftrightarrow> unat n < lim \<and> unat n + unat c \<le> lim"

locale block_device =
  fixes lim :: nat and byte_at :: "'d \<Rightarrow> nat \<Rightarrow> nat \<Rightarrow> BYTE"
    and rd :: "'d \<Rightarrow> buffer \<Rightarrow> LBA_t \<Rightarrow> UINT \<Rightarrow> (DRESULT \<times> buffer) option"
    and wt :: "'d \<Rightarrow> buffer \<Rightarrow> LBA_t \<Rightarrow> UINT \<Rightarrow> (DRESULT \<times> 'd) option"
  assumes read_law: "fits lim n c \<Longrightarrow> unat c * 512 \<le> length b \<Longrightarrow>
      wp (rd d b n c) (\<lambda>(r, b'). r = RES_OK \<and> length b' = length b \<and>
        (\<forall>i < unat c. \<forall>j < 512. b' ! (i * 512 + j) = byte_at d (unat n + i) j) \<and>
        drop (unat c * 512) b' = drop (unat c * 512) b)"
    and write_law: "fits lim n c \<Longrightarrow> unat c * 512 \<le> length b \<Longrightarrow>
      wp (wt d b n c) (\<lambda>(r, d'). r = RES_OK \<and>
        (\<forall>k < lim. \<forall>j < 512. byte_at d' k j =
           (if unat n \<le> k \<and> k < unat n + unat c then b ! ((k - unat n) * 512 + j) else byte_at d k j)))"
    and refuse_law: "\<not> fits lim n c \<Longrightarrow> rd d b n c = Some (RES_PARERR, b) \<and> wt d b n c = Some (RES_PARERR, d)"
begin

text \<open>A buffer with the bytes of a range of sectors is determined by them.\<close>

lemma sectors_eq:
  assumes "length b = c * 512" "length b' = c * 512"
    and "\<And>i j. i < c \<Longrightarrow> j < 512 \<Longrightarrow> b ! (i * 512 + j) = b' ! (i * 512 + j)"
  shows "b = (b' :: buffer)"
proof (rule nth_equalityI)
  fix i assume "i < length b"
  then have "i div 512 < c" using assms(1) by (simp add: less_mult_imp_div_less)
  from assms(3) [OF this, of "i mod 512"] show "b ! i = b' ! i" by simp
qed (use assms in simp)

lemma read_after_write:
  assumes "fits lim n c" "length b = unat c * 512" "length b0 = unat c * 512"
  shows "\<exists>d'. wt d b n c = Some (RES_OK, d') \<and> rd d' b0 n c = Some (RES_OK, b)"
proof -
  obtain d' where w: "wt d b n c = Some (RES_OK, d')"
    "\<And>k j. k < lim \<Longrightarrow> j < 512 \<Longrightarrow> byte_at d' k j =
       (if unat n \<le> k \<and> k < unat n + unat c then b ! ((k - unat n) * 512 + j) else byte_at d k j)"
    using write_law [OF assms(1), of b d] assms(2) by (auto simp: wp_def)
  obtain b' where r: "rd d' b0 n c = Some (RES_OK, b')" "length b' = unat c * 512"
    "\<And>i j. i < unat c \<Longrightarrow> j < 512 \<Longrightarrow> b' ! (i * 512 + j) = byte_at d' (unat n + i) j"
    using read_law [OF assms(1), of b0 d'] assms(3) by (auto simp: wp_def)
  have "b' = b"
    by (rule sectors_eq [OF r(2) assms(2)]) (use r(3) w(2) assms(1) in \<open>simp add: fits_def\<close>)
  then show ?thesis using w(1) r(1) by blast
qed

lemma read_elsewhere:
  assumes "fits lim n c" "length b = unat c * 512" "fits lim m k" "length b0 = unat k * 512"
    and "unat m + unat k \<le> unat n \<or> unat n + unat c \<le> unat m"
  shows "\<exists>d' b'. wt d b n c = Some (RES_OK, d') \<and> rd d' b0 m k = Some (RES_OK, b') \<and> rd d b0 m k = Some (RES_OK, b')"
proof -
  obtain d' where w: "wt d b n c = Some (RES_OK, d')"
    "\<And>k j. k < lim \<Longrightarrow> j < 512 \<Longrightarrow> byte_at d' k j =
       (if unat n \<le> k \<and> k < unat n + unat c then b ! ((k - unat n) * 512 + j) else byte_at d k j)"
    using write_law [OF assms(1), of b d] assms(2) by (auto simp: wp_def)
  obtain b' where r: "rd d' b0 m k = Some (RES_OK, b')" "length b' = unat k * 512"
    "\<And>i j. i < unat k \<Longrightarrow> j < 512 \<Longrightarrow> b' ! (i * 512 + j) = byte_at d' (unat m + i) j"
    using read_law [OF assms(3), of b0 d'] assms(4) by (auto simp: wp_def)
  obtain b'' where r': "rd d b0 m k = Some (RES_OK, b'')" "length b'' = unat k * 512"
    "\<And>i j. i < unat k \<Longrightarrow> j < 512 \<Longrightarrow> b'' ! (i * 512 + j) = byte_at d (unat m + i) j"
    using read_law [OF assms(3), of b0 d] assms(4) by (auto simp: wp_def)
  have "b' = b''"
    by (rule sectors_eq [OF r(2) r'(2)]) (use r(3) r'(3) w(2) assms(3,5) in \<open>auto simp: fits_def\<close>)
  then show ?thesis using w(1) r(1) r'(1) by blast
qed

end

section \<open>The RAM device\<close>

definition disk_byte :: "disk \<Rightarrow> nat \<Rightarrow> nat \<Rightarrow> BYTE" where
  "disk_byte d k j = d (k * 512 + j)"

lemma sector_index: "i < c \<Longrightarrow> j < 512 \<Longrightarrow> i * 512 + j < c * (512::nat)"
  using mult_le_mono1 [of "Suc i" c 512] by simp

interpretation bd: block_device DISK_SECTORS disk_byte disk_read disk_write
proof
  fix n c :: DWORD and b :: buffer and d :: disk
  assume f: "fits 128 n c" and l: "unat c * 512 \<le> length b"
  then have i: "in_bounds n c" by (simp add: fits_def)
  show "wp (disk_read d b n c) (\<lambda>(r, b'). r = RES_OK \<and> length b' = length b \<and>
        (\<forall>i < unat c. \<forall>j < 512. b' ! (i * 512 + j) = disk_byte d (unat n + i) j) \<and>
        drop (unat c * 512) b' = drop (unat c * 512) b)"
    using l i by (intro disk_read_wp) (auto simp: nth_append sector_index disk_byte_def algebra_simps)
  have "unat n * 512 \<le> k * 512 + j \<and> k * 512 + j < unat n * 512 + unat c * 512 \<longleftrightarrow> unat n \<le> k \<and> k < unat n + unat c"
    if "j < 512" for k j using that by auto
  then show "wp (disk_write d b n c) (\<lambda>(r, d'). r = RES_OK \<and>
        (\<forall>k < 128. \<forall>j < 512. disk_byte d' k j =
           (if unat n \<le> k \<and> k < unat n + unat c then b ! ((k - unat n) * 512 + j) else disk_byte d k j)))"
    using l i by (intro disk_write_wp) (auto simp: disk_byte_def disk_store_def min_absorb2 algebra_simps)
next
  fix n c :: DWORD and b :: buffer and d :: disk
  assume "\<not> fits 128 n c"
  then have "\<not> in_bounds n c" by (simp add: fits_def)
  then show "disk_read d b n c = Some (RES_PARERR, b) \<and> disk_write d b n c = Some (RES_PARERR, d)"
    by (simp add: disk_read_def disk_write_def)
qed

section \<open>Properties of the device\<close>

text \<open>The bounds test of the device, computed on 64-bit words, accepts exactly the requests whose
  sectors are all on the device, in unbounded arithmetic: no sector and count wrap around it.\<close>

theorem in_bounds_exact: "in_bounds n c \<longleftrightarrow> unat n < DISK_SECTORS \<and> {unat n ..< unat n + unat c} \<subseteq> {..< DISK_SECTORS}"
proof (cases "c = 0")
  case False
  then have "0 < unat c" by (simp add: unat_gt_0)
  then have "{unat n ..< unat n + unat c} \<subseteq> {..< DISK_SECTORS} \<longleftrightarrow> unat n + unat c \<le> DISK_SECTORS"
    by (auto simp: subset_eq dest: bspec [of _ _ "unat n + unat c - 1"])
  then show ?thesis by simp
qed auto

text \<open>C26: what is written to a range of sectors is read back, byte for byte.\<close>

theorem device_roundtrip:
  assumes "fits DISK_SECTORS n c" "length b = unat c * 512" "length b0 = unat c * 512"
  shows "\<exists>d'. disk_write d b n c = Some (RES_OK, d') \<and> disk_read d' b0 n c = Some (RES_OK, b)"
  by (rule bd.read_after_write [OF assms])

theorem device_roundtrip_witness:
  "\<exists>d'. disk_write (\<lambda>_. 0) (replicate 1024 7) 126 2 = Some (RES_OK, d') \<and>
     disk_read d' (replicate 1024 0) 126 2 = Some (RES_OK, replicate 1024 7)"
  by (rule device_roundtrip) (simp_all add: fits_def)

text \<open>C27: a write changes no sector outside its range, and a request that is not within the device is
  refused with \<open>RES_PARERR\<close> and changes nothing.\<close>

theorem device_isolation:
  assumes "fits DISK_SECTORS n c" "length b = unat c * 512" "length b0 = unat k * 512"
    and "unat m + unat k \<le> unat n \<or> unat n + unat c \<le> unat m"
  shows "\<exists>d'. disk_write d b n c = Some (RES_OK, d') \<and> disk_read d' b0 m k = disk_read d b0 m k \<and>
     (\<not> fits DISK_SECTORS m k \<longrightarrow> disk_read d b0 m k = Some (RES_PARERR, b0) \<and> disk_write d b0 m k = Some (RES_PARERR, d))"
proof (cases "fits DISK_SECTORS m k")
  case True
  from bd.read_elsewhere [OF assms(1,2) True assms(3,4)] show ?thesis using True by fastforce
next
  case False
  obtain d' where "disk_write d b n c = Some (RES_OK, d')"
    using bd.write_law [OF assms(1), of b d] assms(2) by (auto simp: wp_def)
  then show ?thesis using bd.refuse_law [OF False] by simp
qed

theorem device_isolation_witness:
  "\<exists>d'. disk_write (\<lambda>_. 0) (replicate 512 7) 3 1 = Some (RES_OK, d') \<and>
     disk_read d' (replicate 1024 0) 127 2 = disk_read (\<lambda>_. 0) (replicate 1024 0) 127 2 \<and>
     (\<not> fits DISK_SECTORS 127 2 \<longrightarrow> disk_read (\<lambda>_. 0) (replicate 1024 0) 127 2 = Some (RES_PARERR, replicate 1024 0) \<and>
        disk_write (\<lambda>_. 0) (replicate 1024 0) 127 2 = Some (RES_PARERR, (\<lambda>_. 0)))"
  by (rule device_isolation) (simp_all add: fits_def)

end
