(* ===== verification/Props_Volume.thy ===== *)
theory Props_Volume
  imports FF_DirSpec FF_FreeSpec Clean_Disk Diskio_Spec
begin

text \<open>
  Properties of the layers below the files: byte order, the sector window as a write-back cache, the
  map from clusters to sectors, the allocation table, and the chains in it.
\<close>

section \<open>Byte order\<close>

text \<open>The little-endian stores and loads invert each other, and a store changes no byte but its own.\<close>

theorem little_endian_roundtrip:
  assumes "p + 3 < length b"
  shows "\<exists>b' b''. st_dword b p v = Some b' \<and> ld_dword b' p = Some v \<and> length b' = length b \<and>
     (\<forall>i. i < p \<or> p + 3 < i \<longrightarrow> b' ! i = b ! i) \<and>
     st_word b p w = Some b'' \<and> ld_word b'' p = Some w \<and> length b'' = length b \<and>
     (\<forall>i. i < p \<or> p + 1 < i \<longrightarrow> b'' ! i = b ! i)"
proof -
  have "wp (st_dword b p v) (\<lambda>_. True)" "wp (st_word b p w) (\<lambda>_. True)"
    using assms by (auto intro!: st_dword_wp st_word_wp)
  then obtain b' b'' where b: "st_dword b p v = Some b'" "st_word b p w = Some b''" by (auto simp: wp_def)
  have "\<forall>i. i < p \<or> p + 3 < i \<longrightarrow> b' ! i = b ! i" "\<forall>i. i < p \<or> p + 1 < i \<longrightarrow> b'' ! i = b ! i"
    using st_dword_nth [OF b(1)] st_word_nth [OF b(2)] by auto
  then show ?thesis using b st_dword_nth [OF b(1)] st_word_nth [OF b(2)] by auto
qed

section \<open>The sector window\<close>

text \<open>C21: the window is a transparent write-back cache: moving it to a sector of the device makes that
  sector visible and changes no byte of the volume, whether the old sector was dirty or not; only the
  second copy of the FAT may receive the bytes of the first.\<close>

theorem window_transparent:
  assumes "vok s" "wr s" "unat n < DISK_SECTORS"
  shows "\<exists>s'. move_window s n = Some (FR_OK, s') \<and> winsect s' = n \<and> vok s' \<and> geo s' = geo s \<and>
     (\<forall>j < 512. \<not> second_fat s n \<longrightarrow> win s' ! j = vbyte s n j) \<and>
     (\<forall>m j. unat m < DISK_SECTORS \<longrightarrow> j < 512 \<longrightarrow> \<not> second_fat s m \<longrightarrow> vbyte s' m j = vbyte s m j)"
proof -
  obtain s' where m: "move_window s n = Some (FR_OK, s')" by (rule move_window_ok [OF assms])
  note md = move_windowD [OF m assms(1)]
  have v: "vbyte s' k j = vbyte s k j" if "unat k < DISK_SECTORS" "j < 512" "\<not> second_fat s k" for k j
    by (rule move_window_vbyte [OF assms m that])
  have "win s' ! j = vbyte s n j" if "j < 512" "\<not> second_fat s n" for j
    using v [OF assms(3) that] md(3) by (simp add: vbyte_def)
  then show ?thesis using m v md(1,3) by (auto simp: good_def)
qed

theorem window_transparent_witness:
  "\<exists>s'. move_window demo_vol 5 = Some (FR_OK, s') \<and> winsect s' = 5 \<and> vok s' \<and> geo s' = geo demo_vol \<and>
     (\<forall>j < 512. \<not> second_fat demo_vol 5 \<longrightarrow> win s' ! j = vbyte demo_vol 5 j) \<and>
     (\<forall>m j. unat m < DISK_SECTORS \<longrightarrow> j < 512 \<longrightarrow> \<not> second_fat demo_vol m \<longrightarrow> vbyte s' m j = vbyte demo_vol m j)"
  by (rule window_transparent) (use demo_lay in \<open>simp_all add: lay_def fat_inv_def wr_def\<close>)

text \<open>C22: writing back a dirty sector of the FAT updates both copies: afterwards the sector is clean and
  the device has its bytes in the first and in the second FAT.\<close>

theorem sync_mirrors_fat:
  assumes "vok s" "wflag s \<noteq> 0" "infat s (winsect s)" "n_fats s = 2" "unat (winsect s) < DISK_SECTORS"
    and "unat (winsect s + fsize s) < DISK_SECTORS"
  shows "\<exists>s'. sync_window s = Some (FR_OK, s') \<and> wflag s' = 0 \<and>
     disk_bytes (vdisk s') (unat (winsect s) * 512) 512 = win s \<and>
     disk_bytes (vdisk s') (unat (winsect s + fsize s) * 512) 512 = win s"
  using assms vok_length [OF assms(1)] by (simp add: sync_window_eq Let_def)

theorem sync_mirrors_fat_witness:
  "\<exists>s'. sync_window (demo_vol\<lparr>winsect := 1, wflag := 1\<rparr>) = Some (FR_OK, s') \<and> wflag s' = 0 \<and>
     disk_bytes (vdisk s') (unat (winsect (demo_vol\<lparr>winsect := 1, wflag := 1\<rparr>)) * 512) 512 = win (demo_vol\<lparr>winsect := 1, wflag := 1\<rparr>) \<and>
     disk_bytes (vdisk s') (unat (winsect (demo_vol\<lparr>winsect := 1, wflag := 1\<rparr>) + fsize (demo_vol\<lparr>winsect := 1, wflag := 1\<rparr>)) * 512) 512 =
       win (demo_vol\<lparr>winsect := 1, wflag := 1\<rparr>)"
  by (rule sync_mirrors_fat) (simp_all add: vok_def coh_def infat_def)

section \<open>Clusters and sectors\<close>

text \<open>C23: different clusters have different sectors, all of them in the data area and on the device.\<close>

theorem cluster_sectors:
  assumes "lay s" "2 \<le> c" "c < n_fatent s" "2 \<le> d" "d < n_fatent s" "k < unat (csize s)" "l < unat (csize s)"
  shows "(clst2sect s c + of_nat k = clst2sect s d + of_nat l \<longleftrightarrow> c = d \<and> k = l) \<and>
     in_data s (clst2sect s c + of_nat k) \<and> \<not> infat s (clst2sect s c + of_nat k)"
proof -
  note c = clst2sect_lay [OF assms(1-3)] and d = clst2sect_lay [OF assms(1,4,5)]
  have "c = d \<and> k = l" if "unat (csize s) * (unat c - 2) + k = unat (csize s) * (unat d - 2) + l"
  proof -
    have "unat c - 2 = unat d - 2"
      using arg_cong [OF that, of "\<lambda>x. x div unat (csize s)"] assms(6,7) by simp
    then show ?thesis using that assms(2,4) by (simp add: word_le_nat_alt word_unat_eq_iff)
  qed
  then have "clst2sect s c + of_nat k = clst2sect s d + of_nat l \<longleftrightarrow> c = d \<and> k = l"
    using c(2) [OF assms(6)] d(2) [OF assms(7)] by (auto simp: word_unat_eq_iff)
  moreover have i: "in_data s (clst2sect s c + of_nat k)"
    using c(2) [OF assms(6)] c(3) [of "Suc k"] assms(6) by (simp add: in_data_def)
  moreover have "\<not> infat s (clst2sect s c + of_nat k)" using i infat_data [OF assms(1)] by auto
  ultimately show ?thesis by blast
qed

theorem cluster_sectors_witness:
  "(clst2sect demo_vol 2 + of_nat 0 = clst2sect demo_vol 5 + of_nat 0 \<longleftrightarrow> (2 :: DWORD) = 5 \<and> (0 :: nat) = 0) \<and>
     in_data demo_vol (clst2sect demo_vol 2 + of_nat 0) \<and> \<not> infat demo_vol (clst2sect demo_vol 2 + of_nat 0)"
  by (rule cluster_sectors [OF demo_lay]) simp_all

section \<open>The allocation table\<close>

text \<open>C19: \<open>put_fat\<close> and \<open>get_fat\<close> implement a map for the three formats: an entry reads back as it was written,
  cut to the width of the format, and every other entry keeps its value, also those that share a byte
  with it in FAT12.\<close>

theorem fat_get_put:
  assumes "fat_inv s" "2 \<le> c" "c < n_fatent s" "2 \<le> d" "d < n_fatent s"
  shows "\<exists>s1 s2. put_fat s c v = Some (FR_OK, s1) \<and>
     get_fat s1 d = Some (if d = c then v AND fat_width s else fat_entry s d, s2)"
  by (rule ft.get_put [OF assms])

lemma demo_fat_inv: "fat_inv demo_vol"
  using demo_lay by (simp add: lay_def)

theorem fat_get_put_witness:
  "\<exists>s1 s2. put_fat demo_vol 4 0x123 = Some (FR_OK, s1) \<and>
     get_fat s1 5 = Some (if (5 :: DWORD) = 4 then 0x123 AND fat_width demo_vol else fat_entry demo_vol 5, s2)"
  by (rule fat_get_put [OF demo_fat_inv]) simp_all

section \<open>Cluster chains\<close>

text \<open>C17: \<open>remove_chain\<close> frees exactly the clusters of the chain, keeps every other entry, and keeps the
  count of free clusters right.\<close>

theorem remove_chain_frees:
  assumes "fat_inv s" "chain (fat_entry s) (n_fatent s) c cs"
  shows "\<exists>s'. remove_chain s c 0 = Some (FR_OK, s') \<and> geo s' = geo s \<and> free_set s' = free_set s \<union> set cs \<and>
     (\<forall>d < n_fatent s. d \<notin> set cs \<longrightarrow> fat_entry s' d = fat_entry s d) \<and> (free_ok s \<longrightarrow> free_ok s')"
proof -
  obtain s' where s: "remove_chain s c 0 = Some (FR_OK, s')" "frees s cs s'"
    using remove_chain_exact [OF assms] by (auto simp: wp_def)
  have g: "geo s' = geo s" using s(2) by (simp add: frees_def)
  have "free_set s' = free_set s \<union> set cs"
    using s(2) geo_n_fatent [OF g] chain_range [OF assms(2)] by (auto simp: free_set_def frees_def split: if_splits)
  then show ?thesis using s g by (auto simp: frees_def)
qed

theorem remove_chain_frees_witness:
  "\<exists>s'. remove_chain demo_vol 2 0 = Some (FR_OK, s') \<and> geo s' = geo demo_vol \<and> free_set s' = free_set demo_vol \<union> set [2, 3] \<and>
     (\<forall>d < n_fatent demo_vol. d \<notin> set [2, 3] \<longrightarrow> fat_entry s' d = fat_entry demo_vol d) \<and> (free_ok demo_vol \<longrightarrow> free_ok s')"
  by (rule remove_chain_frees [OF demo_fat_inv]) simp

text \<open>C18: \<open>remove_chain\<close> returns on every table, also when the links form a cycle or lead into another
  file, on every volume whose second FAT does not wrap around the sector numbers.\<close>

theorem remove_chain_returns:
  assumes "vok s" "gok s" "mirror_ok s"
  shows "\<exists>r s'. remove_chain s c p = Some (r, s') \<and> vok s' \<and> geo s' = geo s"
proof -
  have "wp (remove_chain s c p) (\<lambda>(r, s'). good s s')" by (rule remove_chain_wp [OF assms]) simp
  then show ?thesis by (auto simp: wp_def good_def)
qed

text \<open>A table in which the clusters 2 and 3 point to each other.\<close>

definition demo_cycle :: vol where
  "demo_cycle = demo_vol\<lparr>vdisk := (\<lambda>i. if 512 \<le> i \<and> i < 518 then [0xF8, 0xFF, 0xFF, 0x03, 0x20, 0x00] ! (i - 512) else 0)\<rparr>"

theorem remove_chain_returns_witness:
  "fat_entry demo_cycle 2 = 3 \<and> fat_entry demo_cycle 3 = 2 \<and>
     (\<exists>r s'. remove_chain demo_cycle 2 0 = Some (r, s') \<and> vok s' \<and> geo s' = geo demo_cycle)"
proof -
  have "fat_entry demo_cycle 2 = 3" "fat_entry demo_cycle 3 = 2"
    by (simp_all add: demo_cycle_def fat_entry_def entry_of_def fat_byte_def vbyte_def)
  moreover have "\<exists>r s'. remove_chain demo_cycle 2 0 = Some (r, s') \<and> vok s' \<and> geo s' = geo demo_cycle"
    by (rule remove_chain_returns) (simp_all add: demo_cycle_def vok_def coh_def gok_def mirror_ok_def)
  ultimately show ?thesis by blast
qed

text \<open>C16: \<open>create_chain\<close> on the last cluster of a chain (or on 0) allocates a free cluster, makes it the
  new end of the chain and keeps every other chain and the count of free clusters; it returns 0 only
  when no cluster is free.\<close>

theorem create_chain_allocates:
  assumes "lay s" "free_ok s" "sane s" "file_chain s c cs"
  shows "\<exists>v s'. create_chain s (if cs = [] then 0 else last cs) = Some (v, s') \<and> free_ok s' \<and>
     (if v = 0 then free_set s = {} \<and> same_table s s'
      else v \<in> free_set s \<and> free_set s' = free_set s - {v} \<and> file_chain s' (if cs = [] then v else c) (cs @ [v]) \<and>
        (\<forall>d ds. file_chain s d ds \<longrightarrow> set ds \<inter> set cs = {} \<longrightarrow> file_chain s' d ds))"
proof -
  define p where "p = (if cs = [] then 0 else last cs)"
  have ch: "chain (fat_entry s) (n_fatent s) c cs" if "cs \<noteq> []" using assms(4) that by (auto simp: file_chain_def split: if_splits)
  have p: "p = 0 \<or> 2 \<le> p \<and> p < n_fatent s \<and> n_fatent s \<le> fat_entry s p"
    using chain_range [OF ch] chain_last [OF ch] by (auto simp: p_def)
  have n3: "n_fatent s \<noteq> 0" using layD(3) [OF assms(1)] by (auto simp: gok_def)
  obtain v s' where c: "create_chain s p = Some (v, s')" "dstep s s'"
    and cs: "v \<in> free_set s \<and> takes s p v s' \<or> v = 0 \<and> free_set s = {} \<and> same_table s s'"
    using create_chain_lay [OF assms(1,2) p] assms(3) by (auto simp: wp_def sane_def)
  show ?thesis
  proof (cases "v = 0")
    case True
    then have st: "same_table s s'" "free_set s = {}" using cs by (auto simp: free_set_def word_le_nat_alt)
    have "free_ok s'"
      using assms(2) st(1) same_table_free [OF st(1)] same_table_n [OF st(1)]
      by (simp add: free_ok_def same_table_def fat_rest_def)
    then show ?thesis
      unfolding p_def [symmetric] using c(1) True st by (intro exI [of _ v] exI [of _ s']) simp
  next
    case False
    then have v: "v \<in> free_set s" "takes s p v s'" using cs by auto
    note gr = fwrite_grow [OF assms(1) c(2) v(1) v(2) [unfolded p_def] assms(2-4) le0 le0]
    have n: "n_fatent s' = n_fatent s" by (rule geo_n_fatent) (use v(2) in \<open>simp add: takes_def\<close>)
    have e: "d < n_fatent s \<Longrightarrow> fat_entry s' d = (if d = v then fat_width s else if p \<noteq> 0 \<and> d = p then v else fat_entry s d)" for d
      using v(2) unfolding takes_def by blast
    have "fat_width s \<noteq> 0" by (simp add: fat_width_def entry_mask_def)
    moreover have "fat_entry s p \<noteq> 0" if "p \<noteq> 0" using p that n3 by auto
    ultimately have "free_set s' = free_set s - {v}"
      using False by (auto simp: free_set_def n e split: if_splits)
    moreover have "(cs @ [v]) ! 0 = (if cs = [] then v else c)"
      using chain_hd [OF ch] by (simp add: nth_append)
    moreover have "free_ok s' \<and> (\<forall>d ds. file_chain s d ds \<longrightarrow> set ds \<inter> set cs = {} \<longrightarrow> file_chain s' d ds)"
      using gr(1) unfolding fwrite_def by blast
    ultimately show ?thesis
      unfolding p_def [symmetric] using c(1) False v(1) gr(2) by (intro exI [of _ v] exI [of _ s']) simp
  qed
qed

theorem create_chain_allocates_witness:
  "\<exists>v s'. create_chain demo_vol (if [2, 3] = ([] :: DWORD list) then 0 else last [2, 3]) = Some (v, s') \<and> free_ok s' \<and>
     (if v = 0 then free_set demo_vol = {} \<and> same_table demo_vol s'
      else v \<in> free_set demo_vol \<and> free_set s' = free_set demo_vol - {v} \<and>
        file_chain s' (if [2, 3] = ([] :: DWORD list) then v else 2) ([2, 3] @ [v]) \<and>
        (\<forall>d ds. file_chain demo_vol d ds \<longrightarrow> set ds \<inter> set [2, 3] = {} \<longrightarrow> file_chain s' d ds))"
  by (rule create_chain_allocates [OF demo_lay demo_free_ok demo_sane]) (simp add: file_chain_def)

section \<open>Free clusters\<close>

text \<open>C20: on a mounted FAT12 volume \<open>f_getfree\<close> returns the number of free clusters, by the member that keeps
  it or by a scan of the whole table; it stores the number, and changes neither the table nor the geometry.\<close>

theorem f_getfree_counts:
  assumes "FatFs sy = Some a" "fs_type (objs sy a) = FS_FAT12" "get_ldnumber path = Some (0, p)"
    and "fat_inv (load_vol sy a)" "sane (load_vol sy a)" "free_ok (load_vol sy a)"
  shows "\<exists>n sy'. f_getfree sy path = Some (FR_OK, Some n, Some a, sy') \<and> unat n = card (free_set (load_vol sy a)) \<and>
     free_clst (load_vol sy' a) = n \<and> free_set (load_vol sy' a) = free_set (load_vol sy a) \<and> geo (load_vol sy' a) = geo (load_vol sy a) \<and>
     (\<forall>c < n_fatent (load_vol sy a). fat_entry (load_vol sy' a) c = fat_entry (load_vol sy a) c)"
proof -
  have "mount_volume sy path 0 = Some (FR_OK, Some a, p, sy)" using assms(1-3) by (simp add: mount_volume_def disk_status_def)
  then show ?thesis
    using f_getfree_vol_exact [OF assms(4-6)] assms(2) by (fastforce simp: f_getfree_def wp_def)
qed

theorem f_getfree_counts_witness:
  "\<exists>n sy'. f_getfree demo_sys (Some RAM) = Some (FR_OK, Some n, Some 0, sy') \<and> unat n = card (free_set (load_vol demo_sys 0)) \<and>
     free_clst (load_vol sy' 0) = n \<and> free_set (load_vol sy' 0) = free_set (load_vol demo_sys 0) \<and> geo (load_vol sy' 0) = geo (load_vol demo_sys 0) \<and>
     (\<forall>c < n_fatent (load_vol demo_sys 0). fat_entry (load_vol sy' 0) c = fat_entry (load_vol demo_sys 0) c)"
  by (rule f_getfree_counts [where p = "Some [0]"])
    (simp_all add: demo_fat_inv demo_sane demo_free_ok, simp_all add: demo_sys_def demo_fs_def)

end
