(* ===== verification/Props_Names.thy ===== *)
theory Props_Names
  imports FF_DirDemo
begin

text \<open>
  Properties of names: the translation between path segments and directory entries, the search in the root directory
  against its specification on lists of entries, and the names that are accepted.
\<close>

section \<open>Names\<close>

text \<open>C29: a name with 1 to 8 characters and an extension of up to 3 is stored in upper case, padded to 11 bytes,
  and \<open>get_fileinfo\<close> on an entry with these bytes returns the name with its extension again.\<close>

theorem name_roundtrip:
  assumes "list_all name_char body" "list_all name_char ext" "body \<noteq> []" "length body \<le> 8" "length ext \<le> 3"
    and "length (fn dp) = 12"
    and "sect de \<noteq> 0" "dir de + 32 \<le> length (win s)" "take 11 (drop (dir de) (win s)) = sfn_of body ext" "length (fname fno) = 13"
  shows "\<exists>dp' fno'. create_name sc dp (name_str body ext @ [0]) = Some (FR_OK, dp', []) \<and>
     take 11 (fn dp') = sfn_of body ext \<and> fn dp' ! NSFLAG = NS_LAST \<and>
     get_fileinfo s de fno = Some fno' \<and> take (length (name_str body ext)) (fname fno') = map to_upper (name_str body ext) \<and>
     fname fno' ! length (name_str body ext) = 0 \<and> length (fname fno') = 13"
proof -
  let ?n = "length (name_str body ext)"
  have n: "?n < 13" using assms(4,5) by (simp add: name_str_def)
  have c: "create_name sc dp (name_str body ext @ [0]) = Some (FR_OK, dp\<lparr>fn := sfn_of body ext @ [NS_LAST]\<rparr>, [])"
    using create_name_83 [OF assms(1-6)] .
  obtain f where f: "fileinfo_name (win s) (dir de) 11 0 0 ((fname fno)[0 := 0]) = Some (?n, f)" "length f = 13"
    "take ?n f = name_str (map to_upper body) (map to_upper ext)"
    using fileinfo_name_83 [OF assms(1,2,4,5) assms(9), of "(fname fno)[0 := 0]"] assms(8,10) by auto
  have up: "name_str (map to_upper body) (map to_upper ext) = map to_upper (name_str body ext)"
    by (simp add: name_str_def to_upper_def IsLower_def)
  have l: "take 11 (sfn_of body ext @ [NS_LAST]) = sfn_of body ext" "(sfn_of body ext @ [NS_LAST]) ! 11 = NS_LAST"
    using assms(4,5) by (simp_all add: nth_append)
  have "\<exists>fno'. get_fileinfo s de fno = Some fno' \<and> fname fno' = f[?n := 0]"
    using f assms(7,8,10) n by (simp add: get_fileinfo_def ldb_def stb_def ld_dword_def ld_word_def)
  then show ?thesis using c f(2,3) n up l by fastforce
qed

theorem name_roundtrip_witness:
  "\<exists>dp' fno'. create_name True demo_dp (name_str (bytes_of ''ab'') (bytes_of ''c'') @ [0]) = Some (FR_OK, dp', []) \<and>
     take 11 (fn dp') = sfn_of (bytes_of ''ab'') (bytes_of ''c'') \<and> fn dp' ! NSFLAG = NS_LAST \<and>
     get_fileinfo (demo_dir_vol\<lparr>win := sfn_of (bytes_of ''ab'') (bytes_of ''c'') @ replicate 501 0\<rparr>) (demo_dp\<lparr>sect := 3, dir := 0\<rparr>)
       \<lparr>fno_fsize = 0, fdate = 0, ftime = 0, fattrib = 0, fname = replicate 13 0\<rparr> = Some fno' \<and>
     take (length (name_str (bytes_of ''ab'') (bytes_of ''c''))) (fname fno') = map to_upper (name_str (bytes_of ''ab'') (bytes_of ''c'')) \<and>
     fname fno' ! length (name_str (bytes_of ''ab'') (bytes_of ''c'')) = 0 \<and> length (fname fno') = 13"
  by (rule name_roundtrip)
    (simp_all add: name_char_def bytes_of_def IsSeparator_def sfn_illegal_def demo_dp_def blank_DIR_def sfn_of_def)

section \<open>The root directory\<close>

text \<open>C28: \<open>dir_find\<close> in the fixed root directory is the search in the list of its entries: it stops at the first
  entry with the name that is not a volume label, with the window on it, or returns \<open>FR_NO_FILE\<close> at the
  end mark or the end of the table; it changes no entry.\<close>

theorem dir_find_lookup:
  assumes "root_ok s" "sclust (dobj dp) = 0" "length (fn dp) = 12"
  shows "\<exists>r dp' s'. dir_find s dp = Some (r, dp', s') \<and> root_dir s' = root_dir s \<and> same_table s s' \<and>
     (case lookup (take 11 (fn dp)) (root_dir s) of
        None \<Rightarrow> r = FR_NO_FILE
      | Some k \<Rightarrow> r = FR_OK \<and> at_ent s dp' k \<and> take 32 (drop (dir dp') (win s')) = root_dir s ! k)"
proof -
  obtain r dp' s' where d: "dir_find s dp = Some (r, dp', s')" "dfound s dp (lookup (take 11 (fn dp)) (root_dir s)) (r, dp', s')"
    using dir_find_root [OF assms] by (auto simp: wp_def)
  have st: "rootstep s s'" using d(2) by (simp add: dfound_def)
  note r = rootstep_root [OF st assms(1)]
  have "take 32 (drop (dir dp') (win s')) = root_dir s ! k" if "at_ent s dp' k" "winsect s' = dsect s k" for k
    by (rule found_window [OF assms(1) st that])
  then show ?thesis using d st r by (auto simp: dfound_def rootstep_def split: option.splits)
qed

theorem dir_find_lookup_witness:
  "\<exists>r dp' s'. dir_find demo_dir_vol demo_dp = Some (r, dp', s') \<and> root_dir s' = root_dir demo_dir_vol \<and> same_table demo_dir_vol s' \<and>
     (case lookup (take 11 (fn demo_dp)) (root_dir demo_dir_vol) of
        None \<Rightarrow> r = FR_NO_FILE
      | Some k \<Rightarrow> r = FR_OK \<and> at_ent demo_dir_vol dp' k \<and> take 32 (drop (dir dp') (win s')) = root_dir demo_dir_vol ! k)"
  by (rule dir_find_lookup [OF demo_root_ok]) (simp_all add: demo_dp_def blank_DIR_def)

section \<open>Names that the code accepts\<close>

definition sfn_byte :: "BYTE \<Rightarrow> bool" where
  "sfn_byte b \<longleftrightarrow> b = 0x20 \<or> 0x20 < b \<and> \<not> IsLower b \<and> \<not> IsSeparator b \<and> b \<noteq> 0x2E \<and> \<not> sfn_illegal b"

lemma sfn_byte_upper: "IsLower c \<Longrightarrow> sfn_byte (c - 0x20)"
proof -
  assume "IsLower c"
  then have "unat (c - 0x20) = unat c - 32" "0x61 \<le> unat c" "unat c \<le> 0x7A"
    by (simp_all add: IsLower_def word_le_nat_alt unat_sub)
  then have r: "0x41 \<le> unat (c - 0x20)" "unat (c - 0x20) \<le> 0x5A" by simp_all
  then have "0x20 < c - 0x20 \<and> \<not> IsLower (c - 0x20) \<and> \<not> IsSeparator (c - 0x20) \<and> c - 0x20 \<noteq> 0x2E \<and> \<not> sfn_illegal (c - 0x20)"
    unfolding IsLower_def IsSeparator_def sfn_illegal_def word_less_nat_alt word_le_nat_alt word_unat_eq_iff by auto
  then show ?thesis by (simp add: sfn_byte_def)
qed

lemma sfn_byte_keep: "\<not> IsLower c \<Longrightarrow> 0x20 < c \<Longrightarrow> \<not> IsSeparator c \<Longrightarrow> c \<noteq> 0x2E \<Longrightarrow> \<not> sfn_illegal c \<Longrightarrow> sfn_byte c"
  by (simp add: sfn_byte_def)

lemma table_legal: "x \<in> set TBL_CT437 \<Longrightarrow> 0x20 < x \<and> \<not> IsSeparator x \<and> x \<noteq> 0x2E"
proof -
  have "list_all (\<lambda>x. 0x20 < x \<and> \<not> IsSeparator x \<and> x \<noteq> 0x2E) TBL_CT437" by (simp add: TBL_CT437_def IsSeparator_def)
  then show "x \<in> set TBL_CT437 \<Longrightarrow> 0x20 < x \<and> \<not> IsSeparator x \<and> x \<noteq> 0x2E" by (simp add: list_all_iff)
qed

lemma create_name_loop_legal:
  assumes "ahead p si" "length sfn = 12" "i \<le> 11" "ni \<le> 11" "\<forall>j < 11. sfn_byte (sfn ! j)"
  shows "wp (create_name_loop p si i ni sfn) (\<lambda>(r, sfn'). length sfn' = 12 \<and> (\<forall>j < 11. sfn_byte (sfn' ! j)) \<and> name_res p r)"
  using assms
proof (induction "length p - si" arbitrary: si i ni sfn rule: less_induct)
  case less
  have si: "si < length p" using less.prems(1) by (rule ahead_less)
  have nz: "ahead p (Suc si)" if "\<not> p ! si \<le> 0x20"
    using that by (intro ahead_next [OF less.prems(1)]) auto
  have IH: "wp (create_name_loop p (Suc si) i' ni' sfn') (\<lambda>(r, sfn'). length sfn' = 12 \<and> (\<forall>j < 11. sfn_byte (sfn' ! j)) \<and> name_res p r)"
    if "\<not> p ! si \<le> 0x20" "length sfn' = 12" "i' \<le> 11" "ni' \<le> 11" "\<forall>j < 11. sfn_byte (sfn' ! j)" for i' ni' sfn'
    using si nz that by (intro less.hyps) auto
  have tb: "0x20 < TBL_CT437 ! k" "\<not> IsSeparator (TBL_CT437 ! k)" "TBL_CT437 ! k \<noteq> 0x2E" if "k < 128" for k
    using table_legal [of "TBL_CT437 ! k"] that by simp_all
  have st: "\<forall>j < 11. sfn_byte (sfn[i := c] ! j)" if "sfn_byte c" for c
    using that less.prems(2,3,5) by (auto simp: nth_list_update)
  show ?case
    using less.prems si nz
    by (subst create_name_loop.simps)
      (auto simp: wp_simps Let_def dbc_1st_def and_7F not_le tb
         intro!: skip_separators_wp IH st sfn_byte_upper sfn_byte_keep split: if_splits)
qed

text \<open>C30: \<open>create_name\<close> returns on every C string, with \<open>FR_INVALID_NAME\<close> or with a name whose 11 bytes are
  blanks or characters that a short name may have: no control character, no lower-case letter, no separator, no dot and none
  of the refused ones.\<close>

theorem create_name_legal:
  assumes "cstring p" "length (fn dp) = 12"
  shows "\<exists>r dp' p'. create_name sc dp p = Some (r, dp', p') \<and> (r = FR_OK \<or> r = FR_INVALID_NAME) \<and>
     (r = FR_OK \<longrightarrow> fn dp' ! 0 \<noteq> DDEM \<and> (sfn_byte (fn dp' ! 0) \<or> fn dp' ! 0 = RDDEM) \<and> (\<forall>i < 11. 0 < i \<longrightarrow> sfn_byte (fn dp' ! i)))"
proof -
  have m: "memset (fn dp) 0 0x20 11 = Some (replicate 11 0x20 @ [fn dp ! 11])"
    using assms(2) Cons_nth_drop_Suc [of 11 "fn dp"] by (simp add: memset_def memwrite_def)
  have "\<forall>j < 11. sfn_byte ((replicate 11 0x20 @ [fn dp ! 11]) ! j)" by (auto simp: nth_append sfn_byte_def)
  then have lp: "wp (create_name_loop p 0 0 8 (replicate 11 0x20 @ [fn dp ! 11]))
      (\<lambda>(r, sfn'). length sfn' = 12 \<and> (\<forall>j < 11. sfn_byte (sfn' ! j)) \<and> name_res p r)"
    using assms(1) by (intro create_name_loop_legal) simp_all
  have "wp (create_name sc dp p) (\<lambda>(r, dp', p'). (r = FR_OK \<or> r = FR_INVALID_NAME) \<and>
     (r = FR_OK \<longrightarrow> fn dp' ! 0 \<noteq> DDEM \<and> (sfn_byte (fn dp' ! 0) \<or> fn dp' ! 0 = RDDEM) \<and> (\<forall>i < 11. 0 < i \<longrightarrow> sfn_byte (fn dp' ! i))))"
    unfolding create_name_def m
    by (simp add: wp_simps) (rule wp_mono [OF lp], auto simp: wp_simps nth_list_update dest: ahead_less split: option.splits)
  then show ?thesis by (auto simp: wp_def)
qed

theorem create_name_legal_witness:
  "\<exists>r dp' p'. create_name True demo_dp [0x61, 0x2A, 0] = Some (r, dp', p') \<and> (r = FR_OK \<or> r = FR_INVALID_NAME) \<and>
     (r = FR_OK \<longrightarrow> fn dp' ! 0 \<noteq> DDEM \<and> (sfn_byte (fn dp' ! 0) \<or> fn dp' ! 0 = RDDEM) \<and> (\<forall>i < 11. 0 < i \<longrightarrow> sfn_byte (fn dp' ! i)))"
  by (rule create_name_legal) (simp_all add: cstring_def demo_dp_def)

lemma skip_separators_run:
  assumes "list_all IsSeparator seps" "p = pre @ seps @ q # rest" "\<not> IsSeparator q"
  shows "skip_separators p (length pre) = Some (length pre + length seps)"
  using assms
proof (induction seps arbitrary: pre)
  case Nil
  then show ?case by (subst skip_separators.simps) (simp add: ldb_def)
next
  case (Cons x seps)
  have "skip_separators p (length (pre @ [x])) = Some (length (pre @ [x]) + length seps)"
    using Cons.prems by (intro Cons.IH) simp_all
  then show ?case using Cons.prems by (subst skip_separators.simps) (simp add: ldb_def)
qed

lemma separator_char: "IsSeparator c \<Longrightarrow> \<not> c \<le> 0x20"
  by (auto simp: IsSeparator_def)

lemma name_separator:
  assumes "p = pre @ x # seps @ q # rest" "IsSeparator x" "list_all IsSeparator seps" "\<not> IsSeparator q"
  shows "create_name_loop p (length pre) i ni sfn = Some (Some (x, Suc (length pre + length seps), i), sfn)"
proof -
  have "skip_separators p (length (pre @ [x])) = Some (length (pre @ [x]) + length seps)"
    using assms by (intro skip_separators_run) simp_all
  then show ?thesis using assms(1,2) separator_char by (subst create_name_loop.simps) (simp add: ldb_def)
qed

lemma name_dot_run:
  assumes "list_all name_char ext" "length ext \<le> 3" "p = 0x2E # ext @ rest"
  shows "create_name_loop p 0 0 8 (replicate 11 0x20 @ [x]) =
     create_name_loop p (length (0x2E # ext)) (8 + length ext) 11 (sfn_of [] ext @ [x])"
proof -
  have "create_name_loop p 0 0 8 (replicate 11 0x20 @ [x]) = create_name_loop p (length [0x2E :: BYTE]) 8 11 (replicate 11 0x20 @ [x])"
    using name_dot [of 0 p] assms(3) by simp
  also have "\<dots> = create_name_loop p (length [0x2E :: BYTE] + length ext) (8 + length ext) 11
      (take 8 (replicate 11 0x20 @ [x]) @ map to_upper ext @ drop (8 + length ext) (replicate 11 0x20 @ [x]))"
    using assms by (intro name_run) simp_all
  finally show ?thesis using assms(2) by (simp add: sfn_of_def)
qed

lemma blank_memset: "length f = 12 \<Longrightarrow> memset f 0 0x20 11 = Some (replicate 11 0x20 @ [f ! 11])"
  using Cons_nth_drop_Suc [of 11 f] by (simp add: memset_def memwrite_def)

text \<open>C31: a segment that starts with a dot is accepted: \<open>.\<close> and \<open>.ext\<close> with an extension of up to three
  characters give \<open>FR_OK\<close> and a name whose body is eight blanks, at the end of the path as well as in front of separators and
  a further segment, although a name without a body is meant to be refused.\<close>

theorem create_name_dot:
  assumes "length (fn dp) = 12" "list_all name_char ext" "length ext \<le> 3"
    and "t \<le> 0x20" "list_all IsSeparator seps" "seps \<noteq> []" "\<not> IsSeparator q"
  shows "create_name sc dp (0x2E # ext @ t # rest) = Some (FR_OK, dp\<lparr>fn := sfn_of [] ext @ [NS_LAST]\<rparr>, rest) \<and>
     create_name sc dp (0x2E # ext @ seps @ q # rest) =
       Some (FR_OK, dp\<lparr>fn := sfn_of [] ext @ [if char_le_space sc q then NS_LAST else 0]\<rparr>, q # rest) \<and>
     take 8 (sfn_of [] ext) = replicate 8 0x20"
proof (intro conjI)
  note m = blank_memset [OF assms(1)]
  have l: "length (sfn_of [] ext) = 11" "sfn_of [] ext ! 0 = 0x20" using assms(3) by (simp_all add: sfn_of_def nth_append)
  have "create_name_loop (0x2E # ext @ t # rest) 0 0 8 (replicate 11 0x20 @ [y]) =
      Some (Some (t, Suc (Suc (length ext)), 8 + length ext), sfn_of [] ext @ [y])" for y
    using name_dot_run [OF assms(2,3) refl, of "t # rest" y] name_stop [of "Suc (length ext)" "0x2E # ext @ t # rest"] assms(4)
    by (simp add: nth_append)
  then show "create_name sc dp (0x2E # ext @ t # rest) = Some (FR_OK, dp\<lparr>fn := sfn_of [] ext @ [NS_LAST]\<rparr>, rest)"
    unfolding create_name_def m using assms(4) l by (simp add: ldb_def stb_def list_update_append nth_append)
  obtain x xs where s: "seps = x # xs" using assms(6) by (cases seps) auto
  have "create_name_loop (0x2E # ext @ seps @ q # rest) 0 0 8 (replicate 11 0x20 @ [y]) =
      Some (Some (x, Suc (length (0x2E # ext) + length xs), 8 + length ext), sfn_of [] ext @ [y])" for y
    unfolding name_dot_run [OF assms(2,3) refl] by (rule name_separator) (use assms s in simp_all)
  then show "create_name sc dp (0x2E # ext @ seps @ q # rest) =
       Some (FR_OK, dp\<lparr>fn := sfn_of [] ext @ [if char_le_space sc q then NS_LAST else 0]\<rparr>, q # rest)"
    unfolding create_name_def m using assms(5) s l separator_char [of x]
    by (simp add: ldb_def stb_def list_update_append nth_append)
qed (simp add: sfn_of_def)

theorem create_name_dot_witness:
  "create_name True demo_dp (0x2E # bytes_of ''txt'' @ 0 # []) = Some (FR_OK, demo_dp\<lparr>fn := sfn_of [] (bytes_of ''txt'') @ [NS_LAST]\<rparr>, []) \<and>
     create_name True demo_dp (0x2E # bytes_of ''txt'' @ [0x2F, 0x5C] @ 0x61 # []) =
       Some (FR_OK, demo_dp\<lparr>fn := sfn_of [] (bytes_of ''txt'') @ [if char_le_space True 0x61 then NS_LAST else 0]\<rparr>, 0x61 # []) \<and>
     take 8 (sfn_of [] (bytes_of ''txt'')) = replicate 8 0x20"
  by (rule create_name_dot) (simp_all add: demo_dp_def bytes_of_def name_char_def IsSeparator_def sfn_illegal_def)

lemma char_le_space_sign: "char_le_space True c \<longleftrightarrow> char_le_space False c \<or> 0x80 \<le> c" for c :: BYTE
proof -
  have u: "uint c < 256" using uint_lt2p [of c] by simp
  have b: "bit (uint c) 7 \<longleftrightarrow> 128 \<le> uint c"
  proof -
    have "uint c div 128 = (if 128 \<le> uint c then 1 else 0)" using u by auto
    then show ?thesis by (simp add: bit_iff_odd)
  qed
  show ?thesis
  proof (cases "128 \<le> uint c")
    case True
    then have "sint c < 0" using b by (simp add: sint_uint signed_take_bit_negative_iff)
    then show ?thesis using True by (simp add: char_le_space_def word_le_def)
  next
    case False
    then have "sint c = uint c" using b u by (simp add: sint_uint signed_take_bit_eq_if_positive take_bit_eq_mod)
    then show ?thesis using False by (simp add: char_le_space_def word_le_def)
  qed
qed

text \<open>C32: what the signedness of \<open>char\<close> changes in \<open>create_name\<close>, for every path: with a signed \<open>char\<close> it gives
  the same result, name and rest of the path as with an unsigned one, except that a segment that is not the last one is flagged
  as the last one when the next segment starts with a byte of the upper half of the code page.\<close>

theorem create_name_sign:
  assumes "create_name False dp p = Some (r, dp', p')"
  shows "create_name True dp p =
     Some (r, if r = FR_OK \<and> fn dp' ! NSFLAG = 0 \<and> 0x80 \<le> p' ! 0 then dp'\<lparr>fn := (fn dp')[NSFLAG := NS_LAST]\<rparr> else dp', p')"
proof -
  obtain f0 x f where l: "memset (fn dp) 0 0x20 11 = Some f0" "create_name_loop p 0 0 8 f0 = Some (x, f)"
    using assms by (auto simp: create_name_def bind_eq_Some_conv)
  note cn = create_name_def [of _ dp p, unfolded l(1) bind.bind_lunit l(2) prod.case]
  consider "x = None \<or> (\<exists>c si. x = Some (c, si, 0))" | c si i where "x = Some (c, si, i)" "i \<noteq> 0" by (metis prod_cases3 not_None_eq)
  then show ?thesis
  proof cases
    case 1
    then show ?thesis using assms unfolding cn by auto
  next
    case 2
    then show ?thesis
      using assms unfolding cn
      by (cases "c \<le> 0x20") (auto simp: bind_eq_Some_conv ldb_def stb_def char_le_space_sign split: if_splits)
  qed
qed

theorem create_name_sign_witness:
  "create_name True demo_dp [0x41, 0x2F, 0x80, 0] = Some (FR_OK, demo_dp\<lparr>fn := sfn_of [0x41] [] @ [NS_LAST]\<rparr>, [0x80, 0])"
proof -
  let ?p = "[0x41, 0x2F, 0x80, 0 :: BYTE]"
  have nc: "name_char 0x41" by (simp add: name_char_def IsSeparator_def sfn_illegal_def)
  have f: "length (fn demo_dp) = 12" by (simp add: demo_dp_def)
  have rp: "(replicate 11 0x20)[0 := 0x41] = sfn_of [0x41 :: BYTE] []" "sfn_of [0x41] [] ! 0 = 0x41" by code_simp+
  have "create_name_loop ?p 0 0 8 sfn = Some (Some (0x2F, 2, 1), sfn[0 := 0x41])" if "sfn \<noteq> []" for sfn
    using name_char_step [of ?p 0 0 8 sfn] name_separator [of ?p "[0x41]" "0x2F" "[]" "0x80" "[0]"] nc that
    by (simp add: to_upper_def IsLower_def IsSeparator_def)
  then have "create_name False demo_dp ?p = Some (FR_OK, demo_dp\<lparr>fn := sfn_of [0x41] [] @ [0]\<rparr>, [0x80, 0])"
    unfolding create_name_def blank_memset [OF f] using rp
    by (simp add: ldb_def stb_def char_le_space_def list_update_append nth_append)
  from create_name_sign [OF this] show ?thesis by (simp add: sfn_of_def nth_append list_update_append)
qed

end
