(* ===== verification/FF_Harness.thy ===== *)
theory FF_Harness
  imports FF_DirOps Clean_Disk
begin

text \<open>
  The programs that drive the module: \<open>harness.c\<close> and \<open>harnesses/harness_*.c\<close>.  One round of the loop
  \<open>__AFL_LOOP\<close> is a function of the test case \<open>buf\<close> (its length is \<open>len\<close>) and of the module's state; the loop
  itself is \<open>afl_loop\<close>.

  The local variables have indeterminate values when a round declares them; they are the argument \<open>l\<close>, and the
  theorems hold for all of its values that have the sizes of the C objects.  The filesystem object \<open>fs\<close> is a
  local variable too, at address 0.  A round that ends with \<open>continue\<close> after a failed \<open>f_mount\<close> leaves it
  registered, and the next round declares it at the same address; \<open>f_mount\<close> then writes its member \<open>fs_type\<close>
  through the stale pointer before it is registered again.
\<close>

section \<open>Local variables and the C library\<close>

record locals =
  lv_fs :: FATFS
  lv_file :: FIL
  lv_fno :: FILINFO
  lv_dir :: DIR
  lv_subdir :: DIR
  lv_subfno :: FILINFO
  lv_path :: buffer
  lv_subpath :: buffer
  lv_rbuf :: buffer

text \<open>The sizes of the objects; \<open>n\<close> and \<open>k\<close> are those of the two path arrays.\<close>

definition locals_ok :: "nat \<Rightarrow> nat \<Rightarrow> locals \<Rightarrow> bool" where
  "locals_ok n k l \<longleftrightarrow> length (win (lv_fs l)) = 512 \<and> length (fname (lv_fno l)) = 13 \<and> length (fname (lv_subfno l)) = 13 \<and>
     length (fn (lv_dir l)) = 12 \<and> length (fn (lv_subdir l)) = 12 \<and> length (lv_path l) = n \<and> length (lv_subpath l) = k \<and>
     length (lv_rbuf l) = 512"

text \<open>The characters of a string object in front of its null byte; \<open>None\<close> if there is none.\<close>

definition cstr :: "buffer \<Rightarrow> buffer option" where
  "cstr b = (if 0 \<in> set b then Some (takeWhile (\<lambda>c. c \<noteq> 0) b) else None)"

text \<open>\<open>snprintf(b, n, ...)\<close> for an output \<open>str\<close>: at most \<open>n - 1\<close> characters and a null byte.\<close>

definition snprintf :: "buffer \<Rightarrow> nat \<Rightarrow> buffer \<Rightarrow> buffer option" where
  "snprintf b n str = memwrite b 0 (take (n - 1) str @ [0])"

text \<open>\<open>snprintf(b, n, "RAM:/")\<close>, \<open>memcpy(b + 5, src + off, k)\<close>, and a null byte at \<open>b[5 + k]\<close>.\<close>

definition ram_path :: "buffer \<Rightarrow> nat \<Rightarrow> buffer \<Rightarrow> nat \<Rightarrow> nat \<Rightarrow> buffer option" where
  "ram_path b n src off k = do {
     b \<leftarrow> snprintf b n (bytes_of ''RAM:/'');
     name \<leftarrow> memread src off k;
     b \<leftarrow> memwrite b 5 name;
     stb b (5 + k) 0
   }"

text \<open>Loading an image into the device, and the declaration of \<open>fs\<close>.\<close>

definition load_image :: "sys \<Rightarrow> buffer \<Rightarrow> sys option" where
  "load_image sy data = do { d \<leftarrow> fuzz_disk_load data; Some (sy\<lparr>sdisk := d\<rparr>) }"

definition declare_fs :: "locals \<Rightarrow> sys \<Rightarrow> sys" where
  "declare_fs l sy = sy\<lparr>objs := (objs sy)(0 := lv_fs l)\<rparr>"

text \<open>\<open>f_open\<close> of an object that is a local variable, \<open>f_close\<close> and the other calls whose result is not used.\<close>

definition unmount :: "sys \<Rightarrow> sys option" where
  "unmount sy = do { (_, sy) \<leftarrow> f_mount sy None (Some RAM) 0; Some sy }"

definition read_file :: "bool \<Rightarrow> locals \<Rightarrow> sys \<Rightarrow> FIL \<Rightarrow> buffer \<Rightarrow> (FIL \<times> sys) option" where
  "read_file sc l sy file path = do {
     (res, file, sy) \<leftarrow> f_open_obj sc sy file (Some path) FA_READ;
     if res = FR_OK then do {
       (_, file, _, _, sy) \<leftarrow> f_read sy file (lv_rbuf l) 512;
       (_, file, sy) \<leftarrow> f_close sy file;
       Some (file, sy)
     } else Some (file, sy)
   }"

section \<open>The harnesses on raw images\<close>

text \<open>\<open>harness_mount.c\<close>: mount the test case, read every file of the root directory.\<close>

partial_function (option) mount_walk ::
    "bool \<Rightarrow> locals \<Rightarrow> sys \<Rightarrow> DIR \<Rightarrow> FILINFO \<Rightarrow> FIL \<Rightarrow> (DIR \<times> sys) option" where
  "mount_walk sc l sy dr fno file = do {
     (res, dr, fno, sy) \<leftarrow> f_readdir sy dr (Some fno);
     fno \<leftarrow> fno;
     c \<leftarrow> (if res = FR_OK then ldb (fname fno) 0 else Some 0);
     if c \<noteq> 0 then do {
       name \<leftarrow> cstr (fname fno);
       path \<leftarrow> snprintf (lv_path l) 64 (bytes_of ''RAM:/'' @ name);
       (file, sy) \<leftarrow> (if fattrib fno AND AM_DIR = 0 then read_file sc l sy file path else Some (file, sy));
       mount_walk sc l sy dr fno file
     } else Some (dr, sy)
   }"

declare mount_walk.simps [code]

definition harness_mount :: "bool \<Rightarrow> locals \<Rightarrow> sys \<Rightarrow> buffer \<Rightarrow> sys option" where
  "harness_mount sc l sy buf = do {
     sy \<leftarrow> load_image sy buf;
     (res, sy) \<leftarrow> f_mount (declare_fs l sy) (Some 0) (Some RAM) 1;
     if res \<noteq> FR_OK then Some sy
     else do {
       (res, dr, sy) \<leftarrow> f_opendir_obj sc sy (lv_dir l) (Some (bytes_of ''RAM:/'' @ [0]));
       sy \<leftarrow> (if res = FR_OK then do {
                (dr, sy) \<leftarrow> mount_walk sc l sy dr (lv_fno l) (lv_file l);
                let (_, dr) = f_closedir sy dr;
                Some sy
              } else Some sy);
       unmount sy
     }
   }"

text \<open>\<open>harness_stat.c\<close>: mount the test case, \<open>f_stat\<close> on the root directory and on all its entries.\<close>

partial_function (option) stat_walk ::
    "bool \<Rightarrow> locals \<Rightarrow> sys \<Rightarrow> DIR \<Rightarrow> FILINFO \<Rightarrow> (DIR \<times> sys) option" where
  "stat_walk sc l sy dr fno = do {
     (res, dr, fno, sy) \<leftarrow> f_readdir sy dr (Some fno);
     fno \<leftarrow> fno;
     c \<leftarrow> (if res = FR_OK then ldb (fname fno) 0 else Some 0);
     if c \<noteq> 0 then do {
       name \<leftarrow> cstr (fname fno);
       path \<leftarrow> snprintf (lv_path l) 64 (bytes_of ''RAM:/'' @ name);
       (_, _, sy) \<leftarrow> f_stat sc sy (Some path) (Some (lv_subfno l));
       stat_walk sc l sy dr fno
     } else Some (dr, sy)
   }"

declare stat_walk.simps [code]

definition harness_stat :: "bool \<Rightarrow> locals \<Rightarrow> sys \<Rightarrow> buffer \<Rightarrow> sys option" where
  "harness_stat sc l sy buf = do {
     sy \<leftarrow> load_image sy buf;
     (res, sy) \<leftarrow> f_mount (declare_fs l sy) (Some 0) (Some RAM) 1;
     if res \<noteq> FR_OK then Some sy
     else do {
       (_, fno, sy) \<leftarrow> f_stat sc sy (Some (bytes_of ''RAM:/'' @ [0])) (Some (lv_fno l));
       fno \<leftarrow> fno;
       (res, dr, sy) \<leftarrow> f_opendir_obj sc sy (lv_dir l) (Some (bytes_of ''RAM:/'' @ [0]));
       sy \<leftarrow> (if res = FR_OK then do {
                (dr, sy) \<leftarrow> stat_walk sc l sy dr fno;
                let (_, dr) = f_closedir sy dr;
                Some sy
              } else Some sy);
       unmount sy
     }
   }"

text \<open>\<open>harness.c\<close>: mount the test case, read the files of the root directory and of its sub-directories, then
  create, write and delete a file and create a directory.\<close>

partial_function (option) main_subwalk ::
    "bool \<Rightarrow> locals \<Rightarrow> buffer \<Rightarrow> sys \<Rightarrow> DIR \<Rightarrow> FILINFO \<Rightarrow> FIL \<Rightarrow> (DIR \<times> FIL \<times> sys) option" where
  "main_subwalk sc l path sy subdir subfno file = do {
     (res, subdir, subfno, sy) \<leftarrow> f_readdir sy subdir (Some subfno);
     subfno \<leftarrow> subfno;
     c \<leftarrow> (if res = FR_OK then ldb (fname subfno) 0 else Some 0);
     if c \<noteq> 0 then do {
       (file, sy) \<leftarrow>
         (if fattrib subfno AND AM_DIR = 0 then do {
            p \<leftarrow> cstr path;
            name \<leftarrow> cstr (fname subfno);
            subpath \<leftarrow> snprintf (lv_subpath l) 96 (p @ bytes_of ''/'' @ name);
            read_file sc l sy file subpath
          } else Some (file, sy));
       main_subwalk sc l path sy subdir subfno file
     } else Some (subdir, file, sy)
   }"

declare main_subwalk.simps [code]

definition main_subdir ::
    "bool \<Rightarrow> locals \<Rightarrow> sys \<Rightarrow> buffer \<Rightarrow> FIL \<Rightarrow> (FIL \<times> sys) option" where
  "main_subdir sc l sy path file = do {
     (res, subdir, sy) \<leftarrow> f_opendir_obj sc sy (lv_subdir l) (Some path);
     if res = FR_OK then do {
       (subdir, file, sy) \<leftarrow> main_subwalk sc l path sy subdir (lv_subfno l) file;
       let (_, subdir) = f_closedir sy subdir;
       Some (file, sy)
     } else Some (file, sy)
   }"

partial_function (option) main_walk ::
    "bool \<Rightarrow> locals \<Rightarrow> sys \<Rightarrow> DIR \<Rightarrow> FILINFO \<Rightarrow> FIL \<Rightarrow> (DIR \<times> FIL \<times> sys) option" where
  "main_walk sc l sy dr fno file = do {
     (res, dr, fno, sy) \<leftarrow> f_readdir sy dr (Some fno);
     fno \<leftarrow> fno;
     c \<leftarrow> (if res = FR_OK then ldb (fname fno) 0 else Some 0);
     if c \<noteq> 0 then do {
       name \<leftarrow> cstr (fname fno);
       path \<leftarrow> snprintf (lv_path l) 64 (bytes_of ''RAM:/'' @ name);
       (file, sy) \<leftarrow> (if fattrib fno AND AM_DIR \<noteq> 0 then main_subdir sc l sy path file
                      else read_file sc l sy file path);
       main_walk sc l sy dr fno file
     } else Some (dr, file, sy)
   }"

declare main_walk.simps [code]

definition main_write :: "bool \<Rightarrow> sys \<Rightarrow> FIL \<Rightarrow> sys option" where
  "main_write sc sy file = do {
     (res, file, sy) \<leftarrow> f_open_obj sc sy file (Some (bytes_of ''RAM:/fuzzw.bin'' @ [0])) (FA_WRITE OR FA_CREATE_ALWAYS);
     sy \<leftarrow> (if res = FR_OK then do {
              (_, file, _, sy) \<leftarrow> f_write sy file (bytes_of ''AFLplusplus-write-probe'' @ [0]) 24;
              (_, file, sy) \<leftarrow> f_close sy file;
              (_, sy) \<leftarrow> f_unlink sc sy (Some (bytes_of ''RAM:/fuzzw.bin'' @ [0]));
              Some sy
            } else Some sy);
     (_, sy) \<leftarrow> f_mkdir sc sy (Some (bytes_of ''RAM:/fuzzdir'' @ [0]));
     Some sy
   }"

definition harness_main :: "bool \<Rightarrow> locals \<Rightarrow> sys \<Rightarrow> buffer \<Rightarrow> sys option" where
  "harness_main sc l sy buf = do {
     sy \<leftarrow> load_image sy buf;
     (res, sy) \<leftarrow> f_mount (declare_fs l sy) (Some 0) (Some RAM) 1;
     if res \<noteq> FR_OK then Some sy
     else do {
       (res, dr, sy) \<leftarrow> f_opendir_obj sc sy (lv_dir l) (Some (bytes_of ''RAM:/'' @ [0]));
       (file, sy) \<leftarrow> (if res = FR_OK then do {
                (dr, file, sy) \<leftarrow> main_walk sc l sy dr (lv_fno l) (lv_file l);
                let (_, dr) = f_closedir sy dr;
                Some (file, sy)
              } else Some (lv_file l, sy));
       sy \<leftarrow> main_write sc sy file;
       unmount sy
     }
   }"

section \<open>The harnesses on the clean image\<close>

text \<open>A round starts with a fresh image and a mounted volume.\<close>

definition clean_mount :: "locals \<Rightarrow> sys \<Rightarrow> (FRESULT \<times> sys) option" where
  "clean_mount l sy = do {
     sy \<leftarrow> load_image sy clean_disk;
     f_mount (declare_fs l sy) (Some 0) (Some RAM) 1
   }"

definition harness_write :: "bool \<Rightarrow> locals \<Rightarrow> sys \<Rightarrow> buffer \<Rightarrow> sys option" where
  "harness_write sc l sy buf =
     (if length buf < 4 then Some sy
      else do {
        b0 \<leftarrow> ldb buf 0;
        let name_len = unat (b0 mod 32 + 1);
        if length buf < 1 + name_len then Some sy
        else do {
          path \<leftarrow> memset (lv_path l) 0 0 64;
          path \<leftarrow> ram_path path 64 buf 1 name_len;
          let data = drop (1 + name_len) buf;
          let data_len = length buf - 1 - name_len;
          (res, sy) \<leftarrow> clean_mount l sy;
          if res \<noteq> FR_OK then Some sy
          else do {
            (res, file, sy) \<leftarrow> f_open_obj sc sy (lv_file l) (Some path) (FA_WRITE OR FA_CREATE_ALWAYS);
            sy \<leftarrow> (if res = FR_OK then do {
                     (_, file, _, sy) \<leftarrow> f_write sy file data (of_nat data_len);
                     (_, file, sy) \<leftarrow> f_lseek sy file 0;
                     (_, file, _, _, sy) \<leftarrow> f_read sy file (lv_rbuf l) 512;
                     (_, file, sy) \<leftarrow> f_close sy file;
                     (_, sy) \<leftarrow> f_unlink sc sy (Some path);
                     Some sy
                   } else Some sy);
            unmount sy
          }
        }
      })"

definition harness_read :: "bool \<Rightarrow> locals \<Rightarrow> sys \<Rightarrow> buffer \<Rightarrow> sys option" where
  "harness_read sc l sy buf =
     (if length buf < 2 then Some sy
      else do {
        b0 \<leftarrow> ldb buf 0;
        let name_len = unat (b0 mod 16 + 1);
        if length buf < 1 + name_len then Some sy
        else do {
          path \<leftarrow> ram_path (lv_path l) 64 buf 1 name_len;
          let data = drop (1 + name_len) buf;
          let data_len = length buf - 1 - name_len;
          (res, sy) \<leftarrow> clean_mount l sy;
          if res \<noteq> FR_OK then Some sy
          else do {
            (res, file, sy) \<leftarrow> f_open_obj sc sy (lv_file l) (Some path) (FA_WRITE OR FA_CREATE_ALWAYS);
            (file, sy) \<leftarrow> (if res = FR_OK then do {
                     (_, file, _, sy) \<leftarrow> f_write sy file data (of_nat data_len);
                     (_, file, sy) \<leftarrow> f_close sy file;
                     Some (file, sy)
                   } else Some (file, sy));
            (res, file, sy) \<leftarrow> f_open_obj sc sy file (Some path) FA_READ;
            sy \<leftarrow> (if res = FR_OK then do {
                     (_, file, rbuf, _, sy) \<leftarrow> f_read sy file (lv_rbuf l) 512;
                     (_, file, sy) \<leftarrow> f_lseek sy file (of_nat (data_len div 2));
                     (_, file, _, _, sy) \<leftarrow> f_read sy file rbuf 512;
                     (_, file, sy) \<leftarrow> f_close sy file;
                     Some sy
                   } else Some sy);
            unmount sy
          }
        }
      })"

text \<open>The first four bytes of the test case, the most significant one first.\<close>

definition seek_offset :: "buffer \<Rightarrow> DWORD option" where
  "seek_offset buf = do {
     b0 \<leftarrow> ldb buf 0;
     b1 \<leftarrow> ldb buf 1;
     b2 \<leftarrow> ldb buf 2;
     b3 \<leftarrow> ldb buf 3;
     Some (push_bit 24 (ucast b0) OR push_bit 16 (ucast b1) OR push_bit 8 (ucast b2) OR ucast b3)
   }"

definition harness_seek :: "bool \<Rightarrow> locals \<Rightarrow> sys \<Rightarrow> buffer \<Rightarrow> sys option" where
  "harness_seek sc l sy buf =
     (if length buf < 8 then Some sy
      else do {
        seek_off \<leftarrow> seek_offset buf;
        (res, sy) \<leftarrow> clean_mount l sy;
        if res \<noteq> FR_OK then Some sy
        else do {
          (res, file, sy) \<leftarrow> f_open_obj sc sy (lv_file l) (Some (bytes_of ''RAM:/seektest.bin'' @ [0])) (FA_WRITE OR FA_CREATE_ALWAYS);
          sy \<leftarrow> (if res = FR_OK then do {
                   (_, file, _, sy) \<leftarrow> f_write sy file (drop 4 buf) (of_nat (length buf - 4));
                   (_, file, sy) \<leftarrow> f_lseek sy file seek_off;
                   (_, file, _, _, sy) \<leftarrow> f_read sy file (lv_rbuf l) 512;
                   (_, file, sy) \<leftarrow> f_close sy file;
                   Some sy
                 } else Some sy);
          unmount sy
        }
      })"

definition harness_unlink :: "bool \<Rightarrow> locals \<Rightarrow> sys \<Rightarrow> buffer \<Rightarrow> sys option" where
  "harness_unlink sc l sy buf =
     (if length buf < 2 then Some sy
      else do {
        b0 \<leftarrow> ldb buf 0;
        let name_len = unat (b0 mod 16 + 1);
        if length buf < 1 + name_len then Some sy
        else do {
          path \<leftarrow> ram_path (lv_path l) 64 buf 1 name_len;
          (res, sy) \<leftarrow> clean_mount l sy;
          if res \<noteq> FR_OK then Some sy
          else do {
            (res, file, sy) \<leftarrow> f_open_obj sc sy (lv_file l) (Some path) (FA_WRITE OR FA_CREATE_ALWAYS);
            sy \<leftarrow> (if res = FR_OK then do {
                     (_, file, _, sy) \<leftarrow> f_write sy file buf (of_nat (length buf));
                     (_, file, sy) \<leftarrow> f_close sy file;
                     (_, sy) \<leftarrow> f_unlink sc sy (Some path);
                     Some sy
                   } else Some sy);
            unmount sy
          }
        }
      })"

definition harness_mkdir :: "bool \<Rightarrow> locals \<Rightarrow> sys \<Rightarrow> buffer \<Rightarrow> sys option" where
  "harness_mkdir sc l sy buf =
     (if length buf < 2 then Some sy
      else do {
        b0 \<leftarrow> ldb buf 0;
        let name_len = unat (b0 mod 16 + 1);
        if length buf < 1 + name_len then Some sy
        else do {
          dname \<leftarrow> ram_path (lv_path l) 64 buf 1 name_len;
          (res, sy) \<leftarrow> clean_mount l sy;
          if res \<noteq> FR_OK then Some sy
          else do {
            (_, sy) \<leftarrow> f_mkdir sc sy (Some dname);
            d \<leftarrow> cstr dname;
            fpath \<leftarrow> snprintf (lv_subpath l) 96 (d @ bytes_of ''/test.txt'');
            (res, file, sy) \<leftarrow> f_open_obj sc sy (lv_file l) (Some fpath) (FA_WRITE OR FA_CREATE_ALWAYS);
            sy \<leftarrow> (if res = FR_OK then do {
                     (_, file, _, sy) \<leftarrow> f_write sy file buf (of_nat (length buf));
                     (_, file, sy) \<leftarrow> f_close sy file;
                     Some sy
                   } else Some sy);
            unmount sy
          }
        }
      })"

text \<open>The arrays \<open>src\<close> and \<open>dst\<close> have 32 bytes each.\<close>

definition harness_rename :: "bool \<Rightarrow> locals \<Rightarrow> sys \<Rightarrow> buffer \<Rightarrow> sys option" where
  "harness_rename sc l sy buf =
     (if length buf < 6 then Some sy
      else do {
        b0 \<leftarrow> ldb buf 0;
        let src_len = unat (b0 mod 16 + 1);
        if length buf < 1 + src_len + 1 then Some sy
        else do {
          b1 \<leftarrow> ldb buf (1 + src_len);
          let dst_len = unat (b1 mod 16 + 1);
          if length buf < 1 + src_len + 1 + dst_len then Some sy
          else do {
            src \<leftarrow> ram_path (lv_path l) 32 buf 1 src_len;
            dst \<leftarrow> ram_path (lv_subpath l) 32 buf (1 + src_len + 1) dst_len;
            (res, sy) \<leftarrow> clean_mount l sy;
            if res \<noteq> FR_OK then Some sy
            else do {
              (res, file, sy) \<leftarrow> f_open_obj sc sy (lv_file l) (Some src) (FA_WRITE OR FA_CREATE_ALWAYS);
              sy \<leftarrow> (if res = FR_OK then do {
                       (_, file, _, sy) \<leftarrow> f_write sy file (bytes_of ''fuzz'' @ [0]) 4;
                       (_, file, sy) \<leftarrow> f_close sy file;
                       (_, sy) \<leftarrow> f_rename sc sy (Some src) (Some dst);
                       Some sy
                     } else Some sy);
              unmount sy
            }
          }
        }
      })"

section \<open>The loop over the test cases\<close>

text \<open>\<open>while (__AFL_LOOP(10000))\<close>: one round per test case, with the locals of the round.\<close>

fun afl_loop :: "(locals \<Rightarrow> sys \<Rightarrow> buffer \<Rightarrow> sys option) \<Rightarrow> (locals \<times> buffer) list \<Rightarrow> sys \<Rightarrow> sys option" where
  "afl_loop body [] sy = Some sy"
| "afl_loop body ((l, buf) # cs) sy = do { sy \<leftarrow> body l sy buf; afl_loop body cs sy }"

section \<open>Rules\<close>

text \<open>Between two rounds no object but \<open>fs\<close> is registered or mounted.\<close>

definition idle :: "sys \<Rightarrow> bool" where
  "idle sy \<longleftrightarrow> (FatFs sy = None \<or> FatFs sy = Some 0) \<and> (\<forall>a. length (win (objs sy a)) = 512) \<and> (\<forall>a. a \<noteq> 0 \<longrightarrow> fs_type (objs sy a) = 0)"

text \<open>During a round \<open>fs\<close> is registered; \<open>m\<close> says that its second FAT does not wrap around.\<close>

definition during :: "bool \<Rightarrow> sys \<Rightarrow> bool" where
  "during m sy \<longleftrightarrow> sys_ok sy \<and> FatFs sy = Some 0 \<and> (m \<longrightarrow> fs_type (objs sy 0) \<noteq> 0 \<and> mirror_ok (objs sy 0))"

named_theorems during_intros "rules for the calls of a round"

lemma during_idle: "during m sy \<Longrightarrow> idle sy"
  by (auto simp: during_def idle_def sys_ok_def)

lemma during_keeps: "during m sy \<Longrightarrow> sys_ok sy' \<Longrightarrow> keeps sy sy' \<Longrightarrow> during m sy'"
  by (auto simp: during_def keeps_def geo_eq_iff mirror_ok_def)

lemma during_safe: "during True sy \<Longrightarrow> cstring p \<Longrightarrow> fat_safe sy (Some p) mode"
  by (auto simp: during_def fat_safe_def mount_volume_def disk_status_def Let_def bind_eq_Some_conv split: option.split if_splits prod.splits)

lemma during_ok: "during m sy \<Longrightarrow> sys_ok sy"
  by (simp add: during_def)

lemma during_open [during_intros]:
  assumes "during m sy" "cstring p" "mode AND FA_NEW \<noteq> 0 \<longrightarrow> m"
    and "\<And>r fp' sy'. during m sy' \<Longrightarrow> r = FR_OK \<longrightarrow> fok fp' \<Longrightarrow> Q (r, fp', sy')"
  shows "wp (f_open_obj sc sy fp (Some p) mode) Q"
  using assms(1-3) by (intro f_open_obj_wp during_ok [OF assms(1)] assms(4) during_keeps [OF assms(1)]) (auto intro: during_safe)

lemma during_read [during_intros]:
  assumes "during m sy" "unat n \<le> length b" "fok fp"
    and "\<And>r fp' b' k sy'. during m sy' \<Longrightarrow> fok fp' \<Longrightarrow> length b' = length b \<Longrightarrow> Q (r, fp', b', k, sy')"
  shows "wp (f_read sy fp b n) Q"
  using assms(1-3) by (intro f_read_wp during_ok [OF assms(1)] assms(4) during_keeps [OF assms(1)]) (auto simp: fsame_def fok_def)

lemma during_write [during_intros]:
  assumes "during m sy" "unat n \<le> length b" "fok fp"
    and "\<And>r fp' k sy'. during m sy' \<Longrightarrow> fok fp' \<Longrightarrow> Q (r, fp', k, sy')"
  shows "wp (f_write sy fp b n) Q"
  using assms(1-3) by (intro f_write_wp during_ok [OF assms(1)] assms(4) during_keeps [OF assms(1)]) (auto simp: wsame_def fok_def)

lemma during_file [during_intros]:
  assumes "during m sy" "fok fp" "\<And>r fp' sy'. during m sy' \<Longrightarrow> fok fp' \<Longrightarrow> Q (r, fp', sy')"
  shows "wp (f_lseek sy fp ofs) Q" "wp (f_close sy fp) Q"
  using assms(2) by (auto intro!: f_lseek_wp f_close_wp during_ok [OF assms(1)] assms(3) during_keeps [OF assms(1)])

lemma during_entry [during_intros]:
  assumes "during True sy" "cstring p" "\<And>r sy'. during True sy' \<Longrightarrow> Q (r, sy')"
  shows "wp (f_unlink sc sy (Some p)) Q" "wp (f_mkdir sc sy (Some p)) Q" "cstring q \<Longrightarrow> wp (f_rename sc sy (Some p) (Some q)) Q"
  using assms(2)
  by (auto intro!: f_unlink_wp f_mkdir_wp f_rename_wp during_safe [OF assms(1)] during_ok [OF assms(1)] assms(3) during_keeps [OF assms(1)])

lemma during_opendir [during_intros]:
  assumes "during m sy" "cstring p" "length (fn dp) = 12" "\<And>r dp' sy'. during m sy' \<Longrightarrow> r = FR_OK \<longrightarrow> dok dp' \<Longrightarrow> Q (r, dp', sy')"
  shows "wp (f_opendir_obj sc sy dp (Some p)) Q"
  using assms(1-3) by (intro f_opendir_obj_wp during_ok [OF assms(1)] assms(4) during_keeps [OF assms(1)]) auto

lemma during_stat [during_intros]:
  assumes "during m sy" "cstring p" "length (fname f) = 13" "\<And>r f' sy'. during m sy' \<Longrightarrow> length (fname f') = 13 \<Longrightarrow> Q (r, Some f', sy')"
  shows "wp (f_stat sc sy (Some p) (Some f)) Q"
proof -
  have "wp (f_stat sc sy (Some p) (Some f)) (\<lambda>(r, f', sy'). during m sy' \<and> (\<forall>f. f' = Some f \<longrightarrow> length (fname f) = 13))"
    using assms(2,3) by (intro f_stat_wp during_ok [OF assms(1)]) (auto intro: during_keeps [OF assms(1)])
  moreover have "f' \<noteq> None" if "f_stat sc sy (Some p) (Some f) = Some (r, f', sy')" for r f' sy'
    using that by (auto simp: f_stat_def f_stat_vol_def bind_eq_Some_conv split: if_splits)
  ultimately show ?thesis using assms(4) by (fastforce simp: wp_def)
qed

lemma during_readdir [during_intros]:
  assumes "during m sy" "dok dp" "length (fname f) = 13"
    and "\<And>r dp' f' sy'. \<lbrakk>during m sy'; dok dp'; length (fname f') = 13;
              r = FR_OK \<longrightarrow> 0 \<in> set (fname f') \<and> (fname f' ! 0 \<noteq> 0 \<longrightarrow> dleft dp' < dleft dp)\<rbrakk> \<Longrightarrow> Q (r, dp', Some f', sy')"
  shows "wp (f_readdir sy dp (Some f)) Q"
  using assms(1-3) by (intro f_readdir_left during_ok [OF assms(1)] assms(4) during_keeps [OF assms(1)]) auto

text \<open>The start and the end of a round.\<close>

lemma load_image_wp [during_intros]:
  "idle sy \<Longrightarrow> (\<And>sy'. idle sy' \<Longrightarrow> Q sy') \<Longrightarrow> wp (load_image sy data) Q"
  by (simp add: load_image_def fuzz_disk_load_def disk_put_def memread_def idle_def Let_def)

lemma round_mount [during_intros]:
  assumes "idle sy" "length (win (lv_fs l)) = 512" "\<And>r sy'. during False sy' \<Longrightarrow> Q (r, sy')"
  shows "wp (f_mount (declare_fs l sy) (Some 0) (Some RAM) 1) Q"
proof -
  let ?sy = "(declare_fs l sy)\<lparr>objs := (objs (declare_fs l sy))(0 := (lv_fs l)\<lparr>pdrv := 0, fs_type := 0\<rparr>), FatFs := Some 0\<rparr>"
  have "sys_ok ?sy" using assms(1,2) by (simp add: sys_ok_def idle_def declare_fs_def)
  then have "wp (mount_volume ?sy (Some RAM) 0) (\<lambda>(r, a, p, sy'). during False sy')"
    by (intro mount_volume_wp) (auto simp: during_def keeps_def)
  then show ?thesis
    using assms(1,3) by (auto simp: f_mount_def idle_def wp_def declare_fs_def Let_def)
qed

lemma during_clean:
  assumes "idle sy" "sdisk sy = clean_image"
  shows "during True (clean_sys sy)"
proof -
  have "gok (clean_fs i)" "coh (load_vol (clean_sys sy) 0)" "length (win (clean_fs i)) = 512" "mirror_ok (clean_fs i)" for i
    using assms(2) by (simp_all add: gok_def coh_def clean_fs_def mirror_ok_def load_vol_def clean_sys_def FATFS.defs vol.defs)
  then show ?thesis
    using assms(1) by (simp add: during_def sys_ok_def idle_def) (simp add: clean_sys_def clean_fs_def)
qed

lemma clean_mount_wp [during_intros]:
  assumes "idle sy" "length (win (lv_fs l)) = 512" "\<And>sy'. during True sy' \<Longrightarrow> Q (FR_OK, sy')"
  shows "wp (clean_mount l sy) Q"
proof -
  let ?sy = "declare_fs l (sy\<lparr>sdisk := clean_image\<rparr>)"
  have i: "idle ?sy" "sdisk ?sy = clean_image" using assms(1,2) by (simp_all add: idle_def declare_fs_def)
  then have "f_mount ?sy (Some 0) (Some RAM) 1 = Some (FR_OK, clean_sys ?sy)"
    by (intro f_mount_clean) (auto simp: idle_def)
  then show ?thesis
    using assms(3) [OF during_clean [OF i]] by (simp add: clean_mount_def load_image_def load_clean)
qed

lemma unmount_wp [during_intros]:
  assumes "during m sy" "\<And>sy'. idle sy' \<Longrightarrow> Q sy'"
  shows "wp (unmount sy) Q"
  using during_idle [OF assms(1)] assms(1)
  by (auto simp: unmount_def f_mount_def during_def wp_def idle_def intro!: assms(2))

lemma ram_path_wp [during_intros]:
  assumes "length b = n" "6 + k \<le> n" "off + k \<le> length src" "6 \<le> n" "\<And>p. cstring p \<Longrightarrow> length p = n \<Longrightarrow> Q p"
  shows "wp (ram_path b n src off k) Q"
  using assms(1-4) by (auto simp: ram_path_def snprintf_def wp_simps cstring_def set_update_memI intro!: assms(5))

lemma snprintf_wp [during_intros]:
  assumes "length b = n" "0 < n" "\<And>p. cstring p \<Longrightarrow> length p = n \<Longrightarrow> Q p"
  shows "wp (snprintf b n str) Q"
proof -
  have "length (take (n - 1) str) < n" using assms(2) by simp
  then show ?thesis
    using assms(1) by (auto simp: snprintf_def wp_simps cstring_def simp del: length_take intro!: assms(3))
qed

lemma cstr_wp [during_intros]: "0 \<in> set b \<Longrightarrow> (\<And>s. Q s) \<Longrightarrow> wp (cstr b) Q"
  by (simp add: cstr_def)

lemma during_read_file [during_intros]:
  assumes "during m sy" "cstring p" "length (lv_rbuf l) = 512" "\<And>file' sy'. during m sy' \<Longrightarrow> Q (file', sy')"
  shows "wp (read_file sc l sy file p) Q"
  unfolding read_file_def using assms(1-3)
  by (auto simp: wp_simps intro!: during_intros assms(4))

section \<open>Every round returns\<close>

lemma name_len:
  fixes b :: BYTE
  shows "unat (b mod 16 + 1) \<le> 16" "unat (b mod 32 + 1) \<le> 32"
proof -
  have "unat (b mod 16) < 16" "unat (b mod 32) < 32" by (simp_all add: unat_mod)
  then show "unat (b mod 16 + 1) \<le> 16" "unat (b mod 32 + 1) \<le> 32" by (simp_all add: unat_word_ariths)
qed

lemma unat_of_nat_le: "unat (of_nat n :: DWORD) \<le> n"
  by (simp add: unat_of_nat)

lemma harness_write_wp:
  assumes "idle sy" "locals_ok 64 k l"
  shows "wp (harness_write sc l sy buf) idle"
  unfolding harness_write_def Let_def using assms name_len [of "buf ! 0"]
  by (auto simp: wp_simps locals_ok_def simp del: of_nat_diff intro!: during_intros unat_of_nat_le)

lemma harness_read_wp:
  assumes "idle sy" "locals_ok 64 k l"
  shows "wp (harness_read sc l sy buf) idle"
  unfolding harness_read_def Let_def using assms name_len [of "buf ! 0"]
  by (auto simp: wp_simps locals_ok_def simp del: of_nat_diff intro!: during_intros unat_of_nat_le)

lemma harness_seek_wp:
  assumes "idle sy" "locals_ok n k l"
  shows "wp (harness_seek sc l sy buf) idle"
  unfolding harness_seek_def seek_offset_def Let_def using assms
  by (auto simp: wp_simps locals_ok_def cstring_def simp del: of_nat_diff intro!: during_intros unat_of_nat_le)

lemma harness_unlink_wp:
  assumes "idle sy" "locals_ok 64 k l"
  shows "wp (harness_unlink sc l sy buf) idle"
  unfolding harness_unlink_def Let_def using assms name_len [of "buf ! 0"]
  by (auto simp: wp_simps locals_ok_def intro!: during_intros unat_of_nat_le)

lemma harness_mkdir_wp:
  assumes "idle sy" "locals_ok 64 96 l"
  shows "wp (harness_mkdir sc l sy buf) idle"
  unfolding harness_mkdir_def Let_def using assms name_len [of "buf ! 0"]
  by (auto simp: wp_simps locals_ok_def intro!: during_intros unat_of_nat_le) (auto simp: cstring_def)

lemma harness_rename_wp:
  assumes "idle sy" "locals_ok 32 32 l"
  shows "wp (harness_rename sc l sy buf) idle"
  unfolding harness_rename_def Let_def using assms name_len [of "buf ! 0"] name_len [of "buf ! (1 + unat (buf ! 0 mod 16 + 1))"]
  by (auto simp: wp_simps locals_ok_def intro!: during_intros unat_of_nat_le)

text \<open>The walks through a directory end because each entry leaves fewer in front of the object.\<close>

lemma mount_walk_wp:
  assumes "during m sy" "dok dp" "length (fname fno) = 13" "locals_ok 64 k l"
  shows "wp (mount_walk sc l sy dp fno fp) (\<lambda>(dp', sy'). during m sy')"
  using assms(1-3)
proof (induction "dleft dp" arbitrary: sy dp fno fp rule: less_induct)
  case less
  have l: "length (lv_path l) = 64" "length (lv_rbuf l) = 512" using assms(4) by (simp_all add: locals_ok_def)
  show ?case
    using less.prems l
    by (subst mount_walk.simps) (auto simp: wp_simps intro!: during_intros less.hyps)
qed

lemma stat_walk_wp:
  assumes "during m sy" "dok dp" "length (fname fno) = 13" "locals_ok 64 k l"
  shows "wp (stat_walk sc l sy dp fno) (\<lambda>(dp', sy'). during m sy')"
  using assms(1-3)
proof (induction "dleft dp" arbitrary: sy dp fno rule: less_induct)
  case less
  have l: "length (lv_path l) = 64" "length (fname (lv_subfno l)) = 13" using assms(4) by (simp_all add: locals_ok_def)
  show ?case
    using less.prems l
    by (subst stat_walk.simps) (auto simp: wp_simps intro!: during_intros less.hyps)
qed

lemma main_subwalk_wp:
  assumes "during m sy" "dok dp" "length (fname fno) = 13" "locals_ok 64 96 l" "cstring path"
  shows "wp (main_subwalk sc l path sy dp fno fp) (\<lambda>(dp', file', sy'). during m sy')"
  using assms(1-3)
proof (induction "dleft dp" arbitrary: sy dp fno fp rule: less_induct)
  case less
  have l: "length (lv_subpath l) = 96" "length (lv_rbuf l) = 512" using assms(4) by (simp_all add: locals_ok_def)
  have p: "0 \<in> set path" using assms(5) by (simp add: cstring_def)
  show ?case
    using less.prems l p
    by (subst main_subwalk.simps) (auto simp: wp_simps intro!: during_intros less.hyps)
qed

lemma main_subdir_wp [during_intros]:
  assumes "during m sy" "cstring path" "locals_ok 64 96 l" "\<And>file' sy'. during m sy' \<Longrightarrow> Q (file', sy')"
  shows "wp (main_subdir sc l sy path fp) Q"
proof -
  have "wp (main_subwalk sc l path sy' dp (lv_subfno l) fp) (\<lambda>(dp', file', sy'). Q (file', sy'))" if "during m sy'" "dok dp" for sy' dp
    by (rule wp_mono [OF main_subwalk_wp [OF that _ assms(3,2)]]) (use assms(3) in \<open>auto simp: locals_ok_def intro!: assms(4)\<close>)
  then show ?thesis
    unfolding main_subdir_def using assms(1-3)
    by (auto simp: wp_simps locals_ok_def split: prod.split intro!: during_opendir assms(4))
qed

lemma main_walk_wp:
  assumes "during m sy" "dok dp" "length (fname fno) = 13" "locals_ok 64 96 l"
  shows "wp (main_walk sc l sy dp fno fp) (\<lambda>(dp', file', sy'). during m sy')"
  using assms(1-3)
proof (induction "dleft dp" arbitrary: sy dp fno fp rule: less_induct)
  case less
  have l: "length (lv_path l) = 64" "length (lv_rbuf l) = 512" using assms(4) by (simp_all add: locals_ok_def)
  show ?case
    using less.prems l assms(4)
    by (subst main_walk.simps) (auto simp: wp_simps intro!: during_intros less.hyps)
qed

text \<open>\<open>harness.c\<close> also deletes: it needs an image whose volume, when \<open>f_mount\<close> accepts it, has a second FAT
  that does not wrap around.  The object \<open>fs\<close> before the BPB is read, and the condition.\<close>

definition fresh_fs :: "locals \<Rightarrow> disk \<Rightarrow> vol" where
  "fresh_fs l d = FATFS.extend ((lv_fs l)\<lparr>pdrv := 0, fs_type := 0\<rparr>) (vol.fields d)"

definition image_safe :: "locals \<Rightarrow> buffer \<Rightarrow> bool" where
  "image_safe l buf =
     (case fuzz_disk_load buf of
        None \<Rightarrow> True
      | Some d \<Rightarrow> (case mount_fs (fresh_fs l d) 0 0 of None \<Rightarrow> True | Some (r, i, s) \<Rightarrow> r = FR_OK \<longrightarrow> mirror_ok s))"

lemma mount_fs_id:
  assumes "mount_fs s i m = Some (r, i', s')"
  shows "\<exists>k t. mount_fs s 0 m = Some (r, k, t) \<and> mirror_ok t = mirror_ok s'"
proof (cases "find_volume (s\<lparr>fs_type := 0\<rparr>) 0")
  case None
  then show ?thesis using assms by (auto simp: mount_fs_def Let_def split: if_splits)
next
  case (Some p)
  obtain f b where p: "p = (f, b)" by (cases p)
  show ?thesis
    using assms unfolding mount_fs_def Let_def Some p
    by (cases "mount_bpb b (winsect b)") (auto simp: mirror_ok_def split: if_splits)
qed

lemma round_mount_safe:
  assumes "idle sy" "locals_ok n k l" "fuzz_disk_load buf = Some (sdisk sy)" "image_safe l buf"
    and Q: "\<And>r sy'. during (r = FR_OK) sy' \<Longrightarrow> Q (r, sy')"
  shows "wp (f_mount (declare_fs l sy) (Some 0) (Some RAM) 1) Q"
proof -
  let ?sy = "(declare_fs l sy)\<lparr>objs := (objs (declare_fs l sy))(0 := (lv_fs l)\<lparr>pdrv := 0, fs_type := 0\<rparr>), FatFs := Some 0\<rparr>"
  have ok: "sys_ok ?sy" using assms(1,2) by (simp add: sys_ok_def idle_def declare_fs_def locals_ok_def)
  have v: "load_vol ?sy 0 = fresh_fs l (sdisk sy)" by (simp add: load_vol_def fresh_fs_def declare_fs_def)
  have w: "wp (mount_fs (load_vol ?sy 0) (Fsid sy) 0) (\<lambda>(r, i, s'). vok s' \<and> (r = FR_OK \<longrightarrow> gok s'))"
    using assms(2) by (intro mount_fs_wp) (auto simp: locals_ok_def)
  then obtain r i s' where m: "mount_fs (load_vol ?sy 0) (Fsid sy) 0 = Some (r, i, s')" "r = FR_OK \<longrightarrow> gok s'" by (auto simp: wp_def)
  then have mo: "r = FR_OK \<longrightarrow> mirror_ok s'"
    using mount_fs_id [OF m(1)] assms(3,4) by (auto simp: image_safe_def v)
  have mv: "mount_volume ?sy (Some RAM) 0 = Some (r, Some 0, Some [0], (store_vol ?sy 0 s')\<lparr>Fsid := i\<rparr>)"
    using m(1) by (simp add: mount_volume_def declare_fs_def)
  have "wp (mount_volume ?sy (Some RAM) 0) (\<lambda>(r, a, p, sy'). sys_ok sy')"
    using ok by (intro mount_volume_wp) auto
  then have "during (r = FR_OK) ((store_vol ?sy 0 s')\<lparr>Fsid := i\<rparr>)"
    using m(2) mo by (auto simp: mv during_def gok_def)
  moreover have "f_mount (declare_fs l sy) (Some 0) (Some RAM) 1 = Some (r, (store_vol ?sy 0 s')\<lparr>Fsid := i\<rparr>)"
    using mv assms(1) by (auto simp: f_mount_def idle_def declare_fs_def Let_def)
  ultimately show ?thesis by (simp add: Q)
qed

lemma harness_mount_wp:
  assumes "idle sy" "locals_ok 64 k l"
  shows "wp (harness_mount sc l sy buf) idle"
proof -
  have wk: "wp (mount_walk sc l sy' dp (lv_fno l) (lv_file l)) (\<lambda>(dp', sy'). wp (unmount sy') idle)"
    if "during m sy'" "dok dp" for m sy' dp
    by (rule wp_mono [OF mount_walk_wp [OF that _ assms(2)]]) (use assms(2) in \<open>auto simp: locals_ok_def intro: unmount_wp\<close>)
  show ?thesis
    unfolding harness_mount_def using assms
    by (auto simp: wp_simps locals_ok_def cstring_def split: prod.split
        intro!: load_image_wp round_mount during_opendir unmount_wp wk intro: during_idle)
qed

lemma harness_stat_wp:
  assumes "idle sy" "locals_ok 64 k l"
  shows "wp (harness_stat sc l sy buf) idle"
proof -
  have wk: "wp (stat_walk sc l sy' dp fno) (\<lambda>(dp', sy'). wp (unmount sy') idle)"
    if "during m sy'" "dok dp" "length (fname fno) = 13" for m sy' dp fno
    by (rule wp_mono [OF stat_walk_wp [OF that assms(2)]]) (auto intro: unmount_wp)
  show ?thesis
    unfolding harness_stat_def using assms
    by (auto simp: wp_simps locals_ok_def cstring_def split: prod.split
        intro!: load_image_wp round_mount during_stat during_opendir unmount_wp wk intro: during_idle)
qed

lemma main_write_wp [during_intros]:
  assumes "during True sy" "\<And>sy'. during True sy' \<Longrightarrow> Q sy'"
  shows "wp (main_write sc sy fp) Q"
  unfolding main_write_def using assms(1)
  by (auto simp: wp_simps cstring_def intro!: during_intros assms(2))

lemma harness_main_wp:
  assumes "idle sy" "locals_ok 64 96 l" "image_safe l buf"
  shows "wp (harness_main sc l sy buf) idle"
proof -
  obtain d where d: "fuzz_disk_load buf = Some d"
    by (cases "65536 < length buf") (auto simp: fuzz_disk_load_def disk_put_def memread_def Let_def)
  have i: "idle (sy\<lparr>sdisk := d\<rparr>)" using assms(1) by (simp add: idle_def)
  have wk: "wp (main_walk sc l sy' dp (lv_fno l) fp) (\<lambda>(dp', fp', sy'). wp (main_write sc sy' fp') (\<lambda>sy'. wp (unmount sy') idle))"
    if "during True sy'" "dok dp" for sy' dp fp
    by (rule wp_mono [OF main_walk_wp [OF that _ assms(2)]])
      (use assms(2) in \<open>auto simp: locals_ok_def intro!: main_write_wp intro: unmount_wp\<close>)
  have mt: "wp (f_mount (declare_fs l (sy\<lparr>sdisk := d\<rparr>)) (Some 0) (Some RAM) 1) Q"
    if "\<And>r sy'. during (r = FR_OK) sy' \<Longrightarrow> Q (r, sy')" for Q
    using i d assms(2,3) by (intro round_mount_safe that) auto
  show ?thesis
    unfolding harness_main_def load_image_def d using assms(1,2)
    by (auto simp: wp_simps locals_ok_def cstring_def split: prod.split
        intro!: mt during_opendir main_write_wp wk unmount_wp intro: during_idle)
qed

section \<open>The loop returns\<close>

text \<open>The contract of a round, and the loop over any number of test cases.\<close>

locale fuzz_round =
  fixes body :: "locals \<Rightarrow> sys \<Rightarrow> buffer \<Rightarrow> sys option"
    and adm :: "locals \<Rightarrow> buffer \<Rightarrow> bool"
  assumes round_returns: "idle sy \<Longrightarrow> adm l buf \<Longrightarrow> wp (body l sy buf) idle"
begin

lemma loop_returns:
  "idle sy \<Longrightarrow> \<forall>(l, buf) \<in> set cs. adm l buf \<Longrightarrow> wp (afl_loop body cs sy) idle"
proof (induction cs arbitrary: sy)
  case (Cons c cs)
  then show ?case
    by (cases c) (auto simp: wp_bind intro!: wp_mono [OF round_returns])
qed simp

end

interpretation hw: fuzz_round "harness_write sc" "\<lambda>l buf. locals_ok 64 k l" for sc k
  by unfold_locales (rule harness_write_wp)

interpretation hr: fuzz_round "harness_read sc" "\<lambda>l buf. locals_ok 64 k l" for sc k
  by unfold_locales (rule harness_read_wp)

interpretation hsk: fuzz_round "harness_seek sc" "\<lambda>l buf. locals_ok n k l" for sc n k
  by unfold_locales (rule harness_seek_wp)

interpretation hul: fuzz_round "harness_unlink sc" "\<lambda>l buf. locals_ok 64 k l" for sc k
  by unfold_locales (rule harness_unlink_wp)

interpretation hmk: fuzz_round "harness_mkdir sc" "\<lambda>l buf. locals_ok 64 96 l" for sc
  by unfold_locales (rule harness_mkdir_wp)

interpretation hrn: fuzz_round "harness_rename sc" "\<lambda>l buf. locals_ok 32 32 l" for sc
  by unfold_locales (rule harness_rename_wp)

interpretation hmt: fuzz_round "harness_mount sc" "\<lambda>l buf. locals_ok 64 k l" for sc k
  by unfold_locales (rule harness_mount_wp)

interpretation hst: fuzz_round "harness_stat sc" "\<lambda>l buf. locals_ok 64 k l" for sc k
  by unfold_locales (rule harness_stat_wp)

interpretation hmain: fuzz_round "harness_main sc" "\<lambda>l buf. locals_ok 64 96 l \<and> image_safe l buf" for sc
  by unfold_locales (auto intro: harness_main_wp)

end
