(* ===== verification/Props_Mount.thy ===== *)
theory Props_Mount
  imports FF_Harness FF_Demo
begin

text \<open>
  Properties of mounting, and of the programs that drive the module: what \<open>f_mount\<close> accepts and what it makes
  of the objects that were open before, the image of the harnesses, and that the harnesses return on every test case.
\<close>

section \<open>Mounting\<close>

text \<open>The module before the first call, with the clean image in the device.\<close>

definition start_sys :: sys where
  "start_sys = (wsys (world_of clean_image))"

lemma clean_start: "sys_ok start_sys" "f_mount start_sys (Some 0) (Some RAM) 1 = Some (FR_OK, clean_sys start_sys)"
  by (simp_all add: start_sys_def world_of_def sys_ok_def blank_FATFS_def f_mount_clean)

text \<open>The sub-type that \<open>mount_bpb\<close> returns is the one of the number of clusters.\<close>

lemma mount_bpb_type:
  assumes "vok s"
  shows "wp (mount_bpb s bsect) (\<lambda>(r, fmt, s'). r = FR_OK \<longrightarrow> fmt = fat_subtype (n_fatent s' - 2))"
proof -
  have lim: "wp (mount_limits s' fmt bs n sys rsv fa) P"
    if "vok s'" "\<And>r s''. vok s'' \<Longrightarrow> n_fatent s'' = n + 2 \<Longrightarrow> P (r, s'')" for s' fmt bs n sys rsv fa P
    unfolding mount_limits_def using that(1) by (auto simp: wp_simps Let_def intro!: ld_word_wp ld_dword_wp that(2))
  have inf: "wp (mount_fsinfo s' fmt bs) P" if "vok s'" "\<And>s''. n_fatent s'' = n_fatent s' \<Longrightarrow> P s''" for s' fmt bs P
    using that(1) by (intro mount_fsinfo_wp that(2)) (auto simp: goodD)
  show ?thesis
    unfolding mount_bpb_def using assms by (auto simp: wp_simps Let_def intro!: ld_word_wp ld_dword_wp lim inf)
qed

lemma mount_fs_type:
  assumes "length (win s) = 512"
  shows "wp (mount_fs s i 0) (\<lambda>(r, j, s'). r = FR_OK \<longrightarrow> fs_type s' = fat_subtype (n_fatent s' - 2))"
  unfolding mount_fs_def using assms
  by (auto simp: wp_simps Let_def disk_initialize_def intro!: find_volume_wp wp_mono [OF mount_bpb_type])

text \<open>What a successful \<open>f_mount\<close> leaves.\<close>

lemma f_mount_result:
  assumes "sys_ok sy" "f_mount sy (Some a) (Some p) 1 = Some (FR_OK, sy')"
  shows "FatFs sy' = Some a" "gok (objs sy' a)" "fs_type (objs sy' a) = fat_subtype (n_fatent (objs sy' a) - 2)"
    "fs_id (objs sy' a) = Fsid sy + 1" "Fsid sy' = Fsid sy + 1" "b \<noteq> a \<Longrightarrow> fs_type (objs sy' b) = 0"
proof -
  obtain v q where g: "get_ldnumber (Some p) = Some (v, q)"
    using assms(2) by (cases "get_ldnumber (Some p)") (auto simp: f_mount_def)
  let ?sy = "(case FatFs sy of None \<Rightarrow> sy | Some c \<Rightarrow> sy\<lparr>FatFs := None, objs := (objs sy)(c := (objs sy c)\<lparr>fs_type := 0\<rparr>)\<rparr>)"
  let ?sz = "?sy\<lparr>objs := (objs ?sy)(a := (objs ?sy a)\<lparr>pdrv := of_int v, fs_type := 0\<rparr>), FatFs := Some a\<rparr>"
  have l: "length (win (load_vol ?sz a)) = 512" using assms(1) by (auto simp: sys_ok_def split: option.split)
  have z: "fs_type (objs ?sz b) = 0" for b using assms(1) by (auto simp: sys_ok_def split: option.split)
  obtain r i s where m: "mount_fs (load_vol ?sz a) (Fsid sy) 0 = Some (r, i, s)"
    "r = FR_OK \<longrightarrow> gok s \<and> i = Fsid sy + 1 \<and> fs_id s = i \<and> fs_type s = fat_subtype (n_fatent s - 2)"
  proof -
    have "wp (mount_fs (load_vol ?sz a) (Fsid sy) 0) (\<lambda>(r, i, s). r = FR_OK \<longrightarrow> gok s \<and> i = Fsid sy + 1 \<and> fs_id s = i)"
      using l by (intro mount_fs_wp) auto
    then show thesis using mount_fs_type [OF l, of "Fsid sy"] that by (auto simp: wp_def)
  qed
  have f: "Fsid ?sz = Fsid sy" by (simp split: option.split)
  have "f_mount sy (Some a) (Some p) 1 = Some (r, (store_vol ?sz a s)\<lparr>Fsid := i\<rparr>)"
    using assms(2) g m(1) z [of a] f by (simp add: f_mount_def mount_volume_def Let_def split: if_splits)
  then have e: "r = FR_OK" "sy' = (store_vol ?sz a s)\<lparr>Fsid := i\<rparr>" using assms(2) by simp_all
  have o: "objs sy' a = FATFS.truncate s" using e(2) by simp
  show "FatFs sy' = Some a" "Fsid sy' = Fsid sy + 1" using e m(2) by simp_all
  show "gok (objs sy' a)" "fs_id (objs sy' a) = Fsid sy + 1" using e m(2) unfolding o by simp_all
  show "fs_type (objs sy' a) = fat_subtype (n_fatent (objs sy' a) - 2)"
    using e m(2) unfolding o by (simp add: FATFS.defs)
  show "fs_type (objs sy' b) = 0" if "b \<noteq> a" using e z [of b] that by simp
qed

text \<open>C37: a volume that \<open>f_mount\<close> accepts has the type of its number of clusters, at least one cluster,
  clusters of at least one sector, and a FAT with room for the entry of every cluster.\<close>

theorem f_mount_geometry:
  assumes "sys_ok sy" "f_mount sy (Some a) (Some p) 1 = Some (FR_OK, sy')"
  shows "let fs = objs sy' a; n = unat (n_fatent fs) - 2; room = 512 * unat (fsize fs) in
     FatFs sy' = Some a \<and> 0 < n \<and> csize fs \<noteq> 0 \<and>
     (if n \<le> 0xFF5 then fs_type fs = FS_FAT12 \<and> (3 * (n + 2) + 1) div 2 \<le> room
      else if n \<le> 0xFFF5 then fs_type fs = FS_FAT16 \<and> 2 * (n + 2) \<le> room
      else n \<le> 0x0FFFFFF5 \<and> fs_type fs = FS_FAT32 \<and> 4 * (n + 2) \<le> room)"
proof -
  note r = f_mount_result [OF assms]
  define N where "N = unat (n_fatent (objs sy' a))"
  have n: "3 \<le> N" "csize (objs sy' a) \<noteq> 0" using r(2) by (simp_all add: gok_def N_def)
  have u: "unat (n_fatent (objs sy' a) - 2) = N - 2"
    using n(1) by (simp add: N_def unat_sub word_le_nat_alt)
  have half: "(3 * N + 1) div 2 = 3 * N div 2 + N mod 2" by presburger
  have ty: "fs_type (objs sy' a) = (if N - 2 \<le> 0xFF5 then FS_FAT12 else if N - 2 \<le> 0xFFF5 then FS_FAT16 else if N - 2 \<le> 0x0FFFFFF5 then FS_FAT32 else 0)"
    unfolding r(3) fat_subtype_def by (simp add: word_le_nat_alt u)
  have "fs_type (objs sy' a) \<noteq> 0" using r(2) by (auto simp: gok_def)
  then show ?thesis
    using r(1,2) n ty half unfolding Let_def N_def [symmetric] gok_def by (auto split: if_splits)
qed

theorem f_mount_geometry_witness:
  "\<exists>sy sy'. sys_ok sy \<and> f_mount sy (Some 0) (Some RAM) 1 = Some (FR_OK, sy') \<and>
    (let fs = objs sy' 0; n = unat (n_fatent fs) - 2; room = 512 * unat (fsize fs) in
     FatFs sy' = Some 0 \<and> 0 < n \<and> csize fs \<noteq> 0 \<and>
     (if n \<le> 0xFF5 then fs_type fs = FS_FAT12 \<and> (3 * (n + 2) + 1) div 2 \<le> room
      else if n \<le> 0xFFF5 then fs_type fs = FS_FAT16 \<and> 2 * (n + 2) \<le> room
      else n \<le> 0x0FFFFFF5 \<and> fs_type fs = FS_FAT32 \<and> 4 * (n + 2) \<le> room))"
  using f_mount_geometry [OF clean_start] clean_start by blast

text \<open>Mounting gives the volume a new id: after it only objects with this id on this volume are accepted, so
  objects that were opened before, with another id, are refused.\<close>

theorem f_mount_fresh_id:
  assumes "sys_ok sy" "f_mount sy (Some a) (Some p) 1 = Some (FR_OK, sy')"
  shows "fs_id (objs sy' a) = Fsid sy + 1 \<and> Fsid sy' = Fsid sy + 1 \<and>
     (\<forall>obj. oid obj \<noteq> Fsid sy + 1 \<or> ofs_ptr obj \<noteq> Some a \<longrightarrow> validate sy' obj = (FR_INVALID_OBJECT, None))"
proof -
  note r = f_mount_result [OF assms]
  have "validate sy' obj = (FR_INVALID_OBJECT, None)" if "oid obj \<noteq> Fsid sy + 1 \<or> ofs_ptr obj \<noteq> Some a" for obj
  proof (cases rule: validate_cases [of sy' obj])
    case (ok b)
    then have "b = a" using r(6) [of b] by blast
    then show ?thesis using ok that r(4) by simp
  qed simp
  then show ?thesis using r(4,5) by blast
qed

section \<open>A geometry that wraps around\<close>

text \<open>A boot sector with the signature of FAT32, \<open>0xFFFFFFFF\<close> sectors for each of two FATs, and 128 sectors in all.\<close>

definition wrap_disk :: disk where
  "wrap_disk i =
     (if i = 0 then 0xEB else if i = 12 then 2 else if i = 13 then 1 else if i = 14 then 1 else if i = 16 then 2
      else if i = 17 then 0x10 else if i = 19 then 0x80 else if 36 \<le> i \<and> i < 40 then 0xFF
      else if 82 \<le> i \<and> i < 90 then (bytes_of ''FAT32   '') ! (i - 82) else if i = 510 then 0x55 else if i = 511 then 0xAA else 0)"

lemma upt8: "[0 ..< 8] = [0, 1, 2, 3, 4, 5, 6, 7 :: nat]"
  by code_simp

lemma wrap_check:
  assumes "length (win s) = 512" "vdisk s = wrap_disk"
  shows "find_volume s 0 = Some (0, s\<lparr>wflag := 0, winsect := 0, win := disk_bytes wrap_disk 0 512\<rparr>)"
proof -
  have "move_window (s\<lparr>wflag := 0, winsect := - 1\<rparr>) 0 = Some (FR_OK, s\<lparr>wflag := 0, winsect := 0, win := disk_bytes wrap_disk 0 512\<rparr>)"
    using assms by (simp add: move_window_def sync_window_def disk_read_1)
  moreover have "memeq (disk_bytes wrap_disk 0 512) 82 (bytes_of ''FAT32   '') = Some True"
  proof -
    have l: "length (bytes_of ''FAT32   '') = 8" by simp
    have "take 8 (drop 82 (disk_bytes wrap_disk 0 512)) = map (\<lambda>j. wrap_disk (82 + j)) [0 ..< 8]"
      by (rule nth_equalityI) simp_all
    also have "\<dots> = bytes_of ''FAT32   ''" unfolding upt8 by (simp add: wrap_disk_def bytes_of_def)
    finally show ?thesis unfolding memeq_def memread_def l by simp
  qed
  ultimately have "check_fs s 0 = Some (0, s\<lparr>wflag := 0, winsect := 0, win := disk_bytes wrap_disk 0 512\<rparr>)"
    by (simp add: check_fs_def ld_word_def ldb_def sector_nonempty wrap_disk_def)
  then show ?thesis by (simp add: find_volume_def)
qed

text \<open>C40: \<open>mount_volume\<close> computes the size of the system area modulo \<open>2^32\<close>: a boot sector that claims FATs of
  \<open>0xFFFFFFFF\<close> sectors is accepted, with a data area that starts at the boot sector, so that the sector of cluster 3 is the first
  sector of the FAT.\<close>

theorem mount_accepts_wrap:
  "\<exists>sy'. f_mount (start_sys\<lparr>sdisk := wrap_disk\<rparr>) (Some 0) (Some RAM) 1 = Some (FR_OK, sy') \<and>
     n_fats (objs sy' 0) = 2 \<and> fsize (objs sy' 0) = 0xFFFFFFFF \<and> database (objs sy' 0) = 0 \<and>
     3 < n_fatent (objs sy' 0) \<and> clst2sect (load_vol sy' 0) 3 = fatbase (objs sy' 0)"
proof -
  let ?sy = "start_sys\<lparr>sdisk := wrap_disk, objs := (objs start_sys)(0 := (objs start_sys 0)\<lparr>pdrv := 0, fs_type := 0\<rparr>), FatFs := Some 0\<rparr>"
  let ?s = "(load_vol ?sy 0)\<lparr>fs_type := 0\<rparr>"
  let ?w = "\<lambda>s. s\<lparr>fsize := 0xFFFFFFFF, n_fats := 2, csize := 1, n_rootdir := 16, n_fatent := 130, volbase := 0,
       fatbase := 1, database := 0, dirbase := 0xFFFFFFFF, last_clst := 0xFFFFFFFF, free_clst := 0xFFFFFFFF, fsi_flag := 0x80\<rparr> :: vol"
  have s: "length (win ?s) = 512" "vdisk ?s = wrap_disk"
    by (simp_all add: load_vol_def FATFS.defs vol.defs start_sys_def world_of_def blank_FATFS_def)
  have b: "win s = disk_bytes wrap_disk 0 512 \<Longrightarrow> mount_bpb s 0 = Some (FR_OK, FS_FAT12, ?w s)" for s
    by (simp add: mount_bpb_def ld_word_def ld_dword_def ldb_def sector_nonempty Let_def fat_subtype_def
      mount_limits_def mount_fsinfo_def wrap_disk_def)
  obtain s' i where m: "mount_fs (load_vol ?sy 0) (Fsid ?sy) 0 = Some (FR_OK, i, s')"
    "n_fats s' = 2" "fsize s' = 0xFFFFFFFF" "database s' = 0" "n_fatent s' = 130" "csize s' = 1" "fatbase s' = 1"
    using b wrap_check [OF s] by (simp add: mount_fs_def disk_initialize_def Let_def)
  have z: "fs_type (objs ?sy 0) = 0" by simp
  have "mount_volume ?sy (Some RAM) 0 = Some (FR_OK, Some 0, Some [0], (store_vol ?sy 0 s')\<lparr>Fsid := i\<rparr>)"
    unfolding mount_volume_def using m(1) z by simp
  then have "f_mount (start_sys\<lparr>sdisk := wrap_disk\<rparr>) (Some 0) (Some RAM) 1 = Some (FR_OK, (store_vol ?sy 0 s')\<lparr>Fsid := i\<rparr>)"
    by (simp add: f_mount_def start_sys_def world_of_def)
  then show ?thesis
    using m(2-) by (simp add: clst2sect_def) (simp add: FATFS.defs word_le_nat_alt)
qed

section \<open>The clean image\<close>

text \<open>C36: the image of the harnesses mounts: from every state between two rounds \<open>f_mount\<close> on it returns
  \<open>FR_OK\<close> and finds a FAT12 volume of 23 clusters of 4 sectors with two FATs in the sectors 1 and 2, the root directory in
  the sectors 3 to 34 and the data from sector 35 on; all its sectors are on the device, and the device is not changed.\<close>

theorem clean_disk_mounts:
  assumes "idle sy" "length (win (lv_fs l)) = 512"
  shows "\<exists>sy'. clean_mount l sy = Some (FR_OK, sy') \<and> sys_ok sy' \<and> FatFs sy' = Some 0 \<and> sdisk sy' = clean_image \<and>
     (let fs = objs sy' 0 in fs_type fs = FS_FAT12 \<and> n_fatent fs = 25 \<and> csize fs = 4 \<and> n_fats fs = 2 \<and> fsize fs = 1 \<and>
        fatbase fs = 1 \<and> dirbase fs = 3 \<and> n_rootdir fs = 512 \<and> database fs = 35 \<and>
        unat (database fs) + unat (csize fs) * (unat (n_fatent fs) - 2) \<le> DISK_SECTORS)"
proof -
  let ?sy = "declare_fs l (sy\<lparr>sdisk := clean_image\<rparr>)"
  have i: "idle ?sy" "sdisk ?sy = clean_image" using assms by (simp_all add: idle_def declare_fs_def)
  then have "clean_mount l sy = Some (FR_OK, clean_sys ?sy)"
    by (simp add: clean_mount_def load_image_def load_clean f_mount_clean idle_def)
  moreover have "sys_ok (clean_sys ?sy)" by (rule during_ok [OF during_clean [OF i]])
  ultimately show ?thesis using i(2) by (simp add: clean_sys_def clean_fs_def)
qed

definition demo_locals :: locals where
  "demo_locals =
     \<lparr>lv_fs = blank_FATFS, lv_file = blank_FIL, lv_fno = \<lparr>fno_fsize = 0, fdate = 0, ftime = 0, fattrib = 0, fname = replicate 13 0\<rparr>,
      lv_dir = blank_DIR 0, lv_subdir = blank_DIR 0,
      lv_subfno = \<lparr>fno_fsize = 0, fdate = 0, ftime = 0, fattrib = 0, fname = replicate 13 0\<rparr>,
      lv_path = replicate 64 0, lv_subpath = replicate 96 0, lv_rbuf = replicate 512 0\<rparr>"

lemma demo_locals_ok: "locals_ok 64 96 demo_locals" "locals_ok 32 32 (demo_locals\<lparr>lv_path := replicate 32 0, lv_subpath := replicate 32 0\<rparr>)"
  by (simp_all add: locals_ok_def demo_locals_def blank_FATFS_def blank_DIR_def)

lemma start_idle: "idle start_sys"
  by (simp add: idle_def start_sys_def world_of_def blank_FATFS_def)

theorem clean_disk_mounts_witness:
  "\<exists>sy'. clean_mount demo_locals start_sys = Some (FR_OK, sy') \<and> sys_ok sy' \<and> FatFs sy' = Some 0 \<and> sdisk sy' = clean_image \<and>
     (let fs = objs sy' 0 in fs_type fs = FS_FAT12 \<and> n_fatent fs = 25 \<and> csize fs = 4 \<and> n_fats fs = 2 \<and> fsize fs = 1 \<and>
        fatbase fs = 1 \<and> dirbase fs = 3 \<and> n_rootdir fs = 512 \<and> database fs = 35 \<and>
        unat (database fs) + unat (csize fs) * (unat (n_fatent fs) - 2) \<le> DISK_SECTORS)"
  using demo_locals_ok(1) by (intro clean_disk_mounts start_idle) (simp add: locals_ok_def)

section \<open>The harnesses\<close>

text \<open>C33: the harnesses for writing, reading, seeking, deleting, creating directories and renaming return on
  every sequence of test cases, without an access outside an object, and leave a state in which the next round may start.\<close>

theorem clean_harnesses_return:
  assumes "idle sy"
    and "\<And>l buf. (l, buf) \<in> set cs \<Longrightarrow> locals_ok 64 96 l" "\<And>l buf. (l, buf) \<in> set ds \<Longrightarrow> locals_ok 32 32 l"
    and "body \<in> {harness_write sc, harness_read sc, harness_seek sc, harness_unlink sc, harness_mkdir sc}"
  shows "\<exists>sy' sy''. afl_loop body cs sy = Some sy' \<and> idle sy' \<and> afl_loop (harness_rename sc) ds sy = Some sy'' \<and> idle sy''"
proof -
  have c: "\<forall>(l, buf) \<in> set cs. locals_ok 64 96 l" "\<forall>(l, buf) \<in> set ds. locals_ok 32 32 l" using assms(2,3) by auto
  have "wp (afl_loop body cs sy) idle"
    using assms(4) hw.loop_returns [OF assms(1) c(1)] hr.loop_returns [OF assms(1) c(1)] hsk.loop_returns [OF assms(1) c(1)]
      hul.loop_returns [OF assms(1) c(1)] hmk.loop_returns [OF assms(1) c(1)] by blast
  moreover have "wp (afl_loop (harness_rename sc) ds sy) idle" by (rule hrn.loop_returns [OF assms(1) c(2)])
  ultimately show ?thesis by (auto simp: wp_def)
qed

theorem clean_harnesses_return_witness:
  "\<exists>sy' sy''. afl_loop (harness_mkdir True) [(demo_locals, [0, 0x41, 0x42])] start_sys = Some sy' \<and> idle sy' \<and>
     afl_loop (harness_rename True) [(demo_locals\<lparr>lv_path := replicate 32 0, lv_subpath := replicate 32 0\<rparr>, [0, 0x41, 0, 0x42, 0, 0])] start_sys
       = Some sy'' \<and> idle sy''"
  by (rule clean_harnesses_return [OF start_idle]) (auto simp: demo_locals_ok)

text \<open>C34: the harnesses that mount the test case itself and read or \<open>f_stat\<close> the entries of its root directory
  return on every sequence of test cases: no image, however corrupted, makes them loop or leave a buffer.\<close>

theorem raw_harnesses_return:
  assumes "idle sy" "\<And>l buf. (l, buf) \<in> set cs \<Longrightarrow> locals_ok 64 96 l" "body \<in> {harness_mount sc, harness_stat sc}"
  shows "\<exists>sy'. afl_loop body cs sy = Some sy' \<and> idle sy'"
proof -
  have c: "\<forall>(l, buf) \<in> set cs. locals_ok 64 96 l" using assms(2) by auto
  have "wp (afl_loop body cs sy) idle"
    using assms(3) hmt.loop_returns [OF assms(1) c] hst.loop_returns [OF assms(1) c] by blast
  then show ?thesis by (auto simp: wp_def)
qed

theorem raw_harnesses_return_witness:
  "\<exists>sy'. afl_loop (harness_stat False) [(demo_locals, clean_disk), (demo_locals, [])] start_sys = Some sy' \<and> idle sy'"
  by (rule raw_harnesses_return [OF start_idle]) (auto simp: demo_locals_ok)

text \<open>C35: \<open>harness.c\<close>, which also writes and deletes on the image of the test case, returns on every sequence of
  test cases whose volume, if it mounts, does not wrap its second FAT around.\<close>

theorem main_harness_returns:
  assumes "idle sy" "\<And>l buf. (l, buf) \<in> set cs \<Longrightarrow> locals_ok 64 96 l \<and> image_safe l buf"
  shows "\<exists>sy'. afl_loop (harness_main sc) cs sy = Some sy' \<and> idle sy'"
proof -
  have "\<forall>(l, buf) \<in> set cs. locals_ok 64 96 l \<and> image_safe l buf" using assms(2) by auto
  then have "wp (afl_loop (harness_main sc) cs sy) idle" by (rule hmain.loop_returns [OF assms(1)])
  then show ?thesis by (auto simp: wp_def)
qed

lemma clean_image_safe: "length (win (lv_fs l)) = 512 \<Longrightarrow> image_safe l clean_disk"
  by (simp add: image_safe_def load_clean fresh_fs_def mount_fs_clean FATFS.defs vol.defs mirror_ok_def clean_fs_def)

theorem main_harness_returns_witness:
  "\<exists>sy'. afl_loop (harness_main True) [(demo_locals, clean_disk)] start_sys = Some sy' \<and> idle sy'"
proof (rule main_harness_returns [OF start_idle])
  fix l buf assume "(l, buf) \<in> set [(demo_locals, clean_disk)]"
  then show "locals_ok 64 96 l \<and> image_safe l buf"
    using demo_locals_ok(1) by (simp add: clean_image_safe locals_ok_def)
qed

end
