(* ===== verification/Spec2Isabelle.thy ===== *)
theory Spec2Isabelle
  imports FF_Api Props_File Props_Entry Props_Volume Props_Names Props_Mount
begin

text \<open>
  Verification of FatFs R0.15a (\<open>filesystem_code/ff.c\<close>, \<open>ff.h\<close>) in the configuration of \<open>ffconf.h\<close> with
  \<open>ffconf_fuzz_override.h\<close>, of the RAM device under it (\<open>diskio_fuzz.c\<close>), and of the programs that fuzz it
  (\<open>harness.c\<close>, \<open>harnesses/harness_*.c\<close>).  The configuration has sectors of 512 bytes, one volume \<open>RAM\<close>, the tiny
  buffer scheme, names of 8 and 3 characters in code page 437, no exFAT, no locks, no clock, and \<open>f_mkfs\<close>.

  \<^bold>\<open>How the program is put together.\<close>  A client calls the API of \<open>ff.c\<close> with its file and directory objects.  The API finds
  the filesystem object of the volume (\<open>mount_volume\<close> for paths, \<open>validate\<close> for open objects), and works on it through three
  layers: directories (\<open>dir_*\<close>), cluster chains in the FAT (\<open>get_fat\<close>, \<open>put_fat\<close>, \<open>create_chain\<close>, \<open>remove_chain\<close>), and the
  sector window (\<open>move_window\<close>, \<open>sync_window\<close>), which is the only buffer; the window and the direct transfers of \<open>f_read\<close> and
  \<open>f_write\<close> call \<open>disk_read\<close> and \<open>disk_write\<close>.

  \<^bold>\<open>State.\<close>  The structures of \<open>ff.h\<close> are records with the same members (\<open>FATFS\<close>, \<open>FFOBJID\<close>, \<open>FIL\<close>, \<open>DIR\<close>, \<open>FILINFO\<close>), without \<open>ldrv\<close>, which only
  the re-entrant configuration reads; the member \<open>err\<close> of a file is an \<open>FRESULT\<close>, the only values stored in its byte, and the answer of
  \<open>disk_ioctl\<close> to \<open>GET_SECTOR_SIZE\<close>, which this configuration does not ask for, is a double word as the other answers.  A
  function below the API passes a \<open>vol\<close> on, a filesystem object with the device; the API works on a \<open>sys\<close>, the static variables
  \<open>FatFs\<close> and \<open>Fsid\<close> with the objects by address and the device.  Integers are words of their C width.  A buffer is the list of its
  bytes; an access outside it, and a loop that does not return, is the value \<open>None\<close> of the option monad.  So \<open>wp m Q\<close> says that
  \<open>m\<close> returns, stays inside its objects, and satisfies \<open>Q\<close>.  Loops are \<open>partial_function\<close>s without fuel or bounds: that they end is
  proved.  The result codes are the constructors of \<open>FRESULT\<close>; every early return and \<open>ABORT\<close> is a branch.

  \<^bold>\<open>The model\<close>, in the order of the code:
  \<^item> \<open>FF_Prelude\<close>: integer types, checked buffers, the calculus \<open>wp\<close>; \<open>Diskio\<close>: the device.
  \<^item> \<open>FF_Types\<close>: structures, constants, little-endian access; \<open>FF_Window\<close>: the window, \<open>sync_fs\<close>, \<open>clst2sect\<close>.
  \<^item> \<open>FF_Fat\<close>: the FAT and cluster chains; \<open>FF_Dir\<close>: directory tables and entries; \<open>FF_Path\<close>: names, paths, drive prefix.
  \<^item> \<open>FF_Mount\<close>: boot sectors, the BPB, \<open>mount_volume\<close>, \<open>validate\<close>, \<open>f_mount\<close>; \<open>FF_File\<close>: \<open>f_open\<close>, \<open>f_read\<close>, \<open>f_write\<close>,
    \<open>f_sync\<close>, \<open>f_close\<close>, \<open>f_lseek\<close>, \<open>f_truncate\<close>; \<open>FF_DirApi\<close>: \<open>f_opendir\<close>, \<open>f_readdir\<close>, \<open>f_closedir\<close>, \<open>f_stat\<close>,
    \<open>f_getfree\<close>, \<open>f_unlink\<close>, \<open>f_mkdir\<close>, \<open>f_rename\<close>; \<open>FF_Mkfs\<close>: \<open>create_partition\<close> and \<open>f_mkfs\<close>.
  \<^item> \<open>FF_Api\<close>: a client that makes any calls in any order, as a step relation; \<open>Clean_Disk\<close>, \<open>FF_Harness\<close>: the image
    \<open>clean_disk.c\<close> and the nine harnesses, one round per test case.

  \<^bold>\<open>Safety and termination.\<close>  \<open>FF_FatTable\<close> and \<open>FF_Chain\<close> show that walks along a chain end on every table (with a cycle they
  free or count clusters, and there are finitely many); \<open>FF_ReadWrite\<close>, \<open>FF_FileOps\<close>, \<open>FF_DirOps\<close>, \<open>FF_MkfsOps\<close> do the same for the
  API.  The invariant is \<open>sys_ok\<close> (\<open>world_ok\<close> with the client's objects), and \<open>keeps\<close> says what no call but \<open>f_mount\<close> and
  \<open>f_mkfs\<close> changes.  The only condition on the volume is \<open>mirror_ok\<close>, for calls that free clusters: the second FAT
  does not wrap around at \<open>2^32\<close> sectors into the first one (\<open>mount_accepts_wrap\<close> shows that the code mounts such a volume).

  \<^bold>\<open>Function.\<close>  \<open>Diskio_Spec\<close>: the device is an array of sectors (locale \<open>block_device\<close>).  \<open>FF_FatSpec\<close>: the FAT is a map
  from clusters to entries (locale \<open>fat_table\<close>), with chains and free clusters, which \<open>FF_FreeSpec\<close> counts for \<open>f_getfree\<close>.  \<open>FF_Data\<close>, \<open>FF_ReadSpec\<close>, \<open>FF_WriteSpec\<close>,
  \<open>FF_SeekSpec\<close>, \<open>FF_TruncSpec\<close>: an open file is a byte list with a position, and the file operations implement its operations
  on a volume whose layout fits the device (\<open>lay\<close>).  \<open>FF_NameSpec\<close>, \<open>FF_DirSpec\<close>: names, and the fixed root directory as a list of
  entries with \<open>lookup\<close> and \<open>first_free\<close>.  On it \<open>FF_EntrySpec\<close> (deleting), \<open>FF_OpenSpec\<close> (the cases of \<open>f_open\<close>), \<open>FF_RenameSpec\<close> and
  \<open>FF_CloseSpec\<close> (the entry that \<open>f_sync\<close> writes) describe the calls with a path of one segment as changes of the list of entries and
  of the FAT; \<open>FF_NameCalls\<close> lifts them to the API on a mounted volume, and in \<open>FF_FileMap\<close> the directory is a map from names
  to files (\<open>holds_file\<close>: chain and bytes) that each call updates: what is created, written and closed is read back by its name,
  and other files are kept.  The theorems on \<open>f_unlink\<close>, \<open>f_rename\<close> and \<open>f_truncate\<close> give the new list of entries and the new FAT exactly, so that an entry
  that is not removed or a cluster that is not freed contradicts them.  \<open>FF_Demo\<close> and \<open>FF_DirDemo\<close> have the concrete volumes of the witnesses.  The theorems are in
  \<open>Props_File\<close>, \<open>Props_Entry\<close>, \<open>Props_Volume\<close>, \<open>Props_Names\<close>, \<open>Props_Mount\<close>, \<open>Diskio_Spec\<close> and below.

  \<^bold>\<open>Not modelled.\<close>  Code that the configuration leaves out: long file names and their Unicode tables, exFAT, the lock table,
  \<open>f_findfirst\<close>, \<open>f_chmod\<close>, labels, \<open>f_expand\<close>, \<open>f_forward\<close>, \<open>f_fdisk\<close>, the current directory and the string functions.  The
  Zephyr sample and \<open>harnesses/Harness.c\<close> call file system, disk and console functions of Zephyr that are not in the repository; its
  build tree is generated.  The functional specifications of the calls with a path cover the files of the fixed root directory of
  FAT12 and FAT16; sub-directories, the root directory of FAT32, \<open>FA_OPEN_APPEND\<close>, \<open>f_mkdir\<close>, \<open>f_readdir\<close>, the scan of \<open>f_getfree\<close> over a FAT16 or
  FAT32 and \<open>f_mkfs\<close> have the safety and termination theorems only.
\<close>

text \<open>C1: every call that a client may make in a reachable state of the module returns, without
  an access outside a buffer, and leaves a state with the invariant of the module.\<close>

theorem api_total:
  assumes "reach sc w" "call_ok w c"
  shows "\<exists>r w'. do_call sc w c = Some (r, w') \<and> world_ok w'"
  using do_call_wp [OF reach_world_ok [OF assms(1)] assms(2), of sc] by (auto simp: wp_def)

theorem api_total_witness:
  "\<exists>r w'. do_call False (world_of (\<lambda>_. 0)) (Mount (Some 0) (Some (bytes_of ''RAM:'' @ [0])) 1) = Some (r, w')
     \<and> world_ok w'"
  by (rule api_total) (auto intro: reach_init init_world_of simp: path_ok_def cstring_def)

text \<open>C38: in every reachable state at most the registered object is mounted, its window has 512 bytes and, while it
  is clean and on the device, shows the bytes of its sector, and its FAT has room for all clusters.\<close>

theorem mounted_invariant:
  assumes "reach sc w" "fs_type (objs (wsys w) a) \<noteq> 0"
  shows "FatFs (wsys w) = Some a \<and> length (win (objs (wsys w) a)) = 512 \<and>
     (wflag (objs (wsys w) a) = 0 \<and> unat (winsect (objs (wsys w) a)) < DISK_SECTORS \<longrightarrow>
        win (objs (wsys w) a) = disk_bytes (sdisk (wsys w)) (unat (winsect (objs (wsys w) a)) * 512) 512) \<and>
     gok (objs (wsys w) a)"
proof -
  have ok: "sys_ok (wsys w)" using reach_world_ok [OF assms(1)] by (simp add: world_ok_def)
  have f: "wflag (load_vol sy b) = wflag (objs sy b)" "winsect (load_vol sy b) = winsect (objs sy b)" for sy b
    by (simp_all add: load_vol_def FATFS.defs vol.defs)
  show ?thesis using sys_ok_mounted [OF ok assms(2)] by (simp add: vok_def coh_def f)
qed

theorem mounted_invariant_witness:
  "\<exists>w. reach False w \<and> fs_type (objs (wsys w) 0) \<noteq> 0 \<and>
     FatFs (wsys w) = Some 0 \<and> length (win (objs (wsys w) 0)) = 512 \<and>
     (wflag (objs (wsys w) 0) = 0 \<and> unat (winsect (objs (wsys w) 0)) < DISK_SECTORS \<longrightarrow>
        win (objs (wsys w) 0) = disk_bytes (sdisk (wsys w)) (unat (winsect (objs (wsys w) 0)) * 512) 512) \<and>
     gok (objs (wsys w) 0)"
proof -
  let ?w = "(world_of clean_image)\<lparr>wsys := clean_sys start_sys\<rparr>"
  have "api_step False (world_of clean_image) (Mount (Some 0) (Some RAM) 1) FR_OK ?w"
    using clean_start(2) by (simp add: api_step_iff path_ok_def start_sys_def)
  then have r: "reach False ?w" by (rule reach_step [OF reach_init [OF init_world_of]])
  moreover have "fs_type (objs (wsys ?w) 0) \<noteq> 0" by (simp add: clean_sys_def clean_fs_def)
  ultimately show ?thesis using mounted_invariant [of False ?w 0] by blast
qed

text \<open>C39: no call but \<open>f_mount\<close> and \<open>f_mkfs\<close> changes the registered object, or the type, the id and the geometry
  of a mounted volume.\<close>

theorem calls_keep_geometry:
  assumes "reach sc w" "api_step sc w c r w'" "\<not> remounts c"
  shows "FatFs (wsys w') = FatFs (wsys w) \<and>
     (\<forall>a. fs_type (objs (wsys w) a) \<noteq> 0 \<longrightarrow> geo (objs (wsys w') a) = geo (objs (wsys w) a))"
  using do_call_keeps [OF reach_world_ok [OF assms(1)] _ assms(3), of sc] assms(2)
  by (auto simp: wp_def keeps_def api_step_iff)

theorem calls_keep_geometry_witness:
  "\<exists>r w'. api_step False (world_of clean_image) (Getfree (Some RAM)) r w' \<and> FatFs (wsys w') = FatFs (wsys (world_of clean_image)) \<and>
     (\<forall>a. fs_type (objs (wsys (world_of clean_image)) a) \<noteq> 0 \<longrightarrow> geo (objs (wsys w') a) = geo (objs (wsys (world_of clean_image)) a))"
proof -
  let ?w = "world_of clean_image"
  have r: "reach False ?w" by (rule reach_init [OF init_world_of])
  have "call_ok ?w (Getfree (Some RAM))" by (simp add: path_ok_def)
  then obtain x w' where "api_step False ?w (Getfree (Some RAM)) x w'"
    using do_call_wp [OF reach_world_ok [OF r], of "Getfree (Some RAM)" False] by (auto simp: wp_def api_step_iff)
  then show ?thesis using calls_keep_geometry [OF r, of "Getfree (Some RAM)" x w'] by fastforce
qed

end
